(* ===== verification/Prelude.thy ===== *)
theory Prelude
  imports Main "HOL-Library.Word" "HOL-Library.Code_Target_Numeral"
begin

text \<open>
  What every component theory shares: the result type of fallible code, C strings and the
  character classes of the C locale, \<open>atoi\<close>/\<open>strtol\<close>-style digit scanning, and the
  machine that runs a byte-by-byte filter over its input.
  Errors are values: \<open>Inl\<close> an error of the component's own datatype, \<open>Inr\<close> a result.
\<close>

unbundle bit_operations_syntax

named_theorems result_simps "unfolding of the result type"

named_theorems ctype_simps "the character classes as tests of a character code"

section \<open>Fallible code\<close>

definition rbind :: "'e + 'a \<Rightarrow> ('a \<Rightarrow> 'e + 'b) \<Rightarrow> 'e + 'b" where
  "rbind r f = (case r of Inl e \<Rightarrow> Inl e | Inr x \<Rightarrow> f x)"

lemma rbind_Inl [simp, result_simps]: "rbind (Inl e) f = Inl e"
  by (simp add: rbind_def)

lemma rbind_Inr [simp, result_simps]: "rbind (Inr x) f = f x"
  by (simp add: rbind_def)

lemma rbind_eq_Inr [result_simps]: "rbind r f = Inr y \<longleftrightarrow> (\<exists>x. r = Inr x \<and> f x = Inr y)"
  by (cases r) auto

lemma rbind_eq_Inl [result_simps]:
  "rbind r f = Inl e \<longleftrightarrow> r = Inl e \<or> (\<exists>x. r = Inr x \<and> f x = Inl e)"
  by (cases r) auto

lemma rbind_cong [fundef_cong]:
  "r = r' \<Longrightarrow> (\<And>x. r' = Inr x \<Longrightarrow> f x = f' x) \<Longrightarrow> rbind r f = rbind r' f'"
  by (cases r') auto

definition rmap :: "('a \<Rightarrow> 'b) \<Rightarrow> 'e + 'a \<Rightarrow> 'e + 'b" where
  "rmap f r = rbind r (\<lambda>x. Inr (f x))"

lemma rmap_simps [simp]: "rmap f (Inl e) = Inl e" "rmap f (Inr x) = Inr (f x)"
  by (simp_all add: rmap_def)

lemma rmap_eq_Inr [result_simps]: "rmap f r = Inr y \<longleftrightarrow> (\<exists>x. r = Inr x \<and> f x = y)"
  by (cases r) auto

lemma rmap_eq_Inl [result_simps]: "rmap f r = Inl e \<longleftrightarrow> r = Inl e"
  by (cases r) auto

section \<open>Codecs\<close>

text \<open>
  The contract of an encoder with its decoder: whatever \<open>ok\<close> admits is encoded, and the
  decoder gives it back. Hence the encoding is injective there.
\<close>

locale codec =
  fixes ok :: "'a \<Rightarrow> bool" and enc :: "'a \<Rightarrow> 'e + 'b" and dec :: "'b \<Rightarrow> 'f + 'a"
  assumes round_trip: "ok x \<Longrightarrow> \<exists>y. enc x = Inr y \<and> dec y = Inr x"
begin

lemma encodes: "ok x \<Longrightarrow> enc x \<noteq> Inl e"
  using round_trip by force

lemma injective: "ok x \<Longrightarrow> ok x' \<Longrightarrow> enc x = enc x' \<Longrightarrow> x = x'"
  using round_trip [of x] round_trip [of x'] by auto

lemma decodes_only: "ok x \<Longrightarrow> enc x = Inr y \<Longrightarrow> dec y = Inr x' \<Longrightarrow> x = x'"
  using round_trip [of x] by auto

end

text \<open>A property of the numbers below a literal bound, by evaluation.\<close>

lemma all_below: "list_all P [0..<k] \<Longrightarrow> n < k \<Longrightarrow> P n"
  by (simp add: list_all_iff)

section \<open>Characters\<close>

text \<open>A \<open>char\<close> read as \<open>unsigned char\<close>, and the way back (modulo 256).\<close>

definition code :: "char \<Rightarrow> nat" where
  "code c = of_char c"

definition chr :: "nat \<Rightarrow> char" where
  "chr n = char_of n"

lemma code_less [simp]: "code c < 256"
  by (simp add: code_def)

lemma chr_code [simp]: "chr (code c) = c"
  by (simp add: code_def chr_def)

lemma code_chr: "code (chr n) = n mod 256"
  by (simp add: code_def chr_def)

lemma code_chr_small [simp]: "n < 256 \<Longrightarrow> code (chr n) = n"
  by (simp add: code_chr)

lemma code_Char [simp]: "code (Char a b c d e f g h) = of_char (Char a b c d e f g h)"
  by (simp add: code_def)

lemma code_eq_iff: "code c = code d \<longleftrightarrow> c = d"
  by (metis chr_code)

text \<open>The C locale's classes, on the code of a character (\<open>ctype.h\<close>).\<close>

definition isdigit :: "nat \<Rightarrow> bool" where
  "isdigit n \<longleftrightarrow> 48 \<le> n \<and> n \<le> 57"

definition isupper :: "nat \<Rightarrow> bool" where
  "isupper n \<longleftrightarrow> 65 \<le> n \<and> n \<le> 90"

definition islower :: "nat \<Rightarrow> bool" where
  "islower n \<longleftrightarrow> 97 \<le> n \<and> n \<le> 122"

definition isalpha :: "nat \<Rightarrow> bool" where
  "isalpha n \<longleftrightarrow> isupper n \<or> islower n"

definition isalnum :: "nat \<Rightarrow> bool" where
  "isalnum n \<longleftrightarrow> isalpha n \<or> isdigit n"

definition isxdigit :: "nat \<Rightarrow> bool" where
  "isxdigit n \<longleftrightarrow> isdigit n \<or> (65 \<le> n \<and> n \<le> 70) \<or> (97 \<le> n \<and> n \<le> 102)"

definition isspace :: "nat \<Rightarrow> bool" where
  "isspace n \<longleftrightarrow> n = 32 \<or> (9 \<le> n \<and> n \<le> 13)"

definition isblank :: "nat \<Rightarrow> bool" where
  "isblank n \<longleftrightarrow> n = 32 \<or> n = 9"

definition isgraph :: "nat \<Rightarrow> bool" where
  "isgraph n \<longleftrightarrow> 33 \<le> n \<and> n \<le> 126"

definition isprint :: "nat \<Rightarrow> bool" where
  "isprint n \<longleftrightarrow> 32 \<le> n \<and> n \<le> 126"

definition iscntrl :: "nat \<Rightarrow> bool" where
  "iscntrl n \<longleftrightarrow> n < 32 \<or> n = 127"

definition ispunct :: "nat \<Rightarrow> bool" where
  "ispunct n \<longleftrightarrow> isgraph n \<and> \<not> isalnum n"

definition tolower :: "nat \<Rightarrow> nat" where
  "tolower n = (if isupper n then n + 32 else n)"

lemmas ctype_defs [ctype_simps] =
  isdigit_def isupper_def islower_def isalpha_def isalnum_def isxdigit_def isspace_def
  isblank_def isgraph_def isprint_def iscntrl_def ispunct_def tolower_def

section \<open>Strings\<close>

text \<open>
  A C string is the list of its characters without the terminating NUL. A buffer that may
  hold NULs of its own is read as a string up to the first of them.
\<close>

abbreviation NUL :: char where
  "NUL \<equiv> CHR 0x00"

abbreviation NL :: char where
  "NL \<equiv> CHR 0x0A"

abbreviation TAB :: char where
  "TAB \<equiv> CHR 0x09"

definition cstr :: "string \<Rightarrow> string" where
  "cstr s = takeWhile (\<lambda>c. c \<noteq> NUL) s"

text \<open>\<open>*p\<close> on a string: the first character, NUL at its end.\<close>

definition at0 :: "string \<Rightarrow> char" where
  "at0 s = (case s of [] \<Rightarrow> NUL | c # _ \<Rightarrow> c)"

lemma at0_simps [simp]: "at0 [] = NUL" "at0 (c # s) = c"
  by (simp_all add: at0_def)

end
