(* ===== verification/FindPlan.thy ===== *)
theory FindPlan
  imports Prelude
begin

text \<open>
  \<open>find\<close>'s search plan: the rearrangement of the command line's node list by
  \<open>paren_squish\<close>, \<open>not_squish\<close> and \<open>or_squish\<close> (\<open>operator.c\<close>), its driver
  \<open>find_formplan\<close> (\<open>find.c\<close>), and the evaluation of a plan on a file
  (\<open>f_expr\<close>, \<open>f_not\<close>, \<open>f_or\<close> of \<open>function.c\<close>). A plan, a linked list of
  \<open>PLAN\<close> nodes through \<open>next\<close>, is a list; \<open>p_data\<close> is a constructor argument.
  The other primaries (\<open>-name\<close>, \<open>-print\<close>, \<open>-exec\<close>, ...) are the parameter \<open>'p\<close>, and
  what they do is an argument of the evaluation.
\<close>

section \<open>Plan nodes\<close>

datatype 'p node =
    N_OPENPAREN
  | N_CLOSEPAREN
  | N_NOT "'p node list"
  | N_OR "'p node list" "'p node list"
  | N_EXPR "'p node list"
  | N_PRIM 'p

datatype plan_error =
    MissingClose | EmptyInner | NoBeginning
  | NotNothing | NotBeforeOr | OrNoLeft | OrNoRight

fun is_close :: "'p node \<Rightarrow> bool" where
  "is_close N_CLOSEPAREN = True"
| "is_close _ = False"

lemma is_close_iff [simp]: "is_close n \<longleftrightarrow> n = N_CLOSEPAREN"
  by (cases n) simp_all

text \<open>The nodes \<open>c_not\<close> and \<open>c_or\<close> allocate: no subplans yet.\<close>

definition c_not :: "'p node" where
  "c_not = N_NOT []"

definition c_or :: "'p node" where
  "c_or = N_OR [] []"

section \<open>Parentheses\<close>

text \<open>
  \<open>yankexpr\<close> removes one expression from the front of the plan; \<open>yanksub\<close> is its inner
  loop, which collects the subplan of an open parenthesis.
\<close>

function (sequential)
  yankexpr :: "'p node list \<Rightarrow> plan_error + ('p node \<times> 'p node list) option" and
  yanksub :: "'p node list \<Rightarrow> 'p node list \<Rightarrow> plan_error + ('p node \<times> 'p node list) option"
where
  "yankexpr [] = Inr None"
| "yankexpr (N_OPENPAREN # plan) = yanksub plan []"
| "yankexpr (n # plan) = Inr (Some (n, plan))"
| "yanksub plan subplan =
     (case yankexpr plan of
        Inl e \<Rightarrow> Inl e
      | Inr None \<Rightarrow> Inl MissingClose
      | Inr (Some (nxt, plan')) \<Rightarrow>
          (if is_close nxt
           then if subplan = [] then Inl EmptyInner else Inr (Some (N_EXPR subplan, plan'))
           else yanksub plan' (subplan @ [nxt])))"
  by pat_completeness auto

lemma yank_shrinks:
  fixes plan plan' :: "'p node list"
  shows
  "yankexpr_yanksub_dom (Inl plan) \<Longrightarrow> yankexpr plan = Inr (Some (n, rest)) \<Longrightarrow>
     length rest < length plan" and
  "yankexpr_yanksub_dom (Inr (plan', sub)) \<Longrightarrow> yanksub plan' sub = Inr (Some (n', rest')) \<Longrightarrow>
     length rest' < length plan'"
proof (induction plan and plan' sub arbitrary: n rest and n' rest'
    rule: yankexpr_yanksub.pinduct)
  case (4 plan subplan)
  from "4.prems" "4.hyps" obtain nxt plan2 where y: "yankexpr plan = Inr (Some (nxt, plan2))"
    by (auto simp: yanksub.psimps split: sum.splits option.splits)
  then have l: "length plan2 < length plan"
    by (rule "4.IH"(1))
  show ?case
  proof (cases "is_close nxt")
    case True
    with "4.prems" "4.hyps" y l show ?thesis
      by (auto simp: yanksub.psimps split: if_splits)
  next
    case False
    with "4.prems" "4.hyps" y have "yanksub plan2 (subplan @ [nxt]) = Inr (Some (n', rest'))"
      by (auto simp: yanksub.psimps)
    with "4.IH"(2) [OF y refl refl False] l show ?thesis by fastforce
  qed
qed (auto simp: yankexpr.psimps)

lemma yank_total: "All yankexpr_yanksub_dom"
  apply (relation "measure (\<lambda>x. case x of Inl p \<Rightarrow> 2 * length p | Inr (p, s) \<Rightarrow> 2 * length p + 1)")
     apply (auto dest: yank_shrinks)
  done

termination yankexpr
  by (rule yank_total)

lemma yankexpr_shrinks: "yankexpr plan = Inr (Some (n, rest)) \<Longrightarrow> length rest < length plan"
  by (rule yank_shrinks(1)) (simp_all add: yank_total)

text \<open>\<open>paren_squish\<close>: collect expressions until the plan is empty.\<close>

function paren_squish :: "'p node list \<Rightarrow> plan_error + 'p node list" where
  "paren_squish plan =
     (case yankexpr plan of
        Inl e \<Rightarrow> Inl e
      | Inr None \<Rightarrow> Inr []
      | Inr (Some (expr, plan')) \<Rightarrow>
          (if is_close expr then Inl NoBeginning
           else rmap ((#) expr) (paren_squish plan')))"
  by pat_completeness auto
termination
  by (relation "measure length") (auto dest: yankexpr_shrinks)

declare yanksub.simps [simp del] paren_squish.simps [simp del]

section \<open>Negations\<close>

text \<open>The inner loop of \<open>not_squish\<close>: count the nots, stop at the first other node.\<close>

fun skip_nots :: "nat \<Rightarrow> 'p node list \<Rightarrow> nat \<times> 'p node list" where
  "skip_nots notlevel (N_NOT d # plan) = skip_nots (Suc notlevel) plan"
| "skip_nots notlevel plan = (notlevel, plan)"

lemma skip_nots_size: "size_list size (snd (skip_nots k plan)) \<le> size_list size plan"
  by (induction k plan rule: skip_nots.induct) auto

lemma skip_nots_node_size:
  "skip_nots k plan = (l, n # rest) \<Longrightarrow> Suc (size n + size_list size rest) \<le> size_list size plan"
  using skip_nots_size [of k plan] by simp

function (sequential) not_squish :: "'p node list \<Rightarrow> plan_error + 'p node list" where
  "not_squish [] = Inr []"
| "not_squish (N_EXPR sub # plan) =
     rbind (not_squish sub) (\<lambda>sub'. rmap ((#) (N_EXPR sub')) (not_squish plan))"
| "not_squish (N_NOT d # plan) =
     (case skip_nots 1 plan of
        (_, []) \<Rightarrow> Inl NotNothing
      | (notlevel, node # rest) \<Rightarrow>
          (case node of N_OR _ _ \<Rightarrow> Inl NotBeforeOr
           | _ \<Rightarrow>
             rbind (case node of N_EXPR _ \<Rightarrow> not_squish [node] | _ \<Rightarrow> Inr [node])
               (\<lambda>ns. rmap ((#) (if notlevel mod 2 \<noteq> 1 then hd ns else N_NOT ns))
                  (not_squish rest))))"
| "not_squish (nxt # plan) = rmap ((#) nxt) (not_squish plan)"
  by pat_completeness auto
termination
  by (relation "measure (size_list size)") (auto dest!: skip_nots_node_size [OF sym])

section \<open>Alternatives\<close>

text \<open>
  \<open>or_squish\<close> with the list collected so far, \<open>result\<close>; a node \<open>-o\<close> takes it as its first
  subplan and the squished remainder as its second.
\<close>

function (sequential) or_go :: "'p node list \<Rightarrow> 'p node list \<Rightarrow> plan_error + 'p node list" where
  "or_go result [] = Inr result"
| "or_go result (N_EXPR sub # plan) =
     rbind (or_go [] sub) (\<lambda>sub'. or_go (result @ [N_EXPR sub']) plan)"
| "or_go result (N_NOT sub # plan) =
     rbind (or_go [] sub) (\<lambda>sub'. or_go (result @ [N_NOT sub']) plan)"
| "or_go result (N_OR d0 d1 # plan) =
     (if result = [] then Inl OrNoLeft
      else rbind (or_go [] plan)
             (\<lambda>r. if r = [] then Inl OrNoRight else Inr [N_OR result r]))"
| "or_go result (nxt # plan) = or_go (result @ [nxt]) plan"
  by pat_completeness auto
termination
  by (relation "measure (\<lambda>(r, p). size_list size p)") auto

definition or_squish :: "'p node list \<Rightarrow> plan_error + 'p node list" where
  "or_squish plan = or_go [] plan"

section \<open>The driver\<close>

text \<open>
  \<open>find_formplan\<close> on the nodes \<open>find_create\<close> returned for the arguments; \<open>isoutput\<close> says
  that one of them was an output action, \<open>print\<close> is the primary \<open>c_print\<close> makes.
\<close>

definition find_formplan :: "'p \<Rightarrow> bool \<Rightarrow> 'p node list \<Rightarrow> plan_error + 'p node list" where
  "find_formplan print isoutput plan =
     (let plan1 = (if isoutput then plan
                   else if plan = [] then [N_PRIM print]
                   else N_OPENPAREN # plan @ [N_CLOSEPAREN, N_PRIM print])
      in rbind (paren_squish plan1) (\<lambda>p. rbind (not_squish p) or_squish))"

section \<open>Evaluation\<close>

text \<open>
  \<open>eval_node\<close> is the call through \<open>p->eval\<close>: \<open>f_expr\<close>, \<open>f_not\<close>, \<open>f_or\<close>, or a primary,
  which answers and may change the world \<open>'s\<close>. The parenthesis nodes hold the pointer
  \<open>-1\<close>; a call through it is \<open>None\<close>. \<open>eval_seq\<close> is the loop the three functions share,
  \<open>state\<close> being the value before the first node.
\<close>

fun eval_node :: "('p \<Rightarrow> 's \<Rightarrow> bool \<times> 's) \<Rightarrow> 'p node \<Rightarrow> 's \<Rightarrow> (bool \<times> 's) option"
  and eval_seq :: "('p \<Rightarrow> 's \<Rightarrow> bool \<times> 's) \<Rightarrow> bool \<Rightarrow> 'p node list \<Rightarrow> 's \<Rightarrow> (bool \<times> 's) option"
where
  "eval_node f N_OPENPAREN s = None"
| "eval_node f N_CLOSEPAREN s = None"
| "eval_node f (N_EXPR d) s = eval_seq f False d s"
| "eval_node f (N_NOT d) s = map_option (\<lambda>(st, s'). (\<not> st, s')) (eval_seq f False d s)"
| "eval_node f (N_OR d0 d1) s =
     (case eval_seq f False d0 s of
        None \<Rightarrow> None
      | Some (st, s') \<Rightarrow> if st then Some (True, s') else eval_seq f st d1 s')"
| "eval_node f (N_PRIM p) s = Some (f p s)"
| "eval_seq f state [] s = Some (state, s)"
| "eval_seq f state (n # ns) s =
     (case eval_node f n s of
        None \<Rightarrow> None
      | Some (st, s') \<Rightarrow> if st then eval_seq f st ns s' else Some (st, s'))"

text \<open>\<open>find_execute\<close> on one file: the top-level loop, whose last value is dropped.\<close>

definition run_plan :: "('p \<Rightarrow> 's \<Rightarrow> bool \<times> 's) \<Rightarrow> 'p node list \<Rightarrow> 's \<Rightarrow> 's option" where
  "run_plan f plan s = map_option snd (eval_seq f True plan s)"

section \<open>The expression language\<close>

text \<open>
  What the manual calls an expression, with its short-circuit meaning, and the argument
  nodes it is written with: \<open>toks 0\<close> writes an expression, \<open>toks 1\<close> an operand of
  \<open>-o\<close>, \<open>toks 2\<close> an operand of juxtaposition or \<open>!\<close>, with the parentheses the
  precedences need (and those of \<open>Group\<close>, which need not be there).
\<close>

datatype 'p expr =
    Prim 'p
  | Not "'p expr"
  | And "'p expr" "'p expr"
  | Or "'p expr" "'p expr"
  | Group "'p expr"

primrec sem :: "('p \<Rightarrow> 's \<Rightarrow> bool \<times> 's) \<Rightarrow> 'p expr \<Rightarrow> 's \<Rightarrow> bool \<times> 's" where
  "sem f (Prim p) s = f p s"
| "sem f (Not e) s = (let (b, s') = sem f e s in (\<not> b, s'))"
| "sem f (And a b) s = (let (r, s') = sem f a s in if r then sem f b s' else (False, s'))"
| "sem f (Or a b) s = (let (r, s') = sem f a s in if r then (True, s') else sem f b s')"
| "sem f (Group e) s = sem f e s"

definition paren :: "'p node list \<Rightarrow> 'p node list" where
  "paren ts = N_OPENPAREN # ts @ [N_CLOSEPAREN]"

primrec toks :: "nat \<Rightarrow> 'p expr \<Rightarrow> 'p node list" where
  "toks l (Prim p) = [N_PRIM p]"
| "toks l (Not e) = c_not # toks 2 e"
| "toks l (And a b) = (let ts = toks 1 a @ toks 1 b in if l \<le> 1 then ts else paren ts)"
| "toks l (Or a b) = (let ts = toks 0 a @ c_or # toks 0 b in if l = 0 then ts else paren ts)"
| "toks l (Group e) = paren (toks 0 e)"

subsection \<open>After \<open>paren_squish\<close>\<close>

primrec pexpr :: "nat \<Rightarrow> 'p expr \<Rightarrow> 'p node list" where
  "pexpr l (Prim p) = [N_PRIM p]"
| "pexpr l (Not e) = c_not # pexpr 2 e"
| "pexpr l (And a b) = (let ts = pexpr 1 a @ pexpr 1 b in if l \<le> 1 then ts else [N_EXPR ts])"
| "pexpr l (Or a b) = (let ts = pexpr 0 a @ c_or # pexpr 0 b in if l = 0 then ts else [N_EXPR ts])"
| "pexpr l (Group e) = [N_EXPR (pexpr 0 e)]"

lemma pexpr_nonempty [simp]: "pexpr l e \<noteq> []"
  by (induction e arbitrary: l) (auto simp: Let_def)

lemma yanksub_simple:
  "yankexpr (n # rest) = Inr (Some (n, rest)) \<Longrightarrow> n \<noteq> N_CLOSEPAREN \<Longrightarrow>
     yanksub (n # rest) sub = yanksub rest (sub @ [n])"
  by (simp add: yanksub.simps)

lemma yanksub_close: "yanksub (N_CLOSEPAREN # rest) sub =
    (if sub = [] then Inl EmptyInner else Inr (Some (N_EXPR sub, rest)))"
  by (simp add: yanksub.simps)

lemma yanksub_group:
  assumes "\<And>rest sub. yanksub (ts @ rest) sub = yanksub rest (sub @ ns)" and "ns \<noteq> []"
  shows "yankexpr (paren ts @ rest) = Inr (Some (N_EXPR ns, rest))"
  using assms by (simp add: paren_def yanksub_close)

lemma yanksub_paren:
  assumes "\<And>rest sub. yanksub (ts @ rest) sub = yanksub rest (sub @ ns)" and "ns \<noteq> []"
  shows "yanksub (paren ts @ rest) sub = yanksub rest (sub @ [N_EXPR ns])"
  by (subst yanksub.simps) (simp add: yanksub_group [OF assms])

lemma yanksub_toks: "yanksub (toks l e @ rest) sub = yanksub rest (sub @ pexpr l e)"
proof (induction e arbitrary: l rest sub)
  case (And a b)
  have "yanksub ((toks 1 a @ toks 1 b) @ rest) sub = yanksub rest (sub @ pexpr 1 a @ pexpr 1 b)"
    for rest sub by (simp add: And.IH)
  then show ?case by (auto simp: Let_def yanksub_paren)
next
  case (Or a b)
  have "yanksub ((toks 0 a @ c_or # toks 0 b) @ rest) sub =
      yanksub rest (sub @ pexpr 0 a @ c_or # pexpr 0 b)"
    for rest sub by (simp add: Or.IH yanksub_simple c_or_def)
  then show ?case by (auto simp: Let_def yanksub_paren)
qed (simp_all add: yanksub_simple yanksub_paren c_not_def)

lemma paren_squish_Nil [simp]: "paren_squish [] = Inr []"
  by (subst paren_squish.simps) simp

lemma paren_squish_yank:
  "yankexpr (ts @ rest) = Inr (Some (n, rest)) \<Longrightarrow> n \<noteq> N_CLOSEPAREN \<Longrightarrow>
     paren_squish (ts @ rest) = rmap ((#) n) (paren_squish rest)"
  by (subst paren_squish.simps) simp

lemma paren_squish_simple:
  "yankexpr (n # rest) = Inr (Some (n, rest)) \<Longrightarrow> n \<noteq> N_CLOSEPAREN \<Longrightarrow>
     paren_squish (n # rest) = rmap ((#) n) (paren_squish rest)"
  using paren_squish_yank [of "[n]"] by simp

text \<open>Prefixing a successful result.\<close>

definition prefixed :: "'a list \<Rightarrow> 'e + 'a list \<Rightarrow> 'e + 'a list" where
  "prefixed xs r = rmap ((@) xs) r"

lemma prefixed_simps [simp]:
  "prefixed xs (Inr ys) = Inr (xs @ ys)" "prefixed xs (Inl e) = Inl e"
  "prefixed xs (prefixed ys r) = prefixed (xs @ ys) r"
  by (cases r; simp add: prefixed_def)+

lemma rmap_Cons: "rmap ((#) x) r = prefixed [x] r"
  by (cases r) simp_all

lemma paren_squish_toks:
  "paren_squish (toks l e @ rest) = prefixed (pexpr l e) (paren_squish rest)"
proof (induction e arbitrary: l rest)
  case (And a b)
  have "yankexpr (paren (toks 1 a @ toks 1 b) @ rest) =
      Inr (Some (N_EXPR (pexpr 1 a @ pexpr 1 b), rest))"
    by (rule yanksub_group) (simp_all add: yanksub_toks)
  note paren_squish_yank [OF this]
  then show ?case by (simp add: Let_def And.IH rmap_Cons)
next
  case (Or a b)
  have "yankexpr (paren (toks 0 a @ c_or # toks 0 b) @ rest) =
      Inr (Some (N_EXPR (pexpr 0 a @ c_or # pexpr 0 b), rest))"
    by (rule yanksub_group) (simp_all add: yanksub_toks yanksub_simple c_or_def)
  note paren_squish_yank [OF this]
  then show ?case
    by (simp add: Let_def Or.IH paren_squish_simple c_or_def rmap_Cons)
next
  case (Group e)
  have "yankexpr (paren (toks 0 e) @ rest) = Inr (Some (N_EXPR (pexpr 0 e), rest))"
    by (rule yanksub_group) (simp_all add: yanksub_toks)
  from paren_squish_yank [OF this] show ?case by (simp add: rmap_Cons)
qed (simp_all add: paren_squish_simple c_not_def rmap_Cons)

subsection \<open>After \<open>not_squish\<close>\<close>

text \<open>Nots cancel in pairs: \<open>flip\<close> adds one to an operand.\<close>

fun flip :: "'p node list \<Rightarrow> 'p node list" where
  "flip [N_NOT ns] = ns"
| "flip ns = [N_NOT ns]"

primrec nexpr :: "nat \<Rightarrow> 'p expr \<Rightarrow> 'p node list" where
  "nexpr l (Prim p) = [N_PRIM p]"
| "nexpr l (Not e) = flip (nexpr 2 e)"
| "nexpr l (And a b) = (let ts = nexpr 1 a @ nexpr 1 b in if l \<le> 1 then ts else [N_EXPR ts])"
| "nexpr l (Or a b) = (let ts = nexpr 0 a @ c_or # nexpr 0 b in if l = 0 then ts else [N_EXPR ts])"
| "nexpr l (Group e) = [N_EXPR (nexpr 0 e)]"

fun nots :: "'p expr \<Rightarrow> nat" where
  "nots (Not e) = Suc (nots e)"
| "nots _ = 0"

fun core :: "'p expr \<Rightarrow> 'p expr" where
  "core (Not e) = core e"
| "core e = e"

lemma pexpr_core: "\<exists>n. pexpr 2 (core e) = [n] \<and> (\<forall>d. n \<noteq> N_NOT d) \<and> (\<forall>d d'. n \<noteq> N_OR d d')"
  by (induction e) auto

lemma nexpr_core: "\<exists>n. nexpr 2 (core e) = [n] \<and> (\<forall>d. n \<noteq> N_NOT d)"
  by (induction e) auto

lemma pexpr_nots: "pexpr 2 e = replicate (nots e) c_not @ pexpr 2 (core e)"
  by (induction e) auto

lemma nexpr_nots:
  "nexpr 2 e = (if odd (nots e) then [N_NOT (nexpr 2 (core e))] else nexpr 2 (core e))"
proof (induction e)
  case (Not e)
  obtain n where n: "nexpr 2 (core e) = [n]" "\<forall>d. n \<noteq> N_NOT d"
    using nexpr_core by blast
  then have "flip [n] = [N_NOT [n]]" by (cases n) auto
  with n Not show ?case by simp
qed simp_all

lemma skip_nots_replicate:
  "\<forall>d. n \<noteq> N_NOT d \<Longrightarrow> skip_nots l (replicate k c_not @ n # rest) = (l + k, n # rest)"
proof (induction k arbitrary: l)
  case 0
  then show ?case by (cases n) auto
qed (simp add: c_not_def)

lemma not_squish_Not:
  assumes core: "\<And>rest. not_squish (pexpr 2 (core e) @ rest) =
      prefixed (nexpr 2 (core e)) (not_squish rest)"
  shows "not_squish (c_not # pexpr 2 e @ rest) = prefixed (flip (nexpr 2 e)) (not_squish rest)"
proof -
  obtain n where n: "pexpr 2 (core e) = [n]" "\<forall>d. n \<noteq> N_NOT d" "\<forall>d d'. n \<noteq> N_OR d d'"
    using pexpr_core by blast
  obtain m where m: "nexpr 2 (core e) = [m]" "\<forall>d. m \<noteq> N_NOT d"
    using nexpr_core by blast
  have sq: "not_squish [n] = Inr [m]"
    using core [of "[]"] n m by simp
  have nd: "(case n of N_EXPR _ \<Rightarrow> not_squish [n] | _ \<Rightarrow> Inr [n]) = Inr [m]"
    using sq n by (cases n) auto
  have fl: "flip [m] = [N_NOT [m]]"
    using m by (cases m) auto
  have "not_squish (c_not # pexpr 2 e @ rest) =
      rmap ((#) (if even (Suc (nots e)) then m else N_NOT [m])) (not_squish rest)"
    using n nd by (cases n) (auto simp: c_not_def pexpr_nots [of e, unfolded c_not_def] skip_nots_replicate [unfolded c_not_def]
        even_iff_mod_2_eq_zero)
  then show ?thesis
    using nexpr_nots [of e] m fl by (auto simp: rmap_Cons)
qed

lemma not_squish_pexpr:
  "not_squish (pexpr l e @ rest) = prefixed (nexpr l e) (not_squish rest)"
proof (induction "size e" arbitrary: e l rest rule: less_induct)
  case less
  show ?case
  proof (cases e)
    case (Not e')
    have "size (core e') \<le> size e'" by (induction e') auto
    then have "not_squish (pexpr 2 (core e') @ rest) =
        prefixed (nexpr 2 (core e')) (not_squish rest)" for rest
      using less Not by simp
    from not_squish_Not [OF this] Not show ?thesis by simp
  next
    case (And a b)
    then have "not_squish (pexpr 1 a @ pexpr 1 b @ rest) =
        prefixed (nexpr 1 a @ nexpr 1 b) (not_squish rest)" for rest
      using less by (simp add: rmap_Cons)
    note this [of rest] this [of "[]"]
    with And show ?thesis by (simp add: Let_def rmap_Cons)
  next
    case (Or a b)
    then have "not_squish (pexpr 0 a @ c_or # pexpr 0 b @ rest) =
        prefixed (nexpr 0 a @ c_or # nexpr 0 b) (not_squish rest)" for rest
      using less by (simp add: rmap_Cons c_or_def)
    note this [of rest] this [of "[]"]
    with Or show ?thesis by (simp add: Let_def rmap_Cons)
  next
    case (Group e')
    with less.hyps [of e' 0 "[]"] have "not_squish (pexpr 0 e') = Inr (nexpr 0 e')"
      by simp
    with Group show ?thesis by (simp add: rmap_Cons)
  qed (simp add: rmap_Cons)
qed

subsection \<open>After \<open>or_squish\<close>\<close>

text \<open>
  \<open>means f r g\<close>: the squished plan \<open>r\<close> exists, is not empty and answers as \<open>g\<close>.
  \<open>runs f ns g\<close>: a piece of a plan that goes on to the next node where \<open>g\<close> holds.
\<close>

definition means :: "('p \<Rightarrow> 's \<Rightarrow> bool \<times> 's) \<Rightarrow> plan_error + 'p node list \<Rightarrow> ('s \<Rightarrow> bool \<times> 's) \<Rightarrow> bool" where
  "means f r g \<longleftrightarrow> (\<exists>ns. r = Inr ns \<and> ns \<noteq> [] \<and> (\<forall>s st. eval_seq f st ns s = Some (g s)))"

definition runs :: "('p \<Rightarrow> 's \<Rightarrow> bool \<times> 's) \<Rightarrow> 'p node list \<Rightarrow> ('s \<Rightarrow> bool \<times> 's) \<Rightarrow> bool" where
  "runs f ns g \<longleftrightarrow> ns \<noteq> [] \<and> (\<forall>tail s st. eval_seq f st (ns @ tail) s =
      (let (r, s') = g s in if r then eval_seq f True tail s' else Some (False, s')))"

definition steps_to :: "('p \<Rightarrow> 's \<Rightarrow> bool \<times> 's) \<Rightarrow> 'p node list \<Rightarrow> ('s \<Rightarrow> bool \<times> 's) \<Rightarrow> bool" where
  "steps_to f ns g \<longleftrightarrow> (\<exists>os. runs f os g \<and> (\<forall>res rest. or_go res (ns @ rest) = or_go (res @ os) rest))"

lemma runs_seq: "runs f ns g \<Longrightarrow> eval_seq f st ns s = Some (g s)"
  unfolding runs_def
  by (drule conjunct2, drule spec [of _ "[]"]) (auto simp: Let_def split: prod.splits)

lemma runs_single:
  "(\<And>s. eval_node f n s = Some (g s)) \<Longrightarrow> runs f [n] g"
  by (auto simp: runs_def Let_def split: prod.splits)

lemma steps_to_means: "steps_to f ns g \<Longrightarrow> means f (or_go [] ns) g"
proof -
  assume "steps_to f ns g"
  then obtain os where os: "runs f os g" "\<And>res rest. or_go res (ns @ rest) = or_go (res @ os) rest"
    by (auto simp: steps_to_def)
  have "or_go [] ns = Inr os" using os(2) [of "[]" "[]"] by simp
  moreover have "os \<noteq> []" using os(1) by (simp add: runs_def)
  ultimately show ?thesis by (simp add: means_def runs_seq [OF os(1)])
qed

lemma steps_to_or:
  assumes "steps_to f ns g" and "means f (or_go [] rest) h"
  shows "means f (or_go [] (ns @ c_or # rest))
    (\<lambda>s. let (r, s') = g s in if r then (True, s') else h s')"
proof -
  from assms(1) obtain os where os: "runs f os g"
    "\<And>res rest. or_go res (ns @ rest) = or_go (res @ os) rest"
    by (auto simp: steps_to_def)
  from assms(2) obtain r where r: "or_go [] rest = Inr r" "r \<noteq> []"
    "\<And>s st. eval_seq f st r s = Some (h s)"
    by (auto simp: means_def)
  from os(1) have ne: "os \<noteq> []" by (simp add: runs_def)
  have "or_go [] (ns @ c_or # rest) = Inr [N_OR os r]"
    using ne r os(2) by (simp add: c_or_def)
  then show ?thesis
    using runs_seq [OF os(1)] r(3) by (auto simp: means_def Let_def split: prod.splits)
qed

lemma steps_to_append:
  assumes "steps_to f ns g" and "steps_to f ms h"
  shows "steps_to f (ns @ ms) (\<lambda>s. let (r, s') = g s in if r then h s' else (False, s'))"
proof -
  from assms obtain os ps where
    "runs f os g" "\<And>res rest. or_go res (ns @ rest) = or_go (res @ os) rest"
    "runs f ps h" "\<And>res rest. or_go res (ms @ rest) = or_go (res @ ps) rest"
    by (auto simp: steps_to_def)
  then show ?thesis
    unfolding steps_to_def
    by (intro exI [of _ "os @ ps"]) (auto simp: runs_def Let_def split: prod.splits)
qed

lemma steps_to_expr: "means f (or_go [] ns) g \<Longrightarrow> steps_to f [N_EXPR ns] g"
  unfolding steps_to_def means_def
  by (elim exE conjE, rename_tac os, rule_tac x = "[N_EXPR os]" in exI) (auto intro!: runs_single)

lemma steps_to_not:
  "means f (or_go [] ns) g \<Longrightarrow> steps_to f [N_NOT ns] (\<lambda>s. let (b, s') = g s in (\<not> b, s'))"
  unfolding steps_to_def means_def
  by (elim exE conjE, rename_tac os, rule_tac x = "[N_NOT os]" in exI)
    (auto simp: Let_def split: prod.splits intro!: runs_single)

text \<open>
  The three statements of the induction: an operand (level 2) and a juxtaposition (level 1)
  run as the expression does, and so does a whole expression, also before a further \<open>-o\<close>.
\<close>

definition or_ok :: "('p \<Rightarrow> 's \<Rightarrow> bool \<times> 's) \<Rightarrow> 'p expr \<Rightarrow> bool" where
  "or_ok f e \<longleftrightarrow> means f (or_go [] (nexpr 0 e)) (sem f e) \<and>
     (\<forall>rest h. means f (or_go [] rest) h \<longrightarrow>
        means f (or_go [] (nexpr 0 e @ c_or # rest))
          (\<lambda>s. let (r, s') = sem f e s in if r then (True, s') else h s'))"

lemma or_okI:
  assumes "steps_to f (nexpr 0 e) (sem f e)"
  shows "or_ok f e"
  using steps_to_means [OF assms] steps_to_or [OF assms] by (simp add: or_ok_def)

lemma nexpr_levels: "(\<forall>a b. e \<noteq> Or a b) \<Longrightarrow> nexpr 0 e = nexpr 1 e"
  "(\<forall>a b. e \<noteq> Or a b) \<Longrightarrow> (\<forall>a b. e \<noteq> And a b) \<Longrightarrow> nexpr 1 e = nexpr 2 e"
  by (cases e; simp)+

lemma or_ok_Or:
  assumes "or_ok f a" and "or_ok f b"
  shows "or_ok f (Or a b)"
proof -
  have sem_Or: "sem f (Or a b) = (\<lambda>s. let (r, s') = sem f a s in if r then (True, s') else sem f b s')"
    by (rule ext) simp
  have "means f (or_go [] (nexpr 0 a @ c_or # nexpr 0 b)) (sem f (Or a b))"
    using assms unfolding sem_Or or_ok_def by blast
  moreover have "means f (or_go [] ((nexpr 0 a @ c_or # nexpr 0 b) @ c_or # rest))
      (\<lambda>s. let (r, s') = sem f (Or a b) s in if r then (True, s') else h s')"
    if "means f (or_go [] rest) h" for rest h
  proof -
    have "means f (or_go [] (nexpr 0 b @ c_or # rest))
        (\<lambda>s. let (r, s') = sem f b s in if r then (True, s') else h s')"
      using assms(2) that by (simp add: or_ok_def)
    with assms(1) have "means f (or_go [] (nexpr 0 a @ c_or # nexpr 0 b @ c_or # rest))
        (\<lambda>s. let (r, s') = sem f a s in if r then (True, s')
              else let (r, s') = sem f b s' in if r then (True, s') else h s')"
      by (simp add: or_ok_def)
    moreover have "(\<lambda>s. let (r, s') = sem f a s in if r then (True, s')
              else let (r, s') = sem f b s' in if r then (True, s') else h s') =
        (\<lambda>s. let (r, s') = sem f (Or a b) s in if r then (True, s') else h s')"
      by (auto simp: Let_def split: prod.splits)
    ultimately show ?thesis by simp
  qed
  ultimately show ?thesis by (simp add: or_ok_def Let_def)
qed

lemma sem_core: "sem f e s = (let (b, s') = sem f (core e) s in (if odd (nots e) then \<not> b else b, s'))"
  by (induction e arbitrary: s) (auto simp: Let_def split: prod.splits)

lemma steps_to_cong: "steps_to f ns g \<Longrightarrow> (\<And>s. g s = h s) \<Longrightarrow> steps_to f ns h"
  by (metis ext)

lemma steps_to_nexpr:
  "(l = 0 \<longrightarrow> (\<forall>a b. e \<noteq> Or a b)) \<Longrightarrow> steps_to f (nexpr l e) (sem f e)" and or_ok_expr: "or_ok f e"
proof (induction "size e" arbitrary: e l rule: less_induct)
  case less
  have group: "steps_to f [N_EXPR (nexpr 0 e')] (sem f e')" if "or_ok f e'" for e'
    using that by (auto simp: or_ok_def intro: steps_to_expr)
  have st: "steps_to f (nexpr l e) (sem f e)" if "l = 0 \<longrightarrow> (\<forall>a b. e \<noteq> Or a b)" for l
  proof (cases e)
    case (Prim p)
    then show ?thesis
      unfolding steps_to_def by (intro exI [of _ "[N_PRIM p]"]) (auto intro: runs_single)
  next
    case (Not e')
    have sz: "size (core e') < size e" unfolding Not by (induction e') auto
    then have c: "steps_to f (nexpr 2 (core e')) (sem f (core e'))"
      using less.hyps(1) [of "core e'" 2] by simp
    have n: "nexpr l e = (if even (nots e') then [N_NOT (nexpr 2 (core e'))] else nexpr 2 (core e'))"
      using nexpr_nots [of "Not e'"] Not by simp
    show ?thesis
    proof (cases "even (nots e')")
      case True
      from steps_to_not [OF steps_to_means [OF c]]
      have "steps_to f [N_NOT (nexpr 2 (core e'))] (sem f e)"
        by (rule steps_to_cong) (use True Not sem_core [of f e'] in \<open>auto split: prod.splits\<close>)
      with True n show ?thesis by simp
    next
      case False
      from c have "steps_to f (nexpr 2 (core e')) (sem f e)"
        by (rule steps_to_cong) (use False Not sem_core [of f e'] in \<open>auto split: prod.splits\<close>)
      with False n show ?thesis by simp
    qed
  next
    case (And a b)
    then have "steps_to f (nexpr 1 a @ nexpr 1 b)
        (\<lambda>s. let (r, s') = sem f a s in if r then sem f b s' else (False, s'))"
      using less.hyps(1) by (intro steps_to_append) simp_all
    then have "steps_to f (nexpr 1 a @ nexpr 1 b) (sem f e)"
      unfolding And by (rule steps_to_cong) simp
    then show ?thesis
      using And steps_to_expr [OF steps_to_means] by (auto simp: Let_def)
  next
    case (Or a b)
    with less.hyps(2) have "or_ok f e" by (simp add: or_ok_Or)
    from group [OF this] Or that show ?thesis by simp
  next
    case (Group e')
    with less.hyps(2) [of e'] group [of e'] have "steps_to f (nexpr l e) (sem f e')" by simp
    then show ?thesis unfolding Group by (rule steps_to_cong) simp
  qed
  {
    case 1
    then show ?case by (rule st)
  next
    case 2
    show ?case
  proof (cases "\<exists>a b. e = Or a b")
    case True
    with less.hyps(2) show ?thesis by (auto simp: or_ok_Or)
  next
    case False
    then show ?thesis by (auto intro!: or_okI st)
  qed
  }
qed

section \<open>The plan answers as the expression\<close>

lemma run_planI: "eval_seq f True plan s = Some r \<Longrightarrow> run_plan f plan s = Some (snd r)"
  by (simp add: run_plan_def)

lemma formplan_toks: "means f (find_formplan print True (toks 0 e)) (sem f e)"
proof -
  have "find_formplan print True (toks 0 e) = or_go [] (nexpr 0 e)"
    using paren_squish_toks [of 0 e "[]"] not_squish_pexpr [of 0 e "[]"]
    by (simp add: find_formplan_def or_squish_def)
  then show ?thesis using or_ok_expr [of f e] by (simp add: or_ok_def)
qed


lemma toks_nonempty: "toks l e \<noteq> []"
  by (induction e arbitrary: l) (auto simp: Let_def paren_def)

text \<open>
  C24: Without an output action the plan prints a file exactly when the whole expression holds
  of it, whatever operators it has at the top level: the bracketing of \<open>find_formplan\<close> keeps
  the appended \<open>-print\<close> from binding to the last alternative only.
\<close>

theorem find_plan_default_print:
  "\<exists>plan. find_formplan print False (toks 0 e) = Inr plan \<and>
     (\<forall>s. run_plan f plan s =
        Some (let (r, s') = sem f e s in if r then snd (f print s') else s'))"
proof -
  have "find_formplan print False (toks 0 e) =
      find_formplan print True (toks 0 (And (Group e) (Prim print)))"
    by (simp add: find_formplan_def toks_nonempty paren_def Let_def)
  then have "means f (find_formplan print False (toks 0 e)) (sem f (And (Group e) (Prim print)))"
    using formplan_toks [of f print "And (Group e) (Prim print)"] by simp
  then show ?thesis
    by (auto simp: means_def Let_def run_planI split: prod.splits)
qed

section \<open>No parenthesis node survives\<close>

text \<open>A node with no parenthesis marker in it, at any depth.\<close>

primrec no_paren :: "'p node \<Rightarrow> bool" where
  "no_paren N_OPENPAREN = False"
| "no_paren N_CLOSEPAREN = False"
| "no_paren (N_NOT d) = list_all (\<lambda>b. b) (map no_paren d)"
| "no_paren (N_OR d0 d1) = (list_all (\<lambda>b. b) (map no_paren d0) \<and> list_all (\<lambda>b. b) (map no_paren d1))"
| "no_paren (N_EXPR d) = list_all (\<lambda>b. b) (map no_paren d)"
| "no_paren (N_PRIM p) = True"

text \<open>What \<open>find_create\<close> returns: an operator without subplans, or a primary.\<close>

fun fresh :: "'p node \<Rightarrow> bool" where
  "fresh (N_NOT d) = (d = [])"
| "fresh (N_OR d0 d1) = (d0 = [] \<and> d1 = [])"
| "fresh (N_EXPR d) = False"
| "fresh _ = True"

lemma all_no_paren [simp]: "list_all (\<lambda>b. b) (map no_paren d) = list_all no_paren d"
  by (induction d) auto

lemma fresh_no_paren: "fresh n \<Longrightarrow> n \<noteq> N_OPENPAREN \<Longrightarrow> n \<noteq> N_CLOSEPAREN \<Longrightarrow> no_paren n"
  by (cases n) auto

lemma yank_no_paren:
  fixes plan plan' :: "'p node list"
  shows
  "yankexpr plan = Inr (Some (n, rest)) \<Longrightarrow> list_all fresh plan \<Longrightarrow>
     list_all fresh rest \<and> (n = N_CLOSEPAREN \<or> no_paren n)" and
  "yanksub plan' sub = Inr (Some (n', rest')) \<Longrightarrow> list_all fresh plan' \<Longrightarrow>
     list_all no_paren sub \<Longrightarrow> list_all fresh rest' \<and> no_paren n'"
proof (induction plan and plan' sub arbitrary: n rest and n' rest'
    rule: yankexpr_yanksub.induct)
  case (4 plan subplan)
  from "4.prems" obtain nxt plan2 where y: "yankexpr plan = Inr (Some (nxt, plan2))"
    by (auto simp: yanksub.simps [of plan] split: sum.splits option.splits)
  note n = "4.IH"(1) [OF y "4.prems"(2)]
  show ?case
  proof (cases "is_close nxt")
    case True
    with "4.prems" y n show ?thesis
      by (auto simp: yanksub.simps [of plan] split: if_splits)
  next
    case False
    with "4.prems" y have "yanksub plan2 (subplan @ [nxt]) = Inr (Some (n', rest'))"
      by (auto simp: yanksub.simps [of plan])
    with "4.IH"(2) [OF y refl refl False this] n "4.prems"(3) False show ?thesis
      by simp
  qed
qed (auto dest: fresh_no_paren)

lemma paren_squish_no_paren:
  "paren_squish plan = Inr p \<Longrightarrow> list_all fresh plan \<Longrightarrow> list_all no_paren p"
proof (induction plan arbitrary: p rule: paren_squish.induct)
  case (1 plan)
  show ?case
  proof (cases "\<exists>n rest. yankexpr plan = Inr (Some (n, rest)) \<and> \<not> is_close n")
    case True
    then obtain n rest where y: "yankexpr plan = Inr (Some (n, rest))" "\<not> is_close n" by blast
    with "1.prems"(1) obtain q where q: "paren_squish rest = Inr q" "p = n # q"
      by (auto simp: paren_squish.simps [of plan] result_simps)
    with "1.IH" [OF y(1) refl refl y(2) q(1)] yank_no_paren(1) [OF y(1) "1.prems"(2)] y(2)
    show ?thesis by simp
  next
    case False
    with "1.prems"(1) show ?thesis
      by (auto simp: paren_squish.simps [of plan] split: sum.splits option.splits if_splits)
  qed
qed

lemma skip_nots_no_paren:
  "list_all no_paren plan \<Longrightarrow> list_all no_paren (snd (skip_nots k plan))"
  by (induction k plan rule: skip_nots.induct) auto

lemma not_squish_nonempty: "not_squish (n # plan) = Inr p \<Longrightarrow> p \<noteq> []"
  by (cases n) (auto simp: result_simps split: prod.splits list.splits node.splits)

lemma not_squish_no_paren:
  "not_squish plan = Inr p \<Longrightarrow> list_all no_paren plan \<Longrightarrow> list_all no_paren p"
proof (induction "size_list size plan" arbitrary: plan p rule: less_induct)
  case less
  show ?case
  proof (cases plan)
    case (Cons nxt tl)
    show ?thesis
    proof (cases "\<exists>d. nxt = N_NOT d")
      case True
      with Cons less.prems(1) obtain k node rest where sk: "skip_nots 1 tl = (k, node # rest)"
        by (auto split: prod.splits list.splits)
      have np: "no_paren node" "list_all no_paren rest"
        using skip_nots_no_paren [of tl 1] sk less.prems(2) Cons by auto
      have sz: "size_list size [node] < size_list size plan" "size_list size rest < size_list size plan"
        using skip_nots_node_size [OF sk] Cons by auto
      from less.prems(1) Cons True sk obtain ns q where nq:
        "(case node of N_EXPR _ \<Rightarrow> not_squish [node] | _ \<Rightarrow> Inr [node]) = Inr ns"
        "not_squish rest = Inr q" "p = (if k mod 2 \<noteq> 1 then hd ns else N_NOT ns) # q"
        by (auto simp: result_simps split: node.splits)
      have "not_squish [node] = Inr ns \<or> ns = [node]"
        using nq(1) by (cases node) (simp_all del: not_squish.simps)
      note nq = this nq(2,3)
      have "list_all no_paren ns \<and> ns \<noteq> []"
        using nq(1) np(1) less.hyps [OF sz(1)] not_squish_nonempty [of node "[]"] by auto
      with nq(3) less.hyps [OF sz(2) nq(2) np(2)] show ?thesis by (cases ns) auto
    next
      case False
      have sub: "list_all no_paren d'" if "nxt = N_EXPR d" "not_squish d = Inr d'" for d d'
        using less.hyps [OF _ that(2)] less.prems(2) Cons that(1) by auto
      from False Cons less.prems less.hyps [of tl] show ?thesis
        by (cases nxt) (auto simp: result_simps intro: sub)
    qed
  qed (use less.prems in simp)
qed

lemma or_go_no_paren:
  "or_go res plan = Inr p \<Longrightarrow> list_all no_paren res \<Longrightarrow> list_all no_paren plan \<Longrightarrow> list_all no_paren p"
  by (induction res plan arbitrary: p rule: or_go.induct)
    (auto simp: result_simps split: if_splits)

lemma eval_no_paren:
  "no_paren n \<Longrightarrow> eval_node f n s \<noteq> None"
  "list_all no_paren ns \<Longrightarrow> eval_seq f st ns s \<noteq> None"
  by (induction f n s and f st ns s rule: eval_node_eval_seq.induct)
    (auto split: option.splits prod.splits if_splits)

text \<open>
  C25: Whatever the order of the arguments, balanced or not, a plan that \<open>find_formplan\<close>
  returns holds no parenthesis marker, so evaluating it never calls through the pointer \<open>-1\<close>
  that \<open>c_openparen\<close> and \<open>c_closeparen\<close> store: the evaluation of every file gives a value.
\<close>

theorem find_plan_no_paren:
  assumes "list_all fresh args" and "find_formplan print isoutput args = Inr plan"
  shows "list_all no_paren plan \<and> (\<exists>s'. run_plan f plan s = Some s')"
proof -
  define plan1 where "plan1 = (if isoutput then args else if args = [] then [N_PRIM print]
    else N_OPENPAREN # args @ [N_CLOSEPAREN, N_PRIM print])"
  have "list_all fresh plan1" using assms(1) by (simp add: plan1_def)
  moreover obtain p q where "paren_squish plan1 = Inr p" "not_squish p = Inr q" "or_go [] q = Inr plan"
    using assms(2) by (auto simp: find_formplan_def plan1_def or_squish_def result_simps)
  ultimately have np: "list_all no_paren plan"
    by (auto dest!: paren_squish_no_paren not_squish_no_paren intro: or_go_no_paren)
  with eval_no_paren(2) [OF np, of f True s] show ?thesis
    by (auto simp: run_plan_def)
qed

theorem find_plan_no_paren_witness:
  "\<exists>plan. find_formplan (0 :: nat) True [N_OPENPAREN, N_PRIM 1, N_CLOSEPAREN, c_not, N_PRIM 2] = Inr plan \<and>
     list_all no_paren plan \<and> (\<exists>s'. run_plan (\<lambda>p s. (p = 1, s + p)) plan 0 = Some s')"
proof -
  let ?args = "[N_OPENPAREN, N_PRIM 1, N_CLOSEPAREN, c_not, N_PRIM (2 :: nat)]"
  have "find_formplan 0 True ?args = Inr [N_EXPR [N_PRIM 1], N_NOT [N_PRIM 2]]"
    by (simp add: find_formplan_def c_not_def or_squish_def paren_squish.simps yankexpr.simps
      yanksub.simps not_squish.simps or_go.simps)
  then show ?thesis
    using find_plan_no_paren [of ?args 0 True _ "\<lambda>p s. (p = 1, s + p)" 0]
    by (auto simp: c_not_def)
qed

end
