(* ===== verification/SetMode.thy ===== *)
theory SetMode
  imports Prelude
begin

text \<open>
  \<open>setmode\<close>/\<open>getmode\<close> of \<open>Library/setmode.c\<close>: a mode specification as \<open>chmod\<close> and
  \<open>mkdir -m\<close> take it is compiled into an array of bit commands, compressed, and applied to a
  file's mode. The array is the list of its entries before the terminating zero entry; its
  allocated length is kept beside it, and a write past it is the error \<open>Overrun\<close>.
  Allocation is taken to succeed.
\<close>

section \<open>Modes\<close>

type_synonym mode = "32 word"

abbreviation S_ISUID :: mode where "S_ISUID \<equiv> 0x800"
abbreviation S_ISGID :: mode where "S_ISGID \<equiv> 0x400"
abbreviation S_ISVTX :: mode where "S_ISVTX \<equiv> 0x200"
abbreviation S_IRWXU :: mode where "S_IRWXU \<equiv> 0x1C0"
abbreviation S_IRWXG :: mode where "S_IRWXG \<equiv> 0x38"
abbreviation S_IRWXO :: mode where "S_IRWXO \<equiv> 0x7"
abbreviation S_IRUSR :: mode where "S_IRUSR \<equiv> 0x100"
abbreviation S_IRGRP :: mode where "S_IRGRP \<equiv> 0x20"
abbreviation S_IROTH :: mode where "S_IROTH \<equiv> 0x4"
abbreviation S_IFDIR :: mode where "S_IFDIR \<equiv> 0x4000"

text \<open>The three read, write and execute bits: \<open>S_IRUSR|S_IRGRP|S_IROTH\<close> and so on.\<close>

abbreviation R_ALL :: mode where "R_ALL \<equiv> 0x124"
abbreviation W_ALL :: mode where "W_ALL \<equiv> 0x92"
abbreviation X_ALL :: mode where "X_ALL \<equiv> 0x49"

definition STANDARD_BITS :: mode where
  "STANDARD_BITS = S_ISUID OR S_ISGID OR S_IRWXU OR S_IRWXG OR S_IRWXO"

section \<open>Bit commands\<close>

text \<open>
  \<open>addcmd\<close> leaves \<open>cmd2\<close> of a \<open>+\<close>, \<open>-\<close> or \<open>X\<close> entry uninitialised; here it is 0, and
  \<open>getmode\<close> does not read it.
\<close>

record bitcmd =
  cmd :: char
  cmd2 :: "8 word"
  bits :: mode

abbreviation CMD2_CLR :: "8 word" where "CMD2_CLR \<equiv> 0x01"
abbreviation CMD2_SET :: "8 word" where "CMD2_SET \<equiv> 0x02"
abbreviation CMD2_GBITS :: "8 word" where "CMD2_GBITS \<equiv> 0x04"
abbreviation CMD2_OBITS :: "8 word" where "CMD2_OBITS \<equiv> 0x08"
abbreviation CMD2_UBITS :: "8 word" where "CMD2_UBITS \<equiv> 0x10"

datatype mode_error = EINVAL | ERANGE | Overrun

section \<open>Applying the commands\<close>

text \<open>The code at the label \<open>common\<close>: copy \<open>value\<close>, three permission bits, about.\<close>

definition copy_bits :: "bitcmd \<Rightarrow> mode \<Rightarrow> mode \<Rightarrow> mode" where
  "copy_bits c value newmode =
     (let clrval = (if cmd2 c AND CMD2_SET \<noteq> 0 then S_IRWXO else value);
          m1 = (if cmd2 c AND CMD2_CLR \<noteq> 0 \<and> cmd2 c AND CMD2_UBITS \<noteq> 0
                then newmode AND NOT (push_bit 6 clrval AND bits c) else newmode);
          m2 = (if cmd2 c AND CMD2_CLR \<noteq> 0 \<and> cmd2 c AND CMD2_GBITS \<noteq> 0
                then m1 AND NOT (push_bit 3 clrval AND bits c) else m1);
          m3 = (if cmd2 c AND CMD2_CLR \<noteq> 0 \<and> cmd2 c AND CMD2_OBITS \<noteq> 0
                then m2 AND NOT (clrval AND bits c) else m2);
          m4 = (if cmd2 c AND CMD2_SET \<noteq> 0 \<and> cmd2 c AND CMD2_UBITS \<noteq> 0
                then m3 OR (push_bit 6 value AND bits c) else m3);
          m5 = (if cmd2 c AND CMD2_SET \<noteq> 0 \<and> cmd2 c AND CMD2_GBITS \<noteq> 0
                then m4 OR (push_bit 3 value AND bits c) else m4)
      in if cmd2 c AND CMD2_SET \<noteq> 0 \<and> cmd2 c AND CMD2_OBITS \<noteq> 0
         then m5 OR (value AND bits c) else m5)"

text \<open>The condition of an \<open>X\<close> command, on the original mode.\<close>

definition xcond :: "mode \<Rightarrow> bool" where
  "xcond omode \<longleftrightarrow> omode AND (S_IFDIR OR X_ALL) \<noteq> 0"

text \<open>One command on \<open>newmode\<close>; \<open>None\<close> is the return of the default case.\<close>

definition getmode_step :: "mode \<Rightarrow> bitcmd \<Rightarrow> mode \<Rightarrow> mode option" where
  "getmode_step omode c newmode =
     (if cmd c = CHR ''u'' then Some (copy_bits c (drop_bit 6 (newmode AND S_IRWXU)) newmode)
      else if cmd c = CHR ''g'' then Some (copy_bits c (drop_bit 3 (newmode AND S_IRWXG)) newmode)
      else if cmd c = CHR ''o'' then Some (copy_bits c (newmode AND S_IRWXO) newmode)
      else if cmd c = CHR ''+'' then Some (newmode OR bits c)
      else if cmd c = CHR ''-'' then Some (newmode AND NOT (bits c))
      else if cmd c = CHR ''X'' then
        Some (if xcond omode then newmode OR bits c else newmode)
      else None)"

fun getmode_loop :: "mode \<Rightarrow> bitcmd list \<Rightarrow> mode \<Rightarrow> mode" where
  "getmode_loop omode [] newmode = newmode"
| "getmode_loop omode (c # cs) newmode =
     (case getmode_step omode c newmode of
        None \<Rightarrow> newmode
      | Some m \<Rightarrow> getmode_loop omode cs m)"

definition getmode :: "bitcmd list \<Rightarrow> mode \<Rightarrow> mode" where
  "getmode bbox omode = getmode_loop omode bbox omode"

section \<open>Adding a command\<close>

text \<open>The entries \<open>addcmd\<close> writes, and the cast of an operator character it is passed.\<close>

definition mode_of_char :: "char \<Rightarrow> mode" where
  "mode_of_char c = of_char c"

definition addcmd :: "char \<Rightarrow> mode \<Rightarrow> mode \<Rightarrow> mode \<Rightarrow> bitcmd list" where
  "addcmd op who oparg msk =
     (let entry = \<lambda>c b. \<lparr>cmd = c, cmd2 = 0, bits = b\<rparr>;
          plain = \<lambda>c. entry c ((if who \<noteq> 0 then who else msk) AND oparg)
      in if op = CHR ''='' then
           [entry CHR ''-'' (if who \<noteq> 0 then who else STANDARD_BITS), plain CHR ''+'']
         else if op = CHR ''+'' \<or> op = CHR ''-'' \<or> op = CHR ''X'' then [plain op]
         else if op = CHR ''u'' \<or> op = CHR ''g'' \<or> op = CHR ''o'' then
           [\<lparr>cmd = op,
             cmd2 =
               (if who \<noteq> 0
                then (if who AND S_IRUSR \<noteq> 0 then CMD2_UBITS else 0) OR
                     (if who AND S_IRGRP \<noteq> 0 then CMD2_GBITS else 0) OR
                     (if who AND S_IROTH \<noteq> 0 then CMD2_OBITS else 0)
                else CMD2_UBITS OR CMD2_GBITS OR CMD2_OBITS) OR
               (if oparg = mode_of_char CHR ''+'' then CMD2_SET
                else if oparg = mode_of_char CHR ''-'' then CMD2_CLR
                else if oparg = mode_of_char CHR ''='' then CMD2_SET OR CMD2_CLR else 0),
             bits = (if who \<noteq> 0 then NOT 0 else msk)\<rparr>]
         else [entry op 0])"

text \<open>
  The array under construction: the entries written, and \<open>setlen\<close>, how many are allocated.
  \<open>ADDCMD\<close> grows the array by \<open>SET_LEN_INCR\<close> when \<open>set\<close> has reached
  \<open>endset = saveset + (setlen - 2)\<close>, then writes; \<open>finish\<close> is \<open>set->cmd = 0\<close>.
\<close>

record builder =
  entries :: "bitcmd list"
  setlen :: nat

definition put_entries :: "builder \<Rightarrow> bitcmd list \<Rightarrow> mode_error + builder" where
  "put_entries b es =
     (if length (entries b) + length es \<le> setlen b
      then Inr (b\<lparr>entries := entries b @ es\<rparr>) else Inl Overrun)"

definition ADDCMD :: "builder \<Rightarrow> char \<Rightarrow> mode \<Rightarrow> mode \<Rightarrow> mode \<Rightarrow> mode_error + builder" where
  "ADDCMD b op who oparg msk =
     (let b' = (if length (entries b) \<ge> setlen b - 2 then b\<lparr>setlen := setlen b + 4\<rparr> else b)
      in put_entries b' (addcmd op who oparg msk))"

definition finish :: "builder \<Rightarrow> mode_error + bitcmd list" where
  "finish b = (if length (entries b) < setlen b then Inr (entries b) else Inl Overrun)"

definition new_builder :: builder where
  "new_builder = \<lparr>entries = [], setlen = 6 + 2\<rparr>"

section \<open>Compressing\<close>

text \<open>
  The inner loop of \<open>compress_mode\<close>: fold a run of \<open>+\<close>, \<open>-\<close>, \<open>X\<close> entries into the three
  masks; it stops at the first other entry.
\<close>

fun gather :: "mode \<Rightarrow> mode \<Rightarrow> mode \<Rightarrow> bitcmd list \<Rightarrow> mode \<times> mode \<times> mode \<times> bitcmd list" where
  "gather setbits clrbits Xbits [] = (setbits, clrbits, Xbits, [])"
| "gather setbits clrbits Xbits (c # cs) =
     (if cmd c = CHR ''-'' then
        gather (setbits AND NOT (bits c)) (clrbits OR bits c) (Xbits AND NOT (bits c)) cs
      else if cmd c = CHR ''+'' then
        gather (setbits OR bits c) (clrbits AND NOT (bits c)) (Xbits AND NOT (bits c)) cs
      else if cmd c = CHR ''X'' then
        gather setbits clrbits (Xbits OR (bits c AND NOT setbits)) cs
      else (setbits, clrbits, Xbits, c # cs))"

definition emit :: "mode \<Rightarrow> mode \<Rightarrow> mode \<Rightarrow> bitcmd list" where
  "emit setbits clrbits Xbits =
     (if clrbits \<noteq> 0 then [\<lparr>cmd = CHR ''-'', cmd2 = 0, bits = clrbits\<rparr>] else []) @
     (if setbits \<noteq> 0 then [\<lparr>cmd = CHR ''+'', cmd2 = 0, bits = setbits\<rparr>] else []) @
     (if Xbits \<noteq> 0 then [\<lparr>cmd = CHR ''X'', cmd2 = 0, bits = Xbits\<rparr>] else [])"

lemma gather_length: "gather s c x cs = (s', c', x', rest) \<Longrightarrow> length rest \<le> length cs"
  by (induction s c x cs rule: gather.induct) (auto split: if_splits)

lemma gather_run_length:
  "(s', c', x', rest) = gather s k x (c # cs) \<Longrightarrow>
     \<not> (cmd c \<noteq> CHR ''+'' \<and> cmd c \<noteq> CHR ''-'' \<and> cmd c \<noteq> CHR ''X'') \<Longrightarrow> length rest < length (c # cs)"
  by (auto dest!: sym [of "(_, _)"] gather_length split: if_splits)

function compress_mode :: "bitcmd list \<Rightarrow> bitcmd list" where
  "compress_mode [] = []"
| "compress_mode (c # cs) =
     (if cmd c \<noteq> CHR ''+'' \<and> cmd c \<noteq> CHR ''-'' \<and> cmd c \<noteq> CHR ''X''
      then if cmd c = NUL then [] else c # compress_mode cs
      else case gather 0 0 0 (c # cs) of
             (setbits, clrbits, Xbits, rest) \<Rightarrow> emit setbits clrbits Xbits @ compress_mode rest)"
  by pat_completeness auto
termination
  by (relation "measure length")
    (auto simp del: gather.simps length_Cons simp: in_measure dest: gather_run_length)

section \<open>Compiling a specification\<close>

subsection \<open>An absolute mode\<close>

text \<open>
  \<open>strtol(p, &ep, 8)\<close> where the first character is a digit: the octal digits' value, clamped
  to \<open>LONG_MAX\<close> with \<open>ERANGE\<close>, and what follows them.
\<close>

definition isoctal :: "char \<Rightarrow> bool" where
  "isoctal c \<longleftrightarrow> 48 \<le> code c \<and> code c \<le> 55"

definition octval :: "string \<Rightarrow> nat" where
  "octval ds = foldl (\<lambda>n c. n * 8 + (code c - 48)) 0 ds"

definition LONG_MAX :: nat where
  "LONG_MAX = 2 ^ 63 - 1"

definition strtol8 :: "string \<Rightarrow> nat \<times> bool \<times> string" where
  "strtol8 p = (let n = octval (takeWhile isoctal p)
                in (min n LONG_MAX, n > LONG_MAX, dropWhile isoctal p))"

definition absolute_mode :: "mode \<Rightarrow> string \<Rightarrow> mode_error + bitcmd list" where
  "absolute_mode msk p =
     (case strtol8 p of (lval, erange, ep) \<Rightarrow>
        if at0 ep \<noteq> NUL then Inl EINVAL
        else if erange then Inl ERANGE
        else if (word_of_nat lval :: 64 word) AND NOT (ucast (STANDARD_BITS OR S_ISVTX)) \<noteq> 0
        then Inl EINVAL
        else rbind (ADDCMD new_builder CHR ''='' (STANDARD_BITS OR S_ISVTX) (word_of_nat lval) msk)
               finish)"

subsection \<open>A symbolic mode\<close>

text \<open>The clause's \<open>who\<close> letters, up to the first other character.\<close>

fun parse_who :: "mode \<Rightarrow> string \<Rightarrow> mode \<times> string" where
  "parse_who who [] = (who, [])"
| "parse_who who (c # p) =
     (if c = CHR ''a'' then parse_who (who OR STANDARD_BITS) p
      else if c = CHR ''u'' then parse_who (who OR (S_ISUID OR S_IRWXU)) p
      else if c = CHR ''g'' then parse_who (who OR (S_ISGID OR S_IRWXG)) p
      else if c = CHR ''o'' then parse_who (who OR S_IRWXO) p
      else (who, c # p))"

text \<open>
  The loop over the permission letters after an operator: its variables, and the default case
  that flushes them.
\<close>

record perm_state =
  who :: mode
  perm :: mode
  permXbits :: mode
  equalopdone :: bool
  out :: builder

definition flush_perms :: "char \<Rightarrow> mode \<Rightarrow> perm_state \<Rightarrow> mode_error + perm_state" where
  "flush_perms op msk s =
     rbind (if perm s \<noteq> 0 \<or> (op = CHR ''='' \<and> \<not> equalopdone s)
            then rmap (\<lambda>b. s\<lparr>equalopdone := (op = CHR ''='' \<or> equalopdone s), perm := 0, out := b\<rparr>)
                   (ADDCMD (out s) op (who s) (perm s) msk)
            else Inr s)
       (\<lambda>s. if permXbits s \<noteq> 0
             then rmap (\<lambda>b. s\<lparr>permXbits := 0, out := b\<rparr>)
                    (ADDCMD (out s) CHR ''X'' (who s) (permXbits s) msk)
             else Inr s)"

definition copy_perms :: "char \<Rightarrow> mode \<Rightarrow> char \<Rightarrow> perm_state \<Rightarrow> mode_error + perm_state" where
  "copy_perms op msk c s =
     rbind (if perm s \<noteq> 0
            then rmap (\<lambda>b. s\<lparr>perm := 0, out := b\<rparr>) (ADDCMD (out s) op (who s) (perm s) msk)
            else Inr s)
       (\<lambda>s. let s = (if op = CHR ''='' then s\<lparr>equalopdone := True\<rparr> else s) in
         rbind (if op = CHR ''+'' \<and> permXbits s \<noteq> 0
                then rmap (\<lambda>b. s\<lparr>permXbits := 0, out := b\<rparr>)
                       (ADDCMD (out s) CHR ''X'' (who s) (permXbits s) msk)
                else Inr s)
           (\<lambda>s. rmap (\<lambda>b. s\<lparr>out := b\<rparr>) (ADDCMD (out s) c (who s) (mode_of_char op) msk)))"

definition perm_letter :: "char \<Rightarrow> perm_state \<Rightarrow> perm_state option" where
  "perm_letter c s =
     (let special = (who s = 0 \<or> who s AND NOT S_IRWXO \<noteq> 0) in
      if c = CHR ''r'' then Some (s\<lparr>perm := perm s OR R_ALL\<rparr>)
      else if c = CHR ''s'' then
        Some (if special then s\<lparr>perm := perm s OR (S_ISUID OR S_ISGID)\<rparr> else s)
      else if c = CHR ''t'' then
        Some (if special then s\<lparr>who := who s OR S_ISVTX, perm := perm s OR S_ISVTX\<rparr> else s)
      else if c = CHR ''w'' then Some (s\<lparr>perm := perm s OR W_ALL\<rparr>)
      else if c = CHR ''X'' then Some (s\<lparr>permXbits := X_ALL\<rparr>)
      else if c = CHR ''x'' then Some (s\<lparr>perm := perm s OR X_ALL\<rparr>)
      else None)"

fun parse_perms :: "char \<Rightarrow> mode \<Rightarrow> perm_state \<Rightarrow> string \<Rightarrow> mode_error + perm_state \<times> string" where
  "parse_perms op msk s [] = rmap (\<lambda>s. (s, [])) (flush_perms op msk s)"
| "parse_perms op msk s (c # p) =
     (case perm_letter c s of
        Some s' \<Rightarrow> parse_perms op msk s' p
      | None \<Rightarrow>
          (if c = CHR ''u'' \<or> c = CHR ''g'' \<or> c = CHR ''o''
           then rbind (copy_perms op msk c s) (\<lambda>s. parse_perms op msk s p)
           else rmap (\<lambda>s. (s, c # p)) (flush_perms op msk s)))"

lemma parse_who_length: "length (snd (parse_who w p)) \<le> length p"
  by (induction w p rule: parse_who.induct) auto

lemma parse_perms_length: "parse_perms op msk s p = Inr (s', p') \<Longrightarrow> length p' \<le> length p"
proof (induction p arbitrary: s)
  case (Cons c p)
  show ?case
  proof (cases "perm_letter c s")
    case (Some s2)
    with Cons show ?thesis by fastforce
  next
    case None
    with Cons show ?thesis
      by (auto simp: result_simps split: if_splits intro: le_SucI)
  qed
qed (auto simp: result_simps)

lemma parse_who_shrinks: "(w', p') = parse_who w p \<Longrightarrow> length p' \<le> length p"
  using parse_who_length [of w p] by (metis snd_conv)

text \<open>
  The code from the label \<open>getop\<close> to the end of the loop: one operator and its permissions,
  then the end of the string, a comma and a new clause, or a further operator of the same
  clause. \<open>equalopdone\<close> is not reset by a \<open>+\<close> or \<open>-\<close>.
\<close>

function setmode_getop :: "mode \<Rightarrow> mode \<Rightarrow> bool \<Rightarrow> builder \<Rightarrow> string \<Rightarrow> mode_error + builder" where
  "setmode_getop msk w eqdone b [] = Inl EINVAL"
| "setmode_getop msk w eqdone b (op # p) =
     (if op \<noteq> CHR ''+'' \<and> op \<noteq> CHR ''-'' \<and> op \<noteq> CHR ''='' then Inl EINVAL
      else rbind (parse_perms op msk
                    \<lparr>who = w AND NOT S_ISVTX, perm = 0, permXbits = 0,
                     equalopdone = (op \<noteq> CHR ''='' \<and> eqdone), out = b\<rparr> p)
             (\<lambda>(s, p').
                case p' of
                  [] \<Rightarrow> Inr (out s)
                | c # p'' \<Rightarrow>
                    if c \<noteq> CHR '','' then setmode_getop msk (who s) (equalopdone s) (out s) p'
                    else case parse_who 0 p'' of
                           (w', p3) \<Rightarrow> setmode_getop msk w' (equalopdone s) (out s) p3))"
  by pat_completeness auto
termination
  by (relation "measure (\<lambda>(msk, w, e, b, p). length p)")
    (auto dest!: parse_perms_length parse_who_shrinks)

text \<open>\<open>setmode\<close> under the process's \<open>umask\<close>.\<close>

definition setmode :: "mode \<Rightarrow> string \<Rightarrow> mode_error + bitcmd list" where
  "setmode umask p =
     (if p = [] then Inl EINVAL
      else let msk = NOT umask in
        if isdigit (code (hd p)) then absolute_mode msk p
        else case parse_who 0 p of
               (w, p') \<Rightarrow>
                 rbind (setmode_getop msk w False new_builder p')
                   (\<lambda>b. rmap compress_mode (finish b)))"

section \<open>Compression keeps the meaning\<close>

text \<open>What the three masks of a run stand for.\<close>

definition masked :: "bool \<Rightarrow> mode \<Rightarrow> mode \<Rightarrow> mode \<Rightarrow> mode \<Rightarrow> mode" where
  "masked cond setbits clrbits Xbits m =
     ((m AND NOT clrbits) OR setbits) OR (if cond then Xbits else 0)"

lemma masked_minus:
  "masked q s c x m AND NOT b = masked q (s AND NOT b) (c OR b) (x AND NOT b) m"
  unfolding masked_def by (rule bit_word_eqI) (auto simp: bit_simps)

lemma masked_plus:
  "masked q s c x m OR b = masked q (s OR b) (c AND NOT b) (x AND NOT b) m"
  unfolding masked_def by (rule bit_word_eqI) (auto simp: bit_simps)

lemma masked_X:
  "(if q then masked q s c x m OR b else masked q s c x m) = masked q s c (x OR (b AND NOT s)) m"
  unfolding masked_def by (cases q; rule bit_word_eqI) (auto simp: bit_simps)

lemma getmode_gather:
  "gather s c x cs = (s', c', x', rest) \<Longrightarrow>
     getmode_loop om cs (masked (xcond om) s c x m) =
     getmode_loop om rest (masked (xcond om) s' c' x' m)"
proof (induction s c x cs rule: gather.induct)
  case (2 s c x e es)
  consider "cmd e = CHR ''-''" | "cmd e = CHR ''+''" | "cmd e = CHR ''X''"
    | "cmd e \<notin> {CHR ''-'', CHR ''+'', CHR ''X''}" by auto
  then show ?case
  proof cases
    case 1
    with "2.IH"(1) "2.prems" show ?thesis by (simp add: getmode_step_def masked_minus)
  next
    case 2
    with "2.IH"(2) "2.prems" show ?thesis by (simp add: getmode_step_def masked_plus)
  next
    case 3
    with "2.IH"(3) "2.prems" show ?thesis
      by (simp add: getmode_step_def masked_X [symmetric])
  next
    case 4
    with "2.prems" show ?thesis by auto
  qed
qed simp

lemma getmode_emit:
  "getmode_loop om (emit s c x @ rest) m = getmode_loop om rest (masked (xcond om) s c x m)"
  by (simp add: emit_def getmode_step_def masked_def)

lemma masked_0: "masked q 0 0 0 m = m"
  by (simp add: masked_def)

lemma getmode_loop_compress: "getmode_loop om (compress_mode cs) m = getmode_loop om cs m"
proof (induction cs arbitrary: m rule: compress_mode.induct)
  case (2 c cs)
  show ?case
  proof (cases "cmd c \<noteq> CHR ''+'' \<and> cmd c \<noteq> CHR ''-'' \<and> cmd c \<noteq> CHR ''X''")
    case True
    with "2.IH"(1) show ?thesis
      by (auto simp: getmode_step_def split: option.splits)
  next
    case False
    obtain s k x rest where g: "gather 0 0 0 (c # cs) = (s, k, x, rest)"
      by (metis prod_cases4)
    with False have "compress_mode (c # cs) = emit s k x @ compress_mode rest" by auto
    then have "getmode_loop om (compress_mode (c # cs)) m =
        getmode_loop om rest (masked (xcond om) s k x m)"
      using "2.IH"(2) [OF False g [symmetric] refl refl] by (simp add: getmode_emit)
    also have "\<dots> = getmode_loop om (c # cs) m"
      using getmode_gather [OF g, of om m] by (simp add: masked_0)
    finally show ?thesis .
  qed
qed simp

text \<open>
  A run is rewritten in place: it never needs more entries than it had.
\<close>

lemma emit_length: "length (emit s c x) = of_bool (s \<noteq> 0) + of_bool (c \<noteq> 0) + of_bool (x \<noteq> 0)"
  by (simp add: emit_def)

lemma emit_step:
  "length (emit (s AND NOT b) (c OR b) (x AND NOT b)) \<le> Suc (length (emit s c x))"
  "length (emit (s OR b) (c AND NOT b) (x AND NOT b)) \<le> Suc (length (emit s c x))"
  "length (emit s c (x OR d)) \<le> Suc (length (emit s c x))"
  by (auto simp: emit_length)

lemma gather_emit_length:
  "gather s c x cs = (s', c', x', rest) \<Longrightarrow>
     length (emit s' c' x') + length rest \<le> length (emit s c x) + length cs"
proof (induction s c x cs rule: gather.induct)
  case (2 s c x e es)
  consider "cmd e = CHR ''-''" | "cmd e = CHR ''+''" | "cmd e = CHR ''X''"
    | "cmd e \<notin> {CHR ''-'', CHR ''+'', CHR ''X''}" by auto
  then show ?case
  proof cases
    case 1
    with "2.IH"(1) "2.prems" emit_step(1) [of s "bits e" c x] show ?thesis by simp
  next
    case 2
    with "2.IH"(2) "2.prems" emit_step(2) [of s "bits e" c x] show ?thesis by simp
  next
    case 3
    with "2.IH"(3) "2.prems" emit_step(3) [of s c x "bits e AND NOT s"] show ?thesis by simp
  next
    case 4
    with "2.prems" show ?thesis by auto
  qed
qed simp

lemma compress_length: "length (compress_mode cs) \<le> length cs"
proof (induction cs rule: compress_mode.induct)
  case (2 c cs)
  show ?case
  proof (cases "cmd c \<noteq> CHR ''+'' \<and> cmd c \<noteq> CHR ''-'' \<and> cmd c \<noteq> CHR ''X''")
    case True
    with "2.IH"(1) show ?thesis by simp
  next
    case False
    obtain s k x rest where g: "gather 0 0 0 (c # cs) = (s, k, x, rest)"
      by (metis prod_cases4)
    with False have "compress_mode (c # cs) = emit s k x @ compress_mode rest" by auto
    moreover have "length (compress_mode rest) \<le> length rest"
      by (rule "2.IH"(2) [OF False g [symmetric] refl refl])
    ultimately show ?thesis
      using gather_emit_length [OF g] by (simp add: emit_length)
  qed
qed simp

text \<open>
  C21: \<open>compress_mode\<close>, which folds every run of \<open>+\<close>, \<open>-\<close> and \<open>X\<close> commands into at most one
  of each, changes neither the mode \<open>getmode\<close> computes from any original mode nor makes the
  command array longer, so rewriting it in place is safe.
\<close>

theorem compress_mode_correct:
  "getmode (compress_mode cs) omode = getmode cs omode \<and> length (compress_mode cs) \<le> length cs"
  by (simp add: getmode_def getmode_loop_compress compress_length)

section \<open>What the parser keeps true\<close>

text \<open>
  The invariant of the array under construction: room for the terminator always (and, after
  the growth of \<open>ADDCMD\<close>, for the two entries of an \<open>=\<close>), and no entry that can touch a bit
  outside the twelve permission bits.
\<close>

abbreviation PERM_BITS :: mode where
  "PERM_BITS \<equiv> 0xFFF"

definition within :: "mode \<Rightarrow> bool" where
  "within b \<longleftrightarrow> b AND PERM_BITS = b"

definition safe_cmd :: "bitcmd \<Rightarrow> bool" where
  "safe_cmd c \<longleftrightarrow> cmd c \<in> {CHR ''u'', CHR ''g'', CHR ''o''} \<or> within (bits c)"

definition good :: "builder \<Rightarrow> bool" where
  "good b \<longleftrightarrow> length (entries b) < setlen b \<and> list_all safe_cmd (entries b)"

definition good_state :: "perm_state \<Rightarrow> bool" where
  "good_state s \<longleftrightarrow> good (out s) \<and> within (who s) \<and> within (perm s) \<and> within (permXbits s)"

lemma within_OR [simp]: "within a \<Longrightarrow> within b \<Longrightarrow> within (a OR b)"
  by (simp add: within_def bit.conj_disj_distrib2)

lemma within_AND: "within b \<Longrightarrow> within (a AND b)" "within a \<Longrightarrow> within (a AND b)"
  unfolding within_def by (metis and.assoc, metis and.assoc and.commute)

lemma within_literal [simp]: "within (numeral n) \<longleftrightarrow> (numeral n AND PERM_BITS :: mode) = numeral n"
  by (simp add: within_def)

lemma within_consts [simp]: "within 0" "within STANDARD_BITS"
  by (simp_all add: within_def STANDARD_BITS_def)

lemma addcmd_length: "length (addcmd op w oparg m) \<le> 2"
  by (simp add: addcmd_def Let_def)

lemma addcmd_safe:
  assumes "within w" and "within oparg \<or> op \<in> {CHR ''u'', CHR ''g'', CHR ''o''}"
  shows "list_all safe_cmd (addcmd op w oparg m)"
proof (cases "op \<in> {CHR ''u'', CHR ''g'', CHR ''o''}")
  case True
  then show ?thesis by (auto simp: addcmd_def safe_cmd_def)
next
  case False
  with assms have "within oparg" by simp
  with False assms(1) show ?thesis
    by (simp add: addcmd_def Let_def safe_cmd_def within_AND)
qed

lemma ADDCMD_good:
  assumes "good b" and "within w" and "within oparg \<or> op \<in> {CHR ''u'', CHR ''g'', CHR ''o''}"
  shows "\<exists>b'. ADDCMD b op w oparg m = Inr b' \<and> good b'"
  using assms(1) addcmd_length [of op w oparg m] addcmd_safe [OF assms(2,3), of m]
  by (auto simp: ADDCMD_def put_entries_def good_def Let_def)

text \<open>
  \<open>keeps P r\<close>: the computation ends in a state with \<open>P\<close>, or refuses its input with \<open>EINVAL\<close>
  or \<open>ERANGE\<close>; it does not overrun.
\<close>

definition keeps :: "('a \<Rightarrow> bool) \<Rightarrow> mode_error + 'a \<Rightarrow> bool" where
  "keeps P r = (case r of Inl e \<Rightarrow> e \<noteq> Overrun | Inr x \<Rightarrow> P x)"

lemma keeps_simps [simp]: "keeps P (Inr x) = P x" "keeps P (Inl e) = (e \<noteq> Overrun)"
  by (simp_all add: keeps_def)

lemma keeps_rbind: "keeps Q r \<Longrightarrow> (\<And>x. Q x \<Longrightarrow> keeps P (f x)) \<Longrightarrow> keeps P (rbind r f)"
  by (cases r) auto

lemma keeps_rmap: "keeps Q r \<Longrightarrow> (\<And>x. Q x \<Longrightarrow> P (f x)) \<Longrightarrow> keeps P (rmap f r)"
  by (cases r) auto

lemma ADDCMD_keeps:
  "good b \<Longrightarrow> within w \<Longrightarrow> within oparg \<or> op \<in> {CHR ''u'', CHR ''g'', CHR ''o''} \<Longrightarrow>
     keeps good (ADDCMD b op w oparg m)"
  using ADDCMD_good [of b w oparg op m] by auto

lemma flush_perms_keeps:
  assumes "good_state s"
  shows "keeps good_state (flush_perms op m s)"
  unfolding flush_perms_def
  using assms
  by (intro keeps_rbind [where Q = good_state])
    (auto simp: good_state_def intro!: keeps_rmap [where Q = good] ADDCMD_keeps)

lemma copy_perms_keeps:
  assumes "good_state s" and "c \<in> {CHR ''u'', CHR ''g'', CHR ''o''}"
  shows "keeps good_state (copy_perms op m c s)"
  unfolding copy_perms_def Let_def
  using assms
  by (intro keeps_rbind [where Q = good_state])
    (auto simp: good_state_def intro!: keeps_rmap [where Q = good] ADDCMD_keeps)

lemma perm_letter_good: "perm_letter c s = Some s' \<Longrightarrow> good_state s \<Longrightarrow> good_state s'"
  by (auto simp: perm_letter_def Let_def good_state_def split: if_splits)

lemma parse_perms_keeps:
  "good_state s \<Longrightarrow> keeps (good_state \<circ> fst) (parse_perms op m s p)"
proof (induction p arbitrary: s)
  case Nil
  then show ?case by (auto intro: keeps_rmap flush_perms_keeps)
next
  case (Cons c p)
  show ?case
  proof (cases "perm_letter c s")
    case (Some s')
    with Cons perm_letter_good show ?thesis by auto
  next
    case None
    with Cons show ?thesis
      by (auto intro!: keeps_rbind [OF copy_perms_keeps] keeps_rmap [OF flush_perms_keeps])
  qed
qed

lemma parse_who_within: "within w \<Longrightarrow> parse_who w p = (w', p') \<Longrightarrow> within w'"
  by (induction w p rule: parse_who.induct) (auto split: if_splits)

lemma setmode_getop_keeps:
  "good b \<Longrightarrow> within w \<Longrightarrow> keeps good (setmode_getop m w e b p)"
proof (induction m w e b p rule: setmode_getop.induct)
  case (2 m w e b op p)
  let ?s = "\<lparr>who = w AND NOT S_ISVTX, perm = 0, permXbits = 0,
    equalopdone = (op \<noteq> CHR ''='' \<and> e), out = b\<rparr>"
  have k: "keeps (good_state \<circ> fst) (parse_perms op m ?s p)"
    using "2.prems" by (intro parse_perms_keeps) (simp add: good_state_def within_AND)
  show ?case
  proof (cases "op \<noteq> CHR ''+'' \<and> op \<noteq> CHR ''-'' \<and> op \<noteq> CHR ''=''")
    case False
    have "keeps good (case x of (s, p') \<Rightarrow> case p' of [] \<Rightarrow> Inr (out s)
        | c # p'' \<Rightarrow> if c \<noteq> CHR '','' then setmode_getop m (who s) (equalopdone s) (out s) p'
          else case parse_who 0 p'' of (w', p3) \<Rightarrow> setmode_getop m w' (equalopdone s) (out s) p3)"
      if x: "parse_perms op m ?s p = Inr x" for x
    proof -
      obtain s p' where [simp]: "x = (s, p')" by (cases x)
      have s: "good (out s)" "within (who s)" using k x by (simp_all add: good_state_def)
      show ?thesis
      proof (cases p')
        case Nil
        with s show ?thesis by simp
      next
        case (Cons c p'')
        obtain w' p3 where w: "parse_who 0 p'' = (w', p3)" by (cases "parse_who 0 p''")
        then have "within w'" by (rule parse_who_within [rotated]) simp
        with s w Cons False x show ?thesis
          using "2.IH" [OF False x \<open>x = (s, p')\<close> [symmetric] Cons] by (cases "c = CHR '',''") simp_all
      qed
    qed
    with k False show ?thesis
      by (cases "parse_perms op m ?s p") simp_all
  qed simp
qed simp

text \<open>Applying safe entries leaves every bit outside the permissions alone.\<close>

lemma submask_minus:
  fixes x :: "'a::len word"
  assumes "x AND p = x" shows "(m AND NOT x) AND NOT p = m AND NOT p"
proof (rule bit_word_eqI)
  fix n assume "n < LENGTH('a)"
  moreover have "bit x n \<Longrightarrow> bit p n" using assms by (metis bit_and_iff)
  ultimately show "bit ((m AND NOT x) AND NOT p) n \<longleftrightarrow> bit (m AND NOT p) n"
    by (auto simp: bit_simps)
qed

lemma submask_plus:
  fixes x :: "'a::len word"
  assumes "x AND p = x" shows "(m OR x) AND NOT p = m AND NOT p"
proof (rule bit_word_eqI)
  fix n assume "n < LENGTH('a)"
  moreover have "bit x n \<Longrightarrow> bit p n" using assms by (metis bit_and_iff)
  ultimately show "bit ((m OR x) AND NOT p) n \<longleftrightarrow> bit (m AND NOT p) n"
    by (auto simp: bit_simps)
qed

definition same_outside :: "mode \<Rightarrow> mode \<Rightarrow> bool" where
  "same_outside m m' \<longleftrightarrow> m AND NOT PERM_BITS = m' AND NOT PERM_BITS"

lemma same_outside_trans: "same_outside m m' \<Longrightarrow> same_outside m' m'' \<Longrightarrow> same_outside m m''"
  by (simp add: same_outside_def)

lemma same_outside_refl [simp]: "same_outside m m"
  by (simp add: same_outside_def)

lemma same_outside_minus: "within x \<Longrightarrow> same_outside (m AND NOT x) m"
  unfolding same_outside_def within_def by (rule submask_minus)

lemma same_outside_plus: "within x \<Longrightarrow> same_outside (m OR x) m"
  unfolding same_outside_def within_def by (rule submask_plus)

lemma within_shifts:
  assumes "v AND 7 = v"
  shows "within (push_bit 6 v)" "within (push_bit 3 v)" "within v"
proof -
  have "push_bit 6 v = push_bit 6 v AND push_bit 6 7" "push_bit 3 v = push_bit 3 v AND push_bit 3 7"
    by (metis assms push_bit_and)+
  moreover have "within (push_bit 6 7 :: mode)" "within (push_bit 3 7 :: mode)" "within 7"
    by (simp_all add: push_bit_numeral_minus_1 within_def)
  ultimately show "within (push_bit 6 v)" "within (push_bit 3 v)" "within v"
    using assms by (metis within_AND(1))+
qed

lemma copy_bits_outside:
  assumes "v AND 7 = v"
  shows "same_outside (copy_bits c v m) m"
proof -
  define clr where "clr = (if cmd2 c AND CMD2_SET \<noteq> 0 then S_IRWXO else v)"
  have "clr AND 7 = clr" using assms by (simp add: clr_def)
  note w = within_AND(2) [OF within_shifts(1) [OF this]] within_AND(2) [OF within_shifts(2) [OF this]]
    within_AND(2) [OF within_shifts(3) [OF this]] within_AND(2) [OF within_shifts(1) [OF assms]]
    within_AND(2) [OF within_shifts(2) [OF assms]] within_AND(2) [OF within_shifts(3) [OF assms]]
  have step: "same_outside (if q then f a else a) m"
    if "same_outside a m" "same_outside (f a) a" for f :: "mode \<Rightarrow> mode" and a q
    using that same_outside_trans by (cases q) auto
  show ?thesis
    unfolding copy_bits_def clr_def [symmetric] Let_def
    by (intro step same_outside_refl same_outside_minus same_outside_plus w)
qed

lemma getmode_step_outside:
  "safe_cmd c \<Longrightarrow> getmode_step om c m = Some m' \<Longrightarrow> same_outside m' m"
  by (auto simp: getmode_step_def safe_cmd_def drop_bit_and and.assoc
    intro: copy_bits_outside same_outside_minus same_outside_plus split: if_splits)

lemma getmode_loop_outside:
  "list_all safe_cmd cs \<Longrightarrow> same_outside (getmode_loop om cs m) m"
proof (induction cs arbitrary: m)
  case (Cons c cs)
  then show ?case
    by (cases "getmode_step om c m")
      (auto intro: same_outside_trans getmode_step_outside)
qed simp

section \<open>What setmode guarantees\<close>

lemma finish_good: "good b \<Longrightarrow> finish b = Inr (entries b)"
  by (simp add: finish_def good_def)

lemma new_builder_good [simp]: "good new_builder"
  by (simp add: good_def new_builder_def)

lemma PERM_BITS_mask: "(0xFFF :: 'a::len word) = mask 12"
  by (simp add: mask_eq_exp_minus_1)

lemma within_word_of_nat: "n < 4096 \<Longrightarrow> within (word_of_nat n)"
  unfolding within_def PERM_BITS_mask
  by (simp flip: take_bit_eq_mask of_nat_take_bit add: take_bit_nat_eq_self)

lemma long_within_iff: "(w :: 64 word) AND NOT 0xFFF = 0 \<longleftrightarrow> unat w < 4096"
proof -
  have "w AND NOT (mask 12) = 0 \<longleftrightarrow> take_bit 12 w = w"
    by (metis (no_types) bit.conj_disj_distrib bit.disj_cancel_right and.right_neutral
      take_bit_eq_mask bit.conj_cancel_right bit.conj_zero_right and.assoc or.right_neutral)
  also have "\<dots> \<longleftrightarrow> unat w < 2 ^ 12"
    by (simp add: word_unat_eq_iff unsigned_take_bit_eq take_bit_nat_eq_self_iff)
  finally show ?thesis by (simp add: PERM_BITS_mask)
qed

lemma absolute_mask: "STANDARD_BITS OR S_ISVTX = (0xFFF :: mode)"
  by (simp add: STANDARD_BITS_def)

lemma lval_in_range:
  assumes "n \<le> LONG_MAX"
  shows "(word_of_nat n :: 64 word) AND NOT (ucast (STANDARD_BITS OR S_ISVTX)) \<noteq> 0 \<longleftrightarrow> \<not> n < 4096"
proof -
  have "n < 2 ^ 64" using assms by (simp add: LONG_MAX_def)
  then have "unat (word_of_nat n :: 64 word) = n" by (simp add: unat_of_nat)
  moreover have "(ucast (STANDARD_BITS OR S_ISVTX) :: 64 word) = 0xFFF"
    unfolding absolute_mask by simp
  ultimately show ?thesis using long_within_iff [of "word_of_nat n"] by simp
qed

lemma absolute_entries:
  "rbind (ADDCMD new_builder CHR ''='' (STANDARD_BITS OR S_ISVTX) n m) finish =
     Inr [\<lparr>cmd = CHR ''-'', cmd2 = 0, bits = 0xFFF\<rparr>, \<lparr>cmd = CHR ''+'', cmd2 = 0, bits = 0xFFF AND n\<rparr>]"
  unfolding absolute_mask
  by (simp add: ADDCMD_def new_builder_def addcmd_def put_entries_def finish_def)

lemma absolute_mode_safe:
  "keeps (list_all safe_cmd) (absolute_mode m p)"
  using absolute_entries [of _ m]
  by (simp add: absolute_mode_def strtol8_def Let_def safe_cmd_def within_AND)

text \<open>
  C22: no specification makes \<open>setmode\<close> write past the command array it allocated (the two
  spare entries and the growth step of \<open>ADDCMD\<close> always suffice), and an accepted
  specification never changes a bit of a mode outside the twelve permission bits, so the file
  type survives.
\<close>

theorem setmode_safe:
  "case setmode um p of
     Inl e \<Rightarrow> e \<noteq> Overrun
   | Inr cs \<Rightarrow> getmode cs m AND NOT 0xFFF = m AND NOT 0xFFF"
proof -
  have "keeps (\<lambda>cs. \<forall>m. same_outside (getmode cs m) m) (setmode um p)"
  proof (cases "isdigit (code (hd p))")
    case True
    then show ?thesis
      using absolute_mode_safe [of "NOT um" p]
      by (auto simp: setmode_def keeps_def getmode_def intro: getmode_loop_outside split: sum.splits)
  next
    case False
    obtain w p' where w: "parse_who 0 p = (w, p')" by (cases "parse_who 0 p")
    then have "keeps good (setmode_getop (NOT um) w False new_builder p')"
      by (intro setmode_getop_keeps) (auto intro: parse_who_within [rotated])
    with w False show ?thesis
      by (auto simp: setmode_def keeps_def finish_good getmode_def getmode_loop_compress good_def
        intro: getmode_loop_outside split: sum.splits)
  qed
  then show ?thesis by (auto simp: keeps_def same_outside_def split: sum.splits)
qed

text \<open>
  C23: a specification that begins with a digit is an octal number: it is refused with
  \<open>EINVAL\<close> when another character follows or the value has a bit above \<open>07777\<close>, with
  \<open>ERANGE\<close> when it does not fit a \<open>long\<close>, and otherwise it replaces the twelve permission
  bits of any mode by its value, whatever the \<open>umask\<close>.
\<close>

theorem setmode_absolute:
  assumes "p \<noteq> []" and "isdigit (code (hd p))" and "NUL \<notin> set p"
  shows "rmap (\<lambda>cs. getmode cs m) (setmode um p) =
    (if \<exists>c\<in>set p. \<not> isoctal c then Inl EINVAL
     else if octval p > LONG_MAX then Inl ERANGE
     else if octval p \<ge> 4096 then Inl EINVAL
     else Inr ((m AND NOT 0xFFF) OR word_of_nat (octval p)))"
proof (cases "\<exists>c\<in>set p. \<not> isoctal c")
  case True
  then have "dropWhile isoctal p \<noteq> []" by auto
  then have "at0 (dropWhile isoctal p) \<in> set p"
    using set_dropWhileD [of _ isoctal p] by (cases "dropWhile isoctal p") auto
  with assms True show ?thesis
    by (auto simp: setmode_def absolute_mode_def strtol8_def Let_def)
next
  case False
  then have "dropWhile isoctal p = []" "takeWhile isoctal p = p" by auto
  then have s: "strtol8 p = (min (octval p) LONG_MAX, octval p > LONG_MAX, [])"
    by (simp add: strtol8_def Let_def del: takeWhile_eq_all_conv dropWhile_eq_Nil_conv)
  show ?thesis
  proof (cases "octval p \<le> LONG_MAX")
    case le: True
    then have s: "strtol8 p = (octval p, False, [])" using s by simp
    show ?thesis
    proof (cases "octval p < 4096")
      case True
      then have "0xFFF AND word_of_nat (octval p) = (word_of_nat (octval p) :: mode)"
        using within_word_of_nat by (metis within_def and.commute)
      with True assms False s le show ?thesis
        by (simp add: setmode_def absolute_mode_def lval_in_range
          absolute_entries getmode_def getmode_step_def)
    next
      case f: False
      with assms False s le show ?thesis
        by (simp add: setmode_def absolute_mode_def lval_in_range)
    qed
  next
    case le: False
    with assms False s show ?thesis
      by (simp add: setmode_def absolute_mode_def)
  qed
qed

theorem setmode_absolute_witness:
  "rmap (\<lambda>cs. getmode cs 0x81B6) (setmode 0x12 ''4755'') = Inr 0x89ED"
  using setmode_absolute [of "''4755''" "0x81B6" "0x12"]
  by (simp add: isoctal_def octval_def LONG_MAX_def code_def isdigit_def)

section \<open>What a symbolic specification means\<close>

text \<open>
  The specification language, for the clauses whose permissions are \<open>r\<close>, \<open>w\<close> and \<open>x\<close>: who,
  an operator, permissions; its meaning on a mode under a \<open>umask\<close>, as \<open>chmod(1)\<close> describes
  it; and its text.
\<close>

record clause =
  c_who :: string
  c_op :: char
  c_perms :: string

definition valid_clause :: "clause \<Rightarrow> bool" where
  "valid_clause c \<longleftrightarrow> set (c_who c) \<subseteq> {CHR ''u'', CHR ''g'', CHR ''o'', CHR ''a''} \<and>
     c_op c \<in> {CHR ''+'', CHR ''-'', CHR ''=''} \<and>
     set (c_perms c) \<subseteq> {CHR ''r'', CHR ''w'', CHR ''x''}"

definition who_bits :: "string \<Rightarrow> mode" where
  "who_bits ws = foldr (\<lambda>w. (OR)
     (if w = CHR ''u'' then S_ISUID OR S_IRWXU
      else if w = CHR ''g'' then S_ISGID OR S_IRWXG
      else if w = CHR ''o'' then S_IRWXO else STANDARD_BITS)) ws 0"

definition perm_bits :: "string \<Rightarrow> mode" where
  "perm_bits ps = foldr (\<lambda>p. (OR)
     (if p = CHR ''r'' then R_ALL else if p = CHR ''w'' then W_ALL else X_ALL)) ps 0"

definition clause_sem :: "mode \<Rightarrow> clause \<Rightarrow> mode \<Rightarrow> mode" where
  "clause_sem um c m =
     (let w = who_bits (c_who c);
          x = (if w = 0 then NOT um else w) AND perm_bits (c_perms c)
      in if c_op c = CHR ''+'' then m OR x
         else if c_op c = CHR ''-'' then m AND NOT x
         else (m AND NOT (if w = 0 then STANDARD_BITS else w)) OR x)"

definition clause_text :: "clause \<Rightarrow> string" where
  "clause_text c = c_who c @ c_op c # c_perms c"

fun spec_text :: "clause \<Rightarrow> clause list \<Rightarrow> string" where
  "spec_text c [] = clause_text c"
| "spec_text c (d # ds) = clause_text c @ CHR '','' # spec_text d ds"

lemma parse_who_run:
  "set ws \<subseteq> {CHR ''u'', CHR ''g'', CHR ''o'', CHR ''a''} \<Longrightarrow> op \<in> {CHR ''+'', CHR ''-'', CHR ''=''} \<Longrightarrow>
     parse_who w (ws @ op # p) = (w OR who_bits ws, op # p)"
  by (induction ws arbitrary: w) (auto simp: who_bits_def or.assoc)

lemma parse_perms_run:
  assumes "set ps \<subseteq> {CHR ''r'', CHR ''w'', CHR ''x''}" and "rest = [] \<or> hd rest = CHR '',''"
  shows "parse_perms op m s (ps @ rest) =
    rmap (\<lambda>s. (s, rest)) (flush_perms op m (s\<lparr>perm := perm s OR perm_bits ps\<rparr>))"
  using assms(1)
proof (induction ps arbitrary: s)
  case Nil
  show ?case
  proof (cases rest)
    case (Cons c r)
    with assms(2) have "c = CHR '',''" by simp
    then have "perm_letter c s = None" by (simp add: perm_letter_def)
    with Cons \<open>c = CHR '',''\<close> show ?thesis by (simp add: perm_bits_def)
  qed (simp add: perm_bits_def)
next
  case (Cons c ps)
  then have "perm_letter c s = Some (s\<lparr>perm := perm s OR perm_bits [c]\<rparr>)"
    by (auto simp: perm_letter_def perm_bits_def)
  with Cons show ?case by (simp add: perm_bits_def or.assoc)
qed

lemma ADDCMD_entries:
  assumes "good b" and "within w" and "within oparg"
  shows "\<exists>b'. ADDCMD b op w oparg m = Inr b' \<and> good b' \<and> entries b' = entries b @ addcmd op w oparg m"
  using ADDCMD_good [OF assms(1,2), of oparg op m] assms(3)
  by (auto simp: ADDCMD_def put_entries_def Let_def split: if_splits)

lemma addcmd_sem:
  "op \<in> {CHR ''+'', CHR ''-'', CHR ''=''} \<Longrightarrow>
     getmode_loop om (addcmd op w x msk @ rest) m =
     getmode_loop om rest
       (if op = CHR ''+'' then m OR ((if w = 0 then msk else w) AND x)
        else if op = CHR ''-'' then m AND NOT ((if w = 0 then msk else w) AND x)
        else (m AND NOT (if w = 0 then STANDARD_BITS else w)) OR ((if w = 0 then msk else w) AND x))"
  by (auto simp: addcmd_def getmode_step_def)

lemma within_who_bits: "within (who_bits ws)"
  by (induction ws) (auto simp: who_bits_def intro!: within_OR)

lemma within_perm_bits: "within (perm_bits ps)"
  by (induction ps) (auto simp: perm_bits_def intro!: within_OR)

lemma who_bits_no_sticky: "who_bits ws AND NOT S_ISVTX = who_bits ws"
  by (induction ws) (auto simp: who_bits_def STANDARD_BITS_def bit.conj_disj_distrib2)

lemma flush_clause:
  assumes "valid_clause c" and "good b"
  shows "\<exists>s b' e'. flush_perms (c_op c) (NOT um)
        \<lparr>who = who_bits (c_who c), perm = perm_bits (c_perms c), permXbits = 0,
         equalopdone = (c_op c \<noteq> CHR ''='' \<and> e), out = b\<rparr> =
        Inr \<lparr>who = who_bits (c_who c), perm = 0, permXbits = 0, equalopdone = e', out = b'\<rparr> \<and>
      good b' \<and> (\<exists>es. entries b' = entries b @ es \<and>
        (\<forall>om m rest. getmode_loop om (es @ rest) m = getmode_loop om rest (clause_sem um c m)))"
proof -
  define w where "w = who_bits (c_who c)"
  define x where "x = perm_bits (c_perms c)"
  have op: "c_op c \<in> {CHR ''+'', CHR ''-'', CHR ''=''}" using assms(1) by (simp add: valid_clause_def)
  show ?thesis
  proof (cases "x \<noteq> 0 \<or> c_op c = CHR ''=''")
    case True
    obtain b' where b': "ADDCMD b (c_op c) w x (NOT um) = Inr b'" "good b'"
      "entries b' = entries b @ addcmd (c_op c) w x (NOT um)"
      using ADDCMD_entries [OF assms(2), of w x] within_who_bits within_perm_bits
      by (metis w_def x_def)
    have "getmode_loop om (addcmd (c_op c) w x (NOT um) @ rest) m =
        getmode_loop om rest (clause_sem um c m)" for om m rest
      using addcmd_sem [OF op] by (simp add: clause_sem_def Let_def w_def x_def)
    with True b' show ?thesis
      by (auto simp: flush_perms_def w_def x_def)
  next
    case False
    then have "getmode_loop om ([] @ rest) m = getmode_loop om rest (clause_sem um c m)" for om m rest
      using op by (auto simp: clause_sem_def Let_def x_def)
    with False assms(2) show ?thesis
      by (auto simp: flush_perms_def x_def)
  qed
qed

lemma setmode_getop_clause:
  assumes "valid_clause c" and "good b" and "rest = [] \<or> hd rest = CHR '',''"
  shows "\<exists>s b' e'. parse_perms (c_op c) (NOT um)
        \<lparr>who = who_bits (c_who c) AND NOT S_ISVTX, perm = 0, permXbits = 0,
         equalopdone = (c_op c \<noteq> CHR ''='' \<and> e), out = b\<rparr> (c_perms c @ rest) =
        Inr (\<lparr>who = who_bits (c_who c), perm = 0, permXbits = 0, equalopdone = e', out = b'\<rparr>, rest) \<and>
      good b' \<and> (\<exists>es. entries b' = entries b @ es \<and>
        (\<forall>om m rest. getmode_loop om (es @ rest) m = getmode_loop om rest (clause_sem um c m)))"
  unfolding who_bits_no_sticky
  using flush_clause [OF assms(1,2), of um e] assms
  by (auto simp: parse_perms_run valid_clause_def)

lemma setmode_getop_spec:
  "valid_clause c \<Longrightarrow> list_all valid_clause ds \<Longrightarrow> good b \<Longrightarrow>
     \<exists>b' es. setmode_getop (NOT um) (who_bits (c_who c)) e b
          (c_op c # c_perms c @ (case ds of [] \<Rightarrow> [] | d # ds' \<Rightarrow> CHR '','' # spec_text d ds')) = Inr b' \<and>
       good b' \<and> entries b' = entries b @ es \<and>
       (\<forall>om m. getmode_loop om es m = fold (clause_sem um) (c # ds) m)"
proof (induction ds arbitrary: c e b)
  case Nil
  then have op: "c_op c \<in> {CHR ''+'', CHR ''-'', CHR ''=''}" by (simp add: valid_clause_def)
  obtain b' e' es where p: "parse_perms (c_op c) (NOT um)
        \<lparr>who = who_bits (c_who c) AND NOT S_ISVTX, perm = 0, permXbits = 0,
         equalopdone = (c_op c \<noteq> CHR ''='' \<and> e), out = b\<rparr> (c_perms c @ []) =
        Inr (\<lparr>who = who_bits (c_who c), perm = 0, permXbits = 0, equalopdone = e', out = b'\<rparr>, [])"
    and b': "good b'" "entries b' = entries b @ es"
    and es: "\<And>om m rest. getmode_loop om (es @ rest) m = getmode_loop om rest (clause_sem um c m)"
    using setmode_getop_clause [OF Nil(1,3), of "[]" um e] by auto
  have "getmode_loop om es m = clause_sem um c m" for om m
    using es [of om "[]"] by simp
  moreover have "setmode_getop (NOT um) (who_bits (c_who c)) e b (c_op c # c_perms c) = Inr b'"
    unfolding setmode_getop.simps using p op by auto
  ultimately show ?case using b' by auto
next
  case (Cons d ds)
  then have op: "c_op c \<in> {CHR ''+'', CHR ''-'', CHR ''=''}" by (simp add: valid_clause_def)
  have vd: "valid_clause d" using Cons.prems by simp
  let ?rest = "CHR '','' # spec_text d ds"
  obtain b' e' es where p: "parse_perms (c_op c) (NOT um)
        \<lparr>who = who_bits (c_who c) AND NOT S_ISVTX, perm = 0, permXbits = 0,
         equalopdone = (c_op c \<noteq> CHR ''='' \<and> e), out = b\<rparr> (c_perms c @ ?rest) =
        Inr (\<lparr>who = who_bits (c_who c), perm = 0, permXbits = 0, equalopdone = e', out = b'\<rparr>, ?rest)"
    and b': "good b'" "entries b' = entries b @ es"
    and es: "\<And>om m rest. getmode_loop om (es @ rest) m = getmode_loop om rest (clause_sem um c m)"
    using setmode_getop_clause [OF Cons.prems(1,3), of ?rest um e] by auto
  let ?more = "c_op d # c_perms d @ (case ds of [] \<Rightarrow> [] | d # ds' \<Rightarrow> CHR '','' # spec_text d ds')"
  have t: "spec_text d ds = c_who d @ ?more"
    by (cases ds) (simp_all add: clause_text_def)
  have w: "parse_who 0 (spec_text d ds) = (who_bits (c_who d), ?more)"
    unfolding t using vd by (subst parse_who_run) (auto simp: valid_clause_def)
  obtain b2 es2 where b2: "setmode_getop (NOT um) (who_bits (c_who d)) e' b' ?more = Inr b2"
      "good b2" "entries b2 = entries b' @ es2"
    and es2: "\<And>om m. getmode_loop om es2 m = fold (clause_sem um) (d # ds) m"
    using Cons.IH [OF vd _ b'(1), of e'] Cons.prems(2) by auto
  have "setmode_getop (NOT um) (who_bits (c_who c)) e b (c_op c # c_perms c @ ?rest) = Inr b2"
    unfolding setmode_getop.simps using p op w b2 by auto
  moreover have "entries b2 = entries b @ (es @ es2)" using b' b2 by simp
  moreover have "getmode_loop om (es @ es2) m = fold (clause_sem um) (c # d # ds) m" for om m
    by (simp add: es es2)
  ultimately show ?case using b2(2) by auto
qed

lemma spec_text_start:
  "valid_clause c \<Longrightarrow> spec_text c ds \<noteq> [] \<and> \<not> isdigit (code (hd (spec_text c ds)))"
  by (cases "c_who c"; cases ds) (auto simp: clause_text_def valid_clause_def isdigit_def code_def)



section \<open>The letters that need more care\<close>

text \<open>
  C35: \<open>+rt\<close> sets the sticky bit only. The \<open>t\<close> stores \<open>S_ISVTX\<close> in an empty \<open>who\<close>, so the
  read permissions asked for beside it are masked away, in either order, under every \<open>umask\<close>.
\<close>

theorem sticky_drops_perms:
  "rmap (\<lambda>cs. getmode cs m) (setmode um ''+rt'') = Inr (m OR S_ISVTX) \<and>
   rmap (\<lambda>cs. getmode cs m) (setmode um ''+tr'') = Inr (m OR S_ISVTX)"
  by (simp add: setmode_def code_def isdigit_def perm_letter_def flush_perms_def ADDCMD_def
    new_builder_def addcmd_def put_entries_def finish_def getmode_def getmode_step_def emit_def)

text \<open>
  An \<open>X\<close> adds the execute bits whatever the operator: \<open>a-X\<close> turns a directory's mode
  without execute permission into one with it.
\<close>

theorem minus_X_adds:
  "rmap (\<lambda>cs. getmode cs m) (setmode um ''a-X'') = Inr (if xcond m then m OR X_ALL else m)"
  by (simp add: setmode_def code_def isdigit_def perm_letter_def flush_perms_def ADDCMD_def
    new_builder_def addcmd_def put_entries_def finish_def getmode_def getmode_step_def emit_def
    STANDARD_BITS_def)

end
