(* ===== verification/Vis.thy ===== *)
theory Vis
  imports Prelude
begin

text \<open>
  The visual encoding of \<open>Library/vis.c\<close>. Wide characters and bytes are natural numbers. The
  model is the code's path for single bytes (\<open>VIS_NOLOCALE\<close>, and what the code falls back to
  after a conversion error) in the C locale. Allocation is taken to succeed.
\<close>

section \<open>Flags\<close>

type_synonym flags = "32 word"

definition has :: "flags \<Rightarrow> flags \<Rightarrow> bool" where
  "has f m \<longleftrightarrow> f AND m \<noteq> 0"

abbreviation VIS_OCTAL :: flags where "VIS_OCTAL \<equiv> 0x0001"
abbreviation VIS_CSTYLE :: flags where "VIS_CSTYLE \<equiv> 0x0002"
abbreviation VIS_SP :: flags where "VIS_SP \<equiv> 0x0004"
abbreviation VIS_TAB :: flags where "VIS_TAB \<equiv> 0x0008"
abbreviation VIS_NL :: flags where "VIS_NL \<equiv> 0x0010"
abbreviation VIS_SAFE :: flags where "VIS_SAFE \<equiv> 0x0020"
abbreviation VIS_NOSLASH :: flags where "VIS_NOSLASH \<equiv> 0x0040"
abbreviation VIS_HTTPSTYLE :: flags where "VIS_HTTPSTYLE \<equiv> 0x0080"
abbreviation VIS_MIMESTYLE :: flags where "VIS_MIMESTYLE \<equiv> 0x0100"
abbreviation VIS_HTTP1866 :: flags where "VIS_HTTP1866 \<equiv> 0x0200"
abbreviation VIS_NOESCAPE :: flags where "VIS_NOESCAPE \<equiv> 0x0400"
abbreviation UNVIS_END :: flags where "UNVIS_END \<equiv> 0x0800"
abbreviation VIS_GLOB :: flags where "VIS_GLOB \<equiv> 0x1000"
abbreviation VIS_SHELL :: flags where "VIS_SHELL \<equiv> 0x2000"
abbreviation VIS_DQ :: flags where "VIS_DQ \<equiv> 0x8000"

datatype vis_error = ENOMEM | ENOSPC | EINVAL

section \<open>Encoding one character\<close>

text \<open>\<open>wcschr(l, c) != NULL\<close>: the terminator of the list counts.\<close>

definition wcschr :: "nat list \<Rightarrow> nat \<Rightarrow> bool" where
  "wcschr l c \<longleftrightarrow> c = 0 \<or> c \<in> set l"

definition iswoctal :: "nat \<Rightarrow> bool" where
  "iswoctal c \<longleftrightarrow> 48 \<le> c mod 256 \<and> c mod 256 \<le> 55"

definition iswwhite :: "nat \<Rightarrow> bool" where
  "iswwhite c \<longleftrightarrow> c = 32 \<or> c = 9 \<or> c = 10"

definition iswsafe :: "nat \<Rightarrow> bool" where
  "iswsafe c \<longleftrightarrow> c = 8 \<or> c = 7 \<or> c = 13"

definition xtoa :: "nat \<Rightarrow> nat" where
  "xtoa c = code (''0123456789abcdef'' ! c)"

definition XTOA :: "nat \<Rightarrow> nat" where
  "XTOA c = code (''0123456789ABCDEF'' ! c)"

text \<open>The C escapes of \<open>do_mbyte\<close>, and the characters it will not put after a backslash.\<close>

definition cstyle_escapes :: "(nat \<times> char) list" where
  "cstyle_escapes =
    [(10, CHR ''n''), (13, CHR ''r''), (8, CHR ''b''), (7, CHR ''a''), (11, CHR ''v''),
     (9, CHR ''t''), (12, CHR ''f''), (32, CHR ''s'')]"

definition cstyle_special :: "nat list" where
  "cstyle_special = map code ''nrbavtfs0M^$''"

definition cstyle :: "nat \<Rightarrow> nat \<Rightarrow> nat list option" where
  "cstyle c nextc =
     (case map_of cstyle_escapes c of
        Some l \<Rightarrow> Some [code CHR 0x5C, code l]
      | None \<Rightarrow>
          if c = 0 then Some (map code [CHR 0x5C, CHR ''0''] @
                              (if iswoctal nextc then map code ''00'' else []))
          else if c \<in> set cstyle_special then None
          else if isgraph c \<and> \<not> iswoctal c then Some [code CHR 0x5C, c]
          else None)"

definition octal_escape :: "nat \<Rightarrow> nat list" where
  "octal_escape c =
     [code CHR 0x5C, (c mod 256) div 64 mod 4 + 48, (c mod 256) div 8 mod 8 + 48, c mod 8 + 48]"

definition meta_escape :: "flags \<Rightarrow> nat \<Rightarrow> nat list" where
  "meta_escape flags c =
     (if has flags VIS_NOSLASH then [] else [code CHR 0x5C]) @
     (if c mod 256 \<ge> 128 then [code CHR ''M''] else []) @
     (let c = (if c mod 256 \<ge> 128 then c mod 128 else c)
      in if iscntrl c then [code CHR ''^'', if c = 127 then code CHR ''?'' else c + 64]
         else [code CHR ''-'', c])"

definition do_mbyte :: "nat \<Rightarrow> flags \<Rightarrow> nat \<Rightarrow> bool \<Rightarrow> nat list" where
  "do_mbyte c flags nextc iswextra =
     (case (if has flags VIS_CSTYLE then cstyle c nextc else None) of
        Some out \<Rightarrow> out
      | None \<Rightarrow>
          if iswextra \<or> c mod 128 = 32 \<or> has flags VIS_OCTAL then octal_escape c
          else meta_escape flags c)"

text \<open>
  The loop over the bytes of a wide character, most significant first, that skips the leading
  zero bytes.
\<close>

definition wide_bytes :: "nat \<Rightarrow> nat list" where
  "wide_bytes c =
     concat (map (\<lambda>i. if c div 256 ^ i \<noteq> 0 \<or> i = 0 then [c div 256 ^ i mod 256] else [])
       (rev [0..<8]))"

definition do_svis :: "nat \<Rightarrow> flags \<Rightarrow> nat \<Rightarrow> nat list \<Rightarrow> nat list" where
  "do_svis c flags nextc extra =
     (let iswextra = wcschr extra c in
      if \<not> iswextra \<and> (isgraph c \<or> iswwhite c \<or> (has flags VIS_SAFE \<and> iswsafe c)) then [c]
      else concat (map (\<lambda>b. do_mbyte b flags nextc iswextra) (wide_bytes c)))"

definition do_hvis :: "nat \<Rightarrow> flags \<Rightarrow> nat \<Rightarrow> nat list \<Rightarrow> nat list" where
  "do_hvis c flags nextc extra =
     (if isalnum c \<or> c \<in> set (map code (''$-_.+'' @ ''!*'' @ [CHR 0x27] @ ''(),''))
      then do_svis c flags nextc extra
      else [code CHR ''%'', xtoa (c div 16 mod 16), xtoa (c mod 16)])"

definition do_mvis :: "nat \<Rightarrow> flags \<Rightarrow> nat \<Rightarrow> nat list \<Rightarrow> nat list" where
  "do_mvis c flags nextc extra =
     (if c \<noteq> 10 \<and>
         (isspace c \<and> (nextc = 13 \<or> nextc = 10) \<or>
          \<not> isspace c \<and> (c < 33 \<or> (c > 60 \<and> c < 62) \<or> c > 126) \<or>
          wcschr (map code (''#$@['' @ [CHR 0x5C] @ '']^`{|}~'')) c)
      then [code CHR ''='', XTOA (c div 16 mod 16), XTOA (c mod 16)]
      else do_svis c flags nextc extra)"

definition getvisfun :: "flags \<Rightarrow> nat \<Rightarrow> flags \<Rightarrow> nat \<Rightarrow> nat list \<Rightarrow> nat list" where
  "getvisfun flags =
     (if has flags VIS_HTTPSTYLE then do_hvis
      else if has flags VIS_MIMESTYLE then do_mvis else do_svis)"

section \<open>Encoding a block\<close>

definition char_shell :: "nat list" where
  "char_shell = map code ([CHR 0x27, CHR ''`'', CHR 0x22] @ '';&<>()|{}]'' @ [CHR 0x5C] @ ''$!^~'')"

definition char_glob :: "nat list" where
  "char_glob = map code ''*?[#''"

definition makeextralist :: "flags \<Rightarrow> nat list \<Rightarrow> nat list" where
  "makeextralist flags src =
     src @ (if has flags VIS_GLOB then char_glob else []) @
     (if has flags VIS_SHELL then char_shell else []) @
     (if has flags VIS_SP then [32] else []) @
     (if has flags VIS_TAB then [9] else []) @
     (if has flags VIS_NL then [10] else []) @
     (if has flags VIS_DQ then [34] else []) @
     (if has flags VIS_NOSLASH then [] else [92])"

text \<open>
  The main loop: each character with the one after it in \<open>src\<close>, which is longer than the
  \<open>len\<close> characters encoded by the terminator, or by the look-ahead of a single character.
\<close>

fun encode_loop :: "flags \<Rightarrow> nat list \<Rightarrow> nat \<Rightarrow> nat list \<Rightarrow> nat list" where
  "encode_loop flags extra len [] = []"
| "encode_loop flags extra len (c # src) =
     (if len = 0 then []
      else getvisfun flags c flags (case src of [] \<Rightarrow> 0 | n # _ \<Rightarrow> n) extra @
           encode_loop flags extra (len - 1) src)"

text \<open>
  The output loop, on bytes: \<open>maxolen\<close> counts the terminator.
\<close>

fun output_loop :: "nat \<Rightarrow> nat \<Rightarrow> nat list \<Rightarrow> vis_error + nat list" where
  "output_loop maxolen olen [] = Inr []"
| "output_loop maxolen olen (d # ds) =
     (let bs = wide_bytes d in
      if olen + length bs \<ge> maxolen then Inl ENOSPC
      else rmap (\<lambda>out. bs @ out) (output_loop maxolen (olen + length bs) ds))"

definition SIZE_MAX :: nat where
  "SIZE_MAX = 2 ^ 64 - 1"

definition MB_LEN_MAX :: nat where
  "MB_LEN_MAX = 16"

text \<open>
  \<open>mbsrc\<close> is the memory from the source pointer on, of which \<open>mblength\<close> bytes are encoded and
  one more is read when \<open>mblength\<close> is 1; \<open>None\<close> for \<open>dlen\<close> is the null pointer. The result is
  the bytes before the terminator, the return value their number.
\<close>

definition mem :: "nat list \<Rightarrow> nat \<Rightarrow> nat" where
  "mem m i = (if i < length m then m ! i else 0)"

definition istrsenvisx ::
  "nat option \<Rightarrow> nat list \<Rightarrow> nat \<Rightarrow> flags \<Rightarrow> nat list \<Rightarrow> vis_error + nat list" where
  "istrsenvisx dlen mbsrc mblength flags mbextra =
     (let mbslength = (if mblength = 1 then 2 else mblength) in
      if mbslength > (SIZE_MAX - 1) div 16 then Inl ENOMEM
      else
        let src = map (mem mbsrc) [0..<mbslength];
            extra = makeextralist flags mbextra;
            start = takeWhile (\<lambda>d. d \<noteq> 0) (encode_loop flags extra mblength (src @ [0]))
        in case dlen of
             Some maxolen \<Rightarrow>
               if maxolen = 0 then Inl ENOSPC else output_loop maxolen 0 start
           | None \<Rightarrow>
               if length start > (SIZE_MAX - 1) div MB_LEN_MAX then Inl ENOSPC
               else output_loop (length start * MB_LEN_MAX + 1) 0 start)"

definition strlen :: "nat list \<Rightarrow> nat" where
  "strlen s = length (takeWhile (\<lambda>c. c \<noteq> 0) s)"

definition istrsenvisxl ::
  "nat option \<Rightarrow> nat list \<Rightarrow> flags \<Rightarrow> nat list \<Rightarrow> vis_error + nat list" where
  "istrsenvisxl dlen mbsrc flags mbextra = istrsenvisx dlen mbsrc (strlen mbsrc) flags mbextra"

text \<open>The entry points that the tools use.\<close>

definition svis :: "nat \<Rightarrow> flags \<Rightarrow> nat \<Rightarrow> nat list \<Rightarrow> vis_error + nat list" where
  "svis c flags nextc mbextra = istrsenvisx None [c, nextc] 1 flags mbextra"

definition snvis :: "nat \<Rightarrow> nat \<Rightarrow> flags \<Rightarrow> nat \<Rightarrow> nat list \<Rightarrow> vis_error + nat list" where
  "snvis dlen c flags nextc mbextra = istrsenvisx (Some dlen) [c, nextc] 1 flags mbextra"

definition strsvisx :: "nat list \<Rightarrow> nat \<Rightarrow> flags \<Rightarrow> nat list \<Rightarrow> vis_error + nat list" where
  "strsvisx mbsrc len flags mbextra = istrsenvisx None mbsrc len flags mbextra"

definition strsnvisx :: "nat \<Rightarrow> nat list \<Rightarrow> nat \<Rightarrow> flags \<Rightarrow> nat list \<Rightarrow> vis_error + nat list" where
  "strsnvisx dlen mbsrc len flags mbextra = istrsenvisx (Some dlen) mbsrc len flags mbextra"

definition strsvis :: "nat list \<Rightarrow> flags \<Rightarrow> nat list \<Rightarrow> vis_error + nat list" where
  "strsvis mbsrc flags mbextra = istrsenvisxl None mbsrc flags mbextra"

definition strvis :: "nat list \<Rightarrow> flags \<Rightarrow> vis_error + nat list" where
  "strvis mbsrc flags = istrsenvisxl None mbsrc flags []"

definition strnvis :: "nat \<Rightarrow> nat list \<Rightarrow> flags \<Rightarrow> vis_error + nat list" where
  "strnvis dlen mbsrc flags = istrsenvisxl (Some dlen) mbsrc flags []"

definition strvisx :: "nat list \<Rightarrow> nat \<Rightarrow> flags \<Rightarrow> vis_error + nat list" where
  "strvisx mbsrc len flags = istrsenvisx None mbsrc len flags []"

end
