(* ===== verification/Unvis.thy ===== *)
theory Unvis
  imports Vis
begin

text \<open>
  The decoder of \<open>Library/unvis.c\<close>: a state machine fed one byte at a time, whose state word
  packs the state with an index into the entity name being matched, and the driver
  \<open>strnunvisx\<close>. The character under construction, \<open>*cp\<close>, is a byte that survives from call
  to call.
\<close>

section \<open>The entities of RFC 1866\<close>

definition nv :: "(string \<times> nat) list" where
  "nv =
  [(''AElig'', 198), (''Aacute'', 193), (''Acirc'', 194), (''Agrave'', 192),
   (''Aring'', 197), (''Atilde'', 195), (''Auml'', 196), (''Ccedil'', 199),
   (''ETH'', 208), (''Eacute'', 201), (''Ecirc'', 202), (''Egrave'', 200),
   (''Euml'', 203), (''Iacute'', 205), (''Icirc'', 206), (''Igrave'', 204),
   (''Iuml'', 207), (''Ntilde'', 209), (''Oacute'', 211), (''Ocirc'', 212),
   (''Ograve'', 210), (''Oslash'', 216), (''Otilde'', 213), (''Ouml'', 214),
   (''THORN'', 222), (''Uacute'', 218), (''Ucirc'', 219), (''Ugrave'', 217),
   (''Uuml'', 220), (''Yacute'', 221), (''aacute'', 225), (''acirc'', 226),
   (''acute'', 180), (''aelig'', 230), (''agrave'', 224), (''amp'', 38), (''aring'', 229),
   (''atilde'', 227), (''auml'', 228), (''brvbar'', 166), (''ccedil'', 231),
   (''cedil'', 184), (''cent'', 162), (''copy'', 169), (''curren'', 164), (''deg'', 176),
   (''divide'', 247), (''eacute'', 233), (''ecirc'', 234), (''egrave'', 232),
   (''eth'', 240), (''euml'', 235), (''frac12'', 189), (''frac14'', 188),
   (''frac34'', 190), (''gt'', 62), (''iacute'', 237), (''icirc'', 238), (''iexcl'', 161),
   (''igrave'', 236), (''iquest'', 191), (''iuml'', 239), (''laquo'', 171), (''lt'', 60),
   (''macr'', 175), (''micro'', 181), (''middot'', 183), (''nbsp'', 160), (''not'', 172),
   (''ntilde'', 241), (''oacute'', 243), (''ocirc'', 244), (''ograve'', 242),
   (''ordf'', 170), (''ordm'', 186), (''oslash'', 248), (''otilde'', 245),
   (''ouml'', 246), (''para'', 182), (''plusmn'', 177), (''pound'', 163), (''quot'', 34),
   (''raquo'', 187), (''reg'', 174), (''sect'', 167), (''shy'', 173), (''sup1'', 185),
   (''sup2'', 178), (''sup3'', 179), (''szlig'', 223), (''thorn'', 254), (''times'', 215),
   (''uacute'', 250), (''ucirc'', 251), (''ugrave'', 249), (''uml'', 168),
   (''uuml'', 252), (''yacute'', 253), (''yen'', 165), (''yuml'', 255)]"

text \<open>\<open>name[i]\<close>, as a byte; a name is padded with NULs.\<close>

definition name_char :: "string \<Rightarrow> nat \<Rightarrow> nat" where
  "name_char name i = (if i < length name then code (name ! i) else 0)"

text \<open>
  The search of the state \<open>S_STRING\<close> over the entries from the index \<open>ia\<close> on; \<open>None\<close> is
  \<open>goto bad\<close>.
\<close>

fun nv_search :: "nat \<Rightarrow> nat \<Rightarrow> nat \<Rightarrow> nat \<Rightarrow> (string \<times> nat) list \<Rightarrow> nat option" where
  "nv_search ins lc uc ia [] = None"
| "nv_search ins lc uc ia ((name, v) # es) =
     (if ins \<noteq> 0 \<and> name_char name (ins - 1) \<noteq> lc then None
      else if name_char name ins = uc then Some ia
      else nv_search ins lc uc (ia + 1) es)"

section \<open>The state machine\<close>

datatype unvis_state =
    S_GROUND | S_START | S_META | S_META1 | S_CTRL | S_OCTAL2 | S_OCTAL3 | S_HEX | S_HEX1 | S_HEX2
  | S_MIME1 | S_MIME2 | S_EATCRNL | S_AMP | S_NUMBER | S_STRING

datatype unvis_result = UNVIS_VALID | UNVIS_VALIDPUSH | UNVIS_NOCHAR | UNVIS_SYNBAD

record astate =
  st :: unvis_state
  idx :: nat

definition SS :: "nat \<Rightarrow> unvis_state \<Rightarrow> astate" where
  "SS a b = \<lparr>st = b, idx = a\<rparr>"

type_synonym unvis_step = "unvis_result \<times> nat \<times> astate"

definition isoctal :: "nat \<Rightarrow> bool" where
  "isoctal c \<longleftrightarrow> 48 \<le> c \<and> c \<le> 55"

definition xtod :: "nat \<Rightarrow> nat" where
  "xtod c = (if isdigit c then c - 48 else tolower c - 97 + 10)"

definition XTOD :: "nat \<Rightarrow> nat" where
  "XTOD c = (if isdigit c then c - 48 else c - 65 + 10)"

text \<open>The letters after a backslash that stand for one character.\<close>

definition start_letters :: "(nat \<times> nat) list" where
  "start_letters =
    [(code CHR 0x5C, 92), (code CHR ''n'', 10), (code CHR ''r'', 13), (code CHR ''b'', 8),
     (code CHR ''a'', 7), (code CHR ''v'', 11), (code CHR ''t'', 9), (code CHR ''f'', 12),
     (code CHR ''s'', 32), (code CHR ''E'', 27)]"

definition bad :: "nat \<Rightarrow> unvis_step" where
  "bad cp = (UNVIS_SYNBAD, cp, SS 0 S_GROUND)"

definition unvis_ground :: "nat \<Rightarrow> nat \<Rightarrow> astate \<Rightarrow> flags \<Rightarrow> unvis_step" where
  "unvis_ground cp c a flag =
     (if \<not> has flag VIS_NOESCAPE \<and> c = code CHR 0x5C then (UNVIS_NOCHAR, 0, SS 0 S_START)
      else if has flag VIS_HTTPSTYLE \<and> c = code CHR ''%'' then (UNVIS_NOCHAR, 0, SS 0 S_HEX1)
      else if has flag VIS_HTTP1866 \<and> c = code CHR ''&'' then (UNVIS_NOCHAR, 0, SS 0 S_AMP)
      else if has flag VIS_MIMESTYLE \<and> c = code CHR ''='' then (UNVIS_NOCHAR, 0, SS 0 S_MIME1)
      else (UNVIS_VALID, c, a))"

definition unvis_start :: "nat \<Rightarrow> nat \<Rightarrow> unvis_step" where
  "unvis_start cp c =
     (case map_of start_letters c of
        Some x \<Rightarrow> (UNVIS_VALID, x, SS 0 S_GROUND)
      | None \<Rightarrow>
          if isoctal c then (UNVIS_NOCHAR, c - 48, SS 0 S_OCTAL2)
          else if c = code CHR ''M'' then (UNVIS_NOCHAR, 128, SS 0 S_META)
          else if c = code CHR ''^'' then (UNVIS_NOCHAR, cp, SS 0 S_CTRL)
          else if c = code CHR ''x'' then (UNVIS_NOCHAR, cp, SS 0 S_HEX)
          else if c = 10 \<or> c = code CHR ''$'' then (UNVIS_NOCHAR, cp, SS 0 S_GROUND)
          else if isgraph c then (UNVIS_VALID, c, SS 0 S_GROUND)
          else bad cp)"

definition unvis_string :: "nat \<Rightarrow> nat \<Rightarrow> nat \<Rightarrow> unvis_step" where
  "unvis_string cp ins c =
     (let lc = (if ins = 0 then 0 else name_char (fst (nv ! cp)) (ins - 1));
          uc = (if c = code CHR '';'' then 0 else c)
      in case nv_search ins lc uc cp (drop cp nv) of
           None \<Rightarrow> bad cp
         | Some ia \<Rightarrow>
             if uc \<noteq> 0 then (UNVIS_NOCHAR, ia, SS (ins + 1) S_STRING)
             else (UNVIS_VALID, snd (nv ! ia), SS 0 S_GROUND))"

definition hex1 :: "nat \<Rightarrow> nat \<Rightarrow> unvis_step" where
  "hex1 cp c =
     (if isxdigit c then (UNVIS_NOCHAR, xtod c, SS 0 S_HEX2)
      else (UNVIS_VALIDPUSH, cp, SS 0 S_GROUND))"

definition unvis :: "nat \<Rightarrow> nat \<Rightarrow> astate \<Rightarrow> flags \<Rightarrow> unvis_step" where
  "unvis cp c a flag =
     (if has flag UNVIS_END then
        (if st a = S_OCTAL2 \<or> st a = S_OCTAL3 \<or> st a = S_HEX2 then (UNVIS_VALID, cp, SS 0 S_GROUND)
         else if st a = S_GROUND then (UNVIS_NOCHAR, cp, a)
         else (UNVIS_SYNBAD, cp, a))
      else case st a of
        S_GROUND \<Rightarrow> unvis_ground cp c a flag
      | S_START \<Rightarrow> unvis_start cp c
      | S_META \<Rightarrow>
          if c = code CHR ''-'' then (UNVIS_NOCHAR, cp, SS 0 S_META1)
          else if c = code CHR ''^'' then (UNVIS_NOCHAR, cp, SS 0 S_CTRL)
          else bad cp
      | S_META1 \<Rightarrow> (UNVIS_VALID, cp OR c, SS 0 S_GROUND)
      | S_CTRL \<Rightarrow>
          (UNVIS_VALID, if c = code CHR ''?'' then cp OR 127 else cp OR (c AND 31), SS 0 S_GROUND)
      | S_OCTAL2 \<Rightarrow>
          if isoctal c then (UNVIS_NOCHAR, (cp * 8 + (c - 48)) mod 256, SS 0 S_OCTAL3)
          else (UNVIS_VALIDPUSH, cp, SS 0 S_GROUND)
      | S_OCTAL3 \<Rightarrow>
          if isoctal c then
            (if cp AND 32 \<noteq> 0 then bad cp
             else (UNVIS_VALID, (cp * 8 + (c - 48)) mod 256, SS 0 S_GROUND))
          else (UNVIS_VALIDPUSH, cp, SS 0 S_GROUND)
      | S_HEX \<Rightarrow> if isxdigit c then hex1 cp c else bad cp
      | S_HEX1 \<Rightarrow> hex1 cp c
      | S_HEX2 \<Rightarrow>
          if isxdigit c then (UNVIS_VALID, (xtod c OR cp * 16) mod 256, SS 0 S_GROUND)
          else (UNVIS_VALIDPUSH, cp, SS 0 S_GROUND)
      | S_MIME1 \<Rightarrow>
          if c = 10 \<or> c = 13 then (UNVIS_NOCHAR, cp, SS 0 S_EATCRNL)
          else if isxdigit c \<and> (isdigit c \<or> isupper c) then (UNVIS_NOCHAR, XTOD c, SS 0 S_MIME2)
          else bad cp
      | S_MIME2 \<Rightarrow>
          if isxdigit c \<and> (isdigit c \<or> isupper c)
          then (UNVIS_VALID, (XTOD c OR cp * 16) mod 256, SS 0 S_GROUND)
          else bad cp
      | S_EATCRNL \<Rightarrow>
          if c = 13 \<or> c = 10 then (UNVIS_NOCHAR, cp, a)
          else if c = code CHR ''='' then (UNVIS_NOCHAR, cp, SS 0 S_MIME1)
          else (UNVIS_VALID, c, SS 0 S_GROUND)
      | S_AMP \<Rightarrow>
          if c = code CHR ''#'' then (UNVIS_NOCHAR, 0, SS 0 S_NUMBER) else unvis_string 0 0 c
      | S_STRING \<Rightarrow> unvis_string cp (idx a) c
      | S_NUMBER \<Rightarrow>
          if c = code CHR '';'' then (UNVIS_VALID, cp, a)
          else if \<not> isdigit c then bad cp
          else if int cp * 10 > 255 - int (c - 48) then bad cp
          else (UNVIS_NOCHAR, cp * 10 + c - 48, a))"

text \<open>Only the states that collect digits push a character back, and they end in \<open>S_GROUND\<close>.\<close>

lemma no_push:
  "unvis_ground cp c a flag \<noteq> (UNVIS_VALIDPUSH, cp', a')" "unvis_start cp c \<noteq> (UNVIS_VALIDPUSH, cp', a')"
  "unvis_string cp n c \<noteq> (UNVIS_VALIDPUSH, cp', a')" "bad cp \<noteq> (UNVIS_VALIDPUSH, cp', a')"
  by (simp_all add: unvis_ground_def unvis_start_def unvis_string_def bad_def Let_def split: option.split)

lemma st_SS [simp]: "st (SS i s) = s"
  by (simp add: SS_def)

lemma validpush_ground:
  "unvis cp c a flag = (UNVIS_VALIDPUSH, cp', a') \<Longrightarrow> st a \<noteq> S_GROUND \<and> st a' = S_GROUND"
  by (cases "st a") (auto simp: unvis_def hex1_def no_push split: if_splits)

section \<open>Decoding a string\<close>

text \<open>
  The loop of \<open>strnunvisx\<close> with the end of the string: \<open>t\<close> is the byte under construction. The
  jump \<open>again\<close> feeds the same character to the machine a second time.
\<close>

function decode_loop ::
  "flags \<Rightarrow> nat \<Rightarrow> nat \<Rightarrow> astate \<Rightarrow> nat list \<Rightarrow> vis_error + nat list" where
  "decode_loop flag dlen t a [] =
     (case unvis t 0 a UNVIS_END of
        (UNVIS_VALID, t', _) \<Rightarrow>
          if dlen = 0 then Inl ENOSPC
          else if dlen = 1 then Inl ENOSPC
          else Inr [t']
      | _ \<Rightarrow> if dlen = 0 then Inl ENOSPC else Inr [])"
| "decode_loop flag dlen t a (c # src) =
     (case unvis t c a flag of
        (UNVIS_VALID, t', a') \<Rightarrow>
          if dlen = 0 then Inl ENOSPC
          else rmap (\<lambda>out. t' # out) (decode_loop flag (dlen - 1) t' a' src)
      | (UNVIS_VALIDPUSH, t', a') \<Rightarrow>
          if dlen = 0 then Inl ENOSPC
          else rmap (\<lambda>out. t' # out) (decode_loop flag (dlen - 1) t' a' (c # src))
      | (UNVIS_NOCHAR, t', a') \<Rightarrow> decode_loop flag dlen t' a' src
      | (UNVIS_SYNBAD, _, _) \<Rightarrow> Inl EINVAL)"
  by pat_completeness auto
termination
  by (relation "measure (\<lambda>(_, _, _, a, src). 2 * length src + of_bool (st a \<noteq> S_GROUND))")
    (auto dest!: sym [of _ "unvis _ _ _ _"] validpush_ground)

definition strnunvisx :: "nat \<Rightarrow> nat list \<Rightarrow> flags \<Rightarrow> vis_error + nat list" where
  "strnunvisx dlen src flag =
     decode_loop flag dlen 0 (SS 0 S_GROUND) (takeWhile (\<lambda>c. c \<noteq> 0) src)"

definition strunvisx :: "nat list \<Rightarrow> flags \<Rightarrow> vis_error + nat list" where
  "strunvisx src flag = strnunvisx SIZE_MAX src flag"

definition strunvis :: "nat list \<Rightarrow> vis_error + nat list" where
  "strunvis src = strnunvisx SIZE_MAX src 0"

definition strnunvis :: "nat \<Rightarrow> nat list \<Rightarrow> vis_error + nat list" where
  "strnunvis dlen src = strnunvisx dlen src 0"

end
