(* ===== verification/VisRoundTrip.thy ===== *)
theory VisRoundTrip
  imports Unvis
begin

text \<open>
  What \<open>vis\<close> and \<open>unvis\<close> promise together: every byte's encoding decodes to the byte, whatever
  follows it, so \<open>strunvisx\<close> inverts \<open>strsvisx\<close>; the size of the encoding; and what it can
  contain.
\<close>

section \<open>The shape of an encoding\<close>

lemma wide_bytes_byte [simp]:
  assumes "c < 256" shows "wide_bytes c = [c]"
proof -
  have "c div 256 ^ i = 0" if "i \<noteq> 0" for i
    using assms self_le_power [of 256 i] that by (intro div_less) (auto elim: less_le_trans)
  moreover have "[0..<8] = 0 # [1..<8]" by (simp add: upt_rec)
  ultimately show ?thesis using assms by (auto simp: wide_bytes_def concat_eq_Nil_conv)
qed

lemma do_svis_byte:
  "c < 256 \<Longrightarrow> do_svis c flags nextc extra =
     (if \<not> wcschr extra c \<and> (isgraph c \<or> iswwhite c \<or> (has flags VIS_SAFE \<and> iswsafe c)) then [c]
      else do_mbyte c flags nextc (wcschr extra c))"
  by (simp add: do_svis_def Let_def)

text \<open>
  \<open>plain\<close>: one to four bytes, none of them NUL, and only a literal starts with an octal digit.
\<close>

definition plain :: "nat \<Rightarrow> nat list \<Rightarrow> bool" where
  "plain c bs \<longleftrightarrow> bs \<noteq> [] \<and> length bs \<le> 4 \<and> (\<forall>b\<in>set bs. 0 < b \<and> b < 256) \<and>
     (isoctal (hd bs) \<longrightarrow> hd bs = c)"

lemma plain_literal: "0 < c \<Longrightarrow> c < 256 \<Longrightarrow> plain c [c]"
  by (simp add: plain_def)

lemma plain_octal: "plain c (octal_escape c)"
  by (auto simp: plain_def octal_escape_def isoctal_def)

lemma plain_meta:
  assumes "c < 256" and "0 < c" and "\<not> has flags VIS_NOSLASH"
  shows "plain c (meta_escape flags c)"
proof (cases "c \<ge> 128")
  case True
  then have "c mod 128 < 128" "c mod 256 = c" using assms by auto
  with True assms show ?thesis
    by (auto simp: plain_def meta_escape_def isoctal_def iscntrl_def Let_def)
next
  case False
  with assms show ?thesis
    by (auto simp: plain_def meta_escape_def isoctal_def iscntrl_def Let_def)
qed

lemma cstyle_cases:
  assumes "cstyle c nextc = Some out"
  obtains (escape) l where "(c, l) \<in> set cstyle_escapes" "out = [92, code l]"
    | (nul) "c = 0" "out = (if iswoctal nextc then [92, 48, 48, 48] else [92, 48])"
    | (self) "isgraph c" "\<not> iswoctal c" "c \<notin> set cstyle_special" "out = [92, c]"
  using assms unfolding cstyle_def
  by (auto split: option.splits if_splits dest: map_of_SomeD)

lemma plain_cstyle: "cstyle c nextc = Some out \<Longrightarrow> plain c out"
  by (erule cstyle_cases)
    (auto simp: plain_def isoctal_def isgraph_def cstyle_escapes_def split: if_splits)

lemma plain_svis:
  assumes "c < 256" and "\<not> has flags VIS_NOSLASH"
  shows "plain c (do_svis c flags nextc extra)"
proof (cases "\<not> wcschr extra c \<and> (isgraph c \<or> iswwhite c \<or> (has flags VIS_SAFE \<and> iswsafe c))")
  case True
  then have "0 < c" by (auto simp: wcschr_def)
  with True assms show ?thesis by (simp add: do_svis_byte plain_literal)
next
  case False
  have "0 < c" if "\<not> wcschr extra c" using that by (auto simp: wcschr_def)
  with False assms show ?thesis
    by (auto simp: do_svis_byte do_mbyte_def intro: plain_octal plain_meta plain_cstyle
      split: option.split if_splits)
qed

lemma hex_digit:
  assumes "n < 16"
  shows "xtoa n \<in> {48..57} \<union> {97..102}" "isxdigit (xtoa n)" "xtod (xtoa n) = n"
    and "XTOA n \<in> {48..57} \<union> {65..70}" "isxdigit (XTOA n)" "XTOD (XTOA n) = n"
    and "isdigit (XTOA n) \<or> isupper (XTOA n)"
proof -
  have "list_all (\<lambda>n. xtoa n \<in> {48..57} \<union> {97..102} \<and> isxdigit (xtoa n) \<and> xtod (xtoa n) = n \<and>
      XTOA n \<in> {48..57} \<union> {65..70} \<and> isxdigit (XTOA n) \<and> XTOD (XTOA n) = n \<and>
      (isdigit (XTOA n) \<or> isupper (XTOA n))) [0..<16]"
    by code_simp
  from all_below [OF this assms] show "xtoa n \<in> {48..57} \<union> {97..102}" "isxdigit (xtoa n)"
    "xtod (xtoa n) = n" "XTOA n \<in> {48..57} \<union> {65..70}" "isxdigit (XTOA n)" "XTOD (XTOA n) = n"
    "isdigit (XTOA n) \<or> isupper (XTOA n)"
    by simp_all
qed

lemma plain_hex:
  "a \<in> {37, 61} \<Longrightarrow> m < 16 \<Longrightarrow> n < 16 \<Longrightarrow> plain c [a, xtoa m, xtoa n]"
  "a \<in> {37, 61} \<Longrightarrow> m < 16 \<Longrightarrow> n < 16 \<Longrightarrow> plain c [a, XTOA m, XTOA n]"
  using hex_digit(1,4) [of m] hex_digit(1,4) [of n] by (auto simp: plain_def isoctal_def)

lemma if_either: "(if P then a else b) = a \<or> (if P then a else b) = b"
  by simp

lemma equals_sign: "code CHR ''='' = 61"
  by simp

lemma do_mvis_escapes:
  "c \<in> {61, 92} \<Longrightarrow>
     do_mvis c flags nextc extra = [61, XTOA (c div 16 mod 16), XTOA (c mod 16)]"
proof -
  have "do_mvis 61 flags nextc extra = [61, XTOA (61 div 16 mod 16), XTOA (61 mod 16)]"
    "do_mvis 92 flags nextc extra = [61, XTOA (92 div 16 mod 16), XTOA (92 mod 16)]"
    by (simp_all add: do_mvis_def isspace_def wcschr_def)
  then show "c \<in> {61, 92} \<Longrightarrow> ?thesis" by blast
qed

lemma visfun_cases:
  obtains (svis) "getvisfun flags c flags nextc extra = do_svis c flags nextc extra"
      "has flags VIS_HTTPSTYLE \<Longrightarrow> c \<notin> {37, 38, 61, 92}"
      "\<not> has flags VIS_HTTPSTYLE \<Longrightarrow> has flags VIS_MIMESTYLE \<Longrightarrow> c \<notin> {61, 92}"
    | (http) "has flags VIS_HTTPSTYLE"
      "getvisfun flags c flags nextc extra = [37, xtoa (c div 16 mod 16), xtoa (c mod 16)]"
    | (mime) "\<not> has flags VIS_HTTPSTYLE" "has flags VIS_MIMESTYLE"
      "getvisfun flags c flags nextc extra = [61, XTOA (c div 16 mod 16), XTOA (c mod 16)]"
proof (cases "has flags VIS_HTTPSTYLE")
  case http: True
  then have f: "getvisfun flags c flags nextc extra = do_hvis c flags nextc extra"
    by (simp add: getvisfun_def)
  show ?thesis
  proof (cases "isalnum c \<or> c \<in> set (map code (''$-_.+'' @ ''!*'' @ [CHR 0x27] @ ''(),''))")
    case True
    then have "c \<notin> {37, 38, 61, 92}" by (auto simp: ctype_simps)
    with True http f show ?thesis using that(1) by (simp add: do_hvis_def)
  next
    case False
    with http f show ?thesis using that(2) by (simp add: do_hvis_def)
  qed
next
  case no_http: False
  show ?thesis
  proof (cases "has flags VIS_MIMESTYLE")
    case mime: True
    then have f: "getvisfun flags c flags nextc extra = do_mvis c flags nextc extra"
      using no_http by (simp add: getvisfun_def)
    show ?thesis
    proof (cases "c \<in> {61, 92}")
      case True
      then have "do_mvis c flags nextc extra = [61, XTOA (c div 16 mod 16), XTOA (c mod 16)]"
        using do_mvis_escapes by blast
      with mime no_http f show ?thesis using that(3) by simp
    next
      case False
      have "do_mvis c flags nextc extra = [61, XTOA (c div 16 mod 16), XTOA (c mod 16)] \<or>
          do_mvis c flags nextc extra = do_svis c flags nextc extra"
        unfolding do_mvis_def equals_sign by (rule if_either)
      with mime no_http f False show ?thesis using that(1,3) by auto
    qed
  next
    case False
    with no_http show ?thesis using that(1) by (simp add: getvisfun_def)
  qed
qed

lemma plain_visfun:
  assumes "c < 256" and "\<not> has flags VIS_NOSLASH"
  shows "plain c (getvisfun flags c flags nextc extra)"
  by (rule visfun_cases [of flags c nextc extra]) (use plain_svis [OF assms] in \<open>simp_all add: plain_hex\<close>)

section \<open>Decoding one encoding\<close>

abbreviation G :: astate where
  "G \<equiv> SS 0 S_GROUND"

text \<open>In the ground state the byte left by the last character does not matter.\<close>

lemma ground_step [simp]: "unvis t c G flag =
    (if has flag UNVIS_END then (UNVIS_NOCHAR, t, G) else unvis_ground 0 c G flag)"
  by (simp add: unvis_def unvis_ground_def)

lemma end_flag [simp]: "has UNVIS_END UNVIS_END"
  by (simp add: has_def)

lemma decode_ground:
  "\<not> has flag UNVIS_END \<Longrightarrow> decode_loop flag d t G src = decode_loop flag d 0 G src"
  by (cases src) simp_all

lemma nochar_step:
  "unvis t c a flag = (UNVIS_NOCHAR, t', a') \<Longrightarrow>
     decode_loop flag d t a (c # src) = decode_loop flag d t' a' src"
  by simp

lemma valid_step:
  "unvis t c a flag = (UNVIS_VALID, t', G) \<Longrightarrow> \<not> has flag UNVIS_END \<Longrightarrow>
     decode_loop flag (Suc d) t a (c # src) = rmap (Cons t') (decode_loop flag d 0 G src)"
  using decode_ground [of flag d t' src] by simp

text \<open>
  \<open>yields\<close>: from the ground state these bytes decode to the one character \<open>c\<close>, and the machine
  is in the ground state before \<open>rest\<close>.
\<close>

definition yields :: "flags \<Rightarrow> nat list \<Rightarrow> nat \<Rightarrow> nat list \<Rightarrow> bool" where
  "yields flag bs c rest \<longleftrightarrow>
     (\<forall>d. decode_loop flag (Suc d) 0 G (bs @ rest) = rmap (Cons c) (decode_loop flag d 0 G rest))"

lemma yields_1:
  "unvis 0 b1 G flag = (UNVIS_VALID, c, G) \<Longrightarrow> \<not> has flag UNVIS_END \<Longrightarrow> yields flag [b1] c rest"
  unfolding yields_def append_Cons append_Nil by (simp add: valid_step del: decode_loop.simps ground_step)

lemma yields_more:
  assumes "unvis 0 b1 G flag = (UNVIS_NOCHAR, t2, a2)" and "unvis t2 b2 a2 flag = (UNVIS_VALID, c, G)"
    and "\<not> has flag UNVIS_END"
  shows "yields flag [b1, b2] c rest"
  unfolding yields_def append_Cons append_Nil nochar_step [OF assms(1)]
    valid_step [OF assms(2,3)] by simp

lemma yields_3:
  assumes "unvis 0 b1 G flag = (UNVIS_NOCHAR, t2, a2)" and "unvis t2 b2 a2 flag = (UNVIS_NOCHAR, t3, a3)"
    and "unvis t3 b3 a3 flag = (UNVIS_VALID, c, G)" and "\<not> has flag UNVIS_END"
  shows "yields flag [b1, b2, b3] c rest"
  unfolding yields_def append_Cons append_Nil nochar_step [OF assms(1)] nochar_step [OF assms(2)]
    valid_step [OF assms(3,4)] by simp

lemma yields_4:
  assumes "unvis 0 b1 G flag = (UNVIS_NOCHAR, t2, a2)" and "unvis t2 b2 a2 flag = (UNVIS_NOCHAR, t3, a3)"
    and "unvis t3 b3 a3 flag = (UNVIS_NOCHAR, t4, a4)"
    and "unvis t4 b4 a4 flag = (UNVIS_VALID, c, G)" and "\<not> has flag UNVIS_END"
  shows "yields flag [b1, b2, b3, b4] c rest"
  unfolding yields_def append_Cons append_Nil nochar_step [OF assms(1)] nochar_step [OF assms(2)]
    nochar_step [OF assms(3)] valid_step [OF assms(4,5)] by simp

text \<open>The flags that turn the backslash off or change the machine altogether are absent.\<close>

definition decodable :: "flags \<Rightarrow> bool" where
  "decodable flag \<longleftrightarrow> \<not> has flag VIS_NOESCAPE \<and> \<not> has flag UNVIS_END"

lemma start_step:
  "decodable flag \<Longrightarrow> unvis 0 92 G flag = (UNVIS_NOCHAR, 0, SS 0 S_START)"
  by (simp add: decodable_def unvis_ground_def)

lemma yields_literal:
  assumes "decodable flag" and "c \<noteq> 92"
    and "has flag VIS_HTTPSTYLE \<Longrightarrow> c \<noteq> 37" and "has flag VIS_MIMESTYLE \<Longrightarrow> c \<noteq> 61"
    and "has flag VIS_HTTP1866 \<Longrightarrow> c \<noteq> 38"
  shows "yields flag [c] c rest"
  using assms by (intro yields_1) (auto simp: decodable_def unvis_ground_def)

lemma yields_start:
  assumes "decodable flag" and "unvis_start 0 l = (UNVIS_VALID, c, G)"
  shows "yields flag [92, l] c rest"
  using assms by (intro yields_more [OF start_step]) (simp_all add: decodable_def unvis_def)

lemma start_octal: "isoctal c \<Longrightarrow> unvis_start t c = (UNVIS_NOCHAR, c - 48, SS 0 S_OCTAL2)"
  by (auto simp: unvis_start_def start_letters_def isoctal_def)

lemma no_bit5: "n < 32 \<Longrightarrow> (n :: nat) AND 32 = 0"
  by (rule all_below [of "\<lambda>n. n AND 32 = (0 :: nat)" 32]) code_simp

lemma octal_steps:
  assumes "\<not> has flag UNVIS_END" and "n < 8"
  shows "unvis t (n + 48) (SS 0 S_START) flag = (UNVIS_NOCHAR, n, SS 0 S_OCTAL2)"
    and "t < 8 \<Longrightarrow> unvis t (n + 48) (SS 0 S_OCTAL2) flag = (UNVIS_NOCHAR, t * 8 + n, SS 0 S_OCTAL3)"
    and "t < 32 \<Longrightarrow> unvis t (n + 48) (SS 0 S_OCTAL3) flag = (UNVIS_VALID, t * 8 + n, G)"
  using assms by (simp_all add: unvis_def start_octal isoctal_def no_bit5)

lemma yields_octal:
  assumes "decodable flag" and "c < 256"
  shows "yields flag (octal_escape c) c rest"
proof -
  have f: "\<not> has flag UNVIS_END" using assms by (simp add: decodable_def)
  have a: "c div 64 < 4" "c mod 256 div 64 mod 4 = c div 64" using assms by simp_all
  have "c div 64 = c div 8 div 8" by (simp flip: div_mult2_eq)
  then have b: "c div 64 * 8 + c div 8 mod 8 = c div 8" "c mod 256 div 8 mod 8 = c div 8 mod 8"
    using assms by simp_all
  have c: "c div 8 < 32" "c div 8 * 8 + c mod 8 = c" using assms by simp_all
  have "unvis (c div 64) (c div 8 mod 8 + 48) (SS 0 S_OCTAL2) flag =
      (UNVIS_NOCHAR, c div 8, SS 0 S_OCTAL3)"
    using octal_steps(2) [OF f, of "c div 8 mod 8" "c div 64"] a b by simp
  moreover have "unvis (c div 8) (c mod 8 + 48) (SS 0 S_OCTAL3) flag = (UNVIS_VALID, c, G)"
    using octal_steps(3) [OF f, of "c mod 8" "c div 8"] c by simp
  moreover have "unvis 0 (c div 64 + 48) (SS 0 S_START) flag = (UNVIS_NOCHAR, c div 64, SS 0 S_OCTAL2)"
    using octal_steps(1) [OF f, of "c div 64"] a by simp
  ultimately show ?thesis
    using yields_4 [OF start_step [OF assms(1)] _ _ _ f] by (simp add: octal_escape_def a b)
qed

lemma yields_short_octal:
  assumes "decodable flag" and "rest = [] \<or> \<not> isoctal (hd rest)"
  shows "yields flag [92, 48] 0 rest"
proof (cases rest)
  case Nil
  with assms show ?thesis
    by (simp add: yields_def decodable_def unvis_ground_def unvis_def start_octal isoctal_def)
next
  case (Cons r rs)
  have "decode_loop flag (Suc d) 0 G (92 # 48 # rest) =
      decode_loop flag (Suc d) 0 (SS 0 S_OCTAL2) rest" for d
    using assms(1)
    by (subst nochar_step [OF start_step [OF assms(1)]], subst nochar_step)
      (simp_all add: unvis_def start_octal isoctal_def decodable_def del: decode_loop.simps)
  moreover have "unvis 0 r (SS 0 S_OCTAL2) flag = (UNVIS_VALIDPUSH, 0, G)"
    using assms Cons by (simp add: unvis_def decodable_def)
  ultimately show ?thesis
    using Cons by (simp add: yields_def)
qed

lemma ctrl_bits:
  fixes k :: nat
  assumes "k < 32"
  shows "(k + 64) AND 31 = k"
proof -
  have "list_all (\<lambda>k. (k + 64) AND 31 = k) [0..<32]" by code_simp
  from all_below [OF this assms] show "(k + 64) AND 31 = k" by simp
qed

lemma meta_bits: "k < 128 \<Longrightarrow> (128 :: nat) OR k = 128 + k"
  by (rule all_below [of "\<lambda>k. (128 :: nat) OR k = 128 + k" 128]) code_simp

lemma meta_steps:
  assumes "\<not> has flag UNVIS_END"
  shows "unvis t 77 (SS 0 S_START) flag = (UNVIS_NOCHAR, 128, SS 0 S_META)"
    and "unvis t 94 (SS 0 S_START) flag = (UNVIS_NOCHAR, t, SS 0 S_CTRL)"
    and "unvis t 45 (SS 0 S_META) flag = (UNVIS_NOCHAR, t, SS 0 S_META1)"
    and "unvis t 94 (SS 0 S_META) flag = (UNVIS_NOCHAR, t, SS 0 S_CTRL)"
    and "unvis t c (SS 0 S_META1) flag = (UNVIS_VALID, t OR c, G)"
    and "unvis t 63 (SS 0 S_CTRL) flag = (UNVIS_VALID, t OR 127, G)"
    and "k < 32 \<Longrightarrow> unvis t (k + 64) (SS 0 S_CTRL) flag = (UNVIS_VALID, t OR k, G)"
  using assms by (simp_all add: unvis_def unvis_start_def start_letters_def isoctal_def ctrl_bits)

lemma yields_meta:
  assumes "decodable flag" and "\<not> has flags VIS_NOSLASH" and "c < 256"
    and "c \<ge> 128 \<or> iscntrl c"
  shows "yields flag (meta_escape flags c) c rest"
proof -
  have f: "\<not> has flag UNVIS_END" using assms by (simp add: decodable_def)
  note start = start_step [OF assms(1)]
  show ?thesis
  proof (cases "c \<ge> 128")
    case True
    define k where "k = c mod 128"
    have k: "k < 128" "c = 128 + k" using True assms(3) by (auto simp: k_def mod_if)
    then have e: "meta_escape flags c =
        (if iscntrl k then [92, 77, 94, if k = 127 then 63 else k + 64] else [92, 77, 45, k])"
      using assms(2,3) True by (simp add: meta_escape_def k_def [symmetric] Let_def)
    show ?thesis
    proof (cases "iscntrl k")
      case True
      then have "k < 32 \<or> k = 127" by (simp add: iscntrl_def)
      then show ?thesis
        using yields_4 [OF start meta_steps(1,4) [OF f] meta_steps(7) [OF f] f, of k]
          yields_4 [OF start meta_steps(1,4,6) [OF f] f] e True k(2)
        by (auto simp: meta_bits)
    next
      case False
      then show ?thesis
        using yields_4 [OF start meta_steps(1,3,5) [OF f] f, of k] e k by (simp add: meta_bits)
    qed
  next
    case False
    with assms have "c < 32 \<or> c = 127" by (simp add: iscntrl_def)
    moreover from this have "meta_escape flags c = [92, 94, if c = 127 then 63 else c + 64]"
      using assms by (auto simp: meta_escape_def iscntrl_def)
    ultimately show ?thesis
      using yields_3 [OF start meta_steps(2) [OF f] meta_steps(7) [OF f] f, of c]
        yields_3 [OF start meta_steps(2,6) [OF f] f]
      by auto
  qed
qed

lemma nibbles:
  assumes "c < 256" shows "(c mod 16 OR c div 16 * 16) mod 256 = (c :: nat)"
proof -
  have "take_bit 4 c OR push_bit 4 (drop_bit 4 c) = c"
    by (rule bit_eqI, auto simp: bit_simps) (metis le_add_diff_inverse not_less)
  with assms show ?thesis by (simp add: take_bit_eq_mod push_bit_eq_mult drop_bit_eq_div)
qed

lemma hex_steps:
  assumes "\<not> has flag UNVIS_END" and "n < 16"
  shows "unvis t (xtoa n) (SS 0 S_HEX1) flag = (UNVIS_NOCHAR, n, SS 0 S_HEX2)"
    and "unvis t (xtoa n) (SS 0 S_HEX2) flag = (UNVIS_VALID, (n OR t * 16) mod 256, G)"
    and "unvis t (XTOA n) (SS 0 S_MIME1) flag = (UNVIS_NOCHAR, n, SS 0 S_MIME2)"
    and "unvis t (XTOA n) (SS 0 S_MIME2) flag = (UNVIS_VALID, (n OR t * 16) mod 256, G)"
proof -
  note h = hex_digit [OF assms(2)]
  show "unvis t (xtoa n) (SS 0 S_HEX1) flag = (UNVIS_NOCHAR, n, SS 0 S_HEX2)"
    "unvis t (xtoa n) (SS 0 S_HEX2) flag = (UNVIS_VALID, (n OR t * 16) mod 256, G)"
    using assms(1) h(2,3) by (simp_all add: unvis_def hex1_def)
  have "XTOA n \<noteq> 10" "XTOA n \<noteq> 13" using h(4) by auto
  then show "unvis t (XTOA n) (SS 0 S_MIME1) flag = (UNVIS_NOCHAR, n, SS 0 S_MIME2)"
    "unvis t (XTOA n) (SS 0 S_MIME2) flag = (UNVIS_VALID, (n OR t * 16) mod 256, G)"
    using assms(1) h(5,6,7) by (simp_all add: unvis_def)
qed

lemma yields_hex:
  assumes "decodable flag" and "c < 256"
  shows "has flag VIS_HTTPSTYLE \<Longrightarrow> yields flag [37, xtoa (c div 16 mod 16), xtoa (c mod 16)] c rest"
    and "has flag VIS_MIMESTYLE \<Longrightarrow> yields flag [61, XTOA (c div 16 mod 16), XTOA (c mod 16)] c rest"
proof -
  have f: "\<not> has flag UNVIS_END" "\<not> has flag VIS_NOESCAPE" using assms by (simp_all add: decodable_def)
  have n: "c div 16 < 16" "c mod 16 < 16" "c div 16 mod 16 = c div 16" using assms(2) by simp_all
  note h = hex_steps [OF f(1) n(1)] hex_steps(2,4) [OF f(1) n(2), of "c div 16", unfolded nibbles [OF assms(2)]]
  have "unvis 0 37 G flag = (UNVIS_NOCHAR, 0, SS 0 S_HEX1)" if "has flag VIS_HTTPSTYLE"
    using that f by (simp add: unvis_ground_def)
  from yields_3 [OF this h(1,5) f(1)]
  show "has flag VIS_HTTPSTYLE \<Longrightarrow> yields flag [37, xtoa (c div 16 mod 16), xtoa (c mod 16)] c rest"
    by (simp add: n(3))
  have "unvis 0 61 G flag = (UNVIS_NOCHAR, 0, SS 0 S_MIME1)" if "has flag VIS_MIMESTYLE"
    using that f by (simp add: unvis_ground_def)
  from yields_3 [OF this h(3,6) f(1)]
  show "has flag VIS_MIMESTYLE \<Longrightarrow> yields flag [61, XTOA (c div 16 mod 16), XTOA (c mod 16)] c rest"
    by (simp add: n(3))
qed

lemma escapes_decode:
  "list_all (\<lambda>(c, l). unvis_start 0 (code l) = (UNVIS_VALID, c, G)) cstyle_escapes"
  by code_simp

lemma yields_cstyle:
  assumes "decodable flag" and "cstyle c nextc = Some out" and "c \<notin> {120, 69}"
    and "rest \<noteq> [] \<and> isoctal (hd rest) \<Longrightarrow> iswoctal nextc"
  shows "yields flag out c rest"
  using assms(2)
proof (cases rule: cstyle_cases)
  case (escape l)
  then have "unvis_start 0 (code l) = (UNVIS_VALID, c, G)"
    using escapes_decode by (auto simp: list_all_iff)
  with escape assms(1) show ?thesis by (simp add: yields_start)
next
  case nul
  have "octal_escape 0 = [92, 48, 48, 48]" by (simp add: octal_escape_def)
  with nul assms yields_octal [OF assms(1), of 0 rest] yields_short_octal [OF assms(1), of rest]
  show ?thesis by auto
next
  case self
  have "c \<noteq> 110 \<and> c \<noteq> 114 \<and> c \<noteq> 98 \<and> c \<noteq> 97 \<and> c \<noteq> 118 \<and> c \<noteq> 116 \<and> c \<noteq> 102 \<and> c \<noteq> 115 \<and>
      c \<noteq> 48 \<and> c \<noteq> 77 \<and> c \<noteq> 94 \<and> c \<noteq> 36"
    using self(3) by (simp add: cstyle_special_def)
  moreover have "\<not> isoctal c" "c \<noteq> 10"
    using self(1,2) by (auto simp: isoctal_def iswoctal_def isgraph_def)
  ultimately have "unvis_start 0 c = (UNVIS_VALID, c, G)"
    using assms(3) self(1) by (cases "c = 92") (simp_all add: unvis_start_def start_letters_def)
  with self assms(1) show ?thesis by (simp add: yields_start)
qed

text \<open>The characters that \<open>VIS_CSTYLE\<close> cannot protect are absent from the list of extras.\<close>

definition cstyle_ok :: "flags \<Rightarrow> nat list \<Rightarrow> bool" where
  "cstyle_ok flags extra \<longleftrightarrow> (has flags VIS_CSTYLE \<longrightarrow> 120 \<notin> set extra \<and> 69 \<notin> set extra)"

lemma yields_svis:
  assumes "decodable flags" and "\<not> has flags VIS_NOSLASH" and "c < 256"
    and "cstyle_ok flags extra" and "92 \<in> set extra"
    and "rest \<noteq> [] \<and> isoctal (hd rest) \<Longrightarrow> iswoctal nextc"
    and "has flags VIS_HTTPSTYLE \<Longrightarrow> c \<noteq> 37" and "has flags VIS_MIMESTYLE \<Longrightarrow> c \<noteq> 61"
    and "has flags VIS_HTTP1866 \<Longrightarrow> c \<noteq> 38"
  shows "yields flags (do_svis c flags nextc extra) c rest"
proof (cases "\<not> wcschr extra c \<and> (isgraph c \<or> iswwhite c \<or> (has flags VIS_SAFE \<and> iswsafe c))")
  case True
  then have "c \<noteq> 92" using assms(5) by (auto simp: wcschr_def)
  with True assms show ?thesis by (simp add: do_svis_byte yields_literal)
next
  case False
  then have s: "do_svis c flags nextc extra = do_mbyte c flags nextc (wcschr extra c)"
    using assms(3) by (simp only: do_svis_byte if_False)
  show ?thesis
  proof (cases "if has flags VIS_CSTYLE then cstyle c nextc else None")
    case (Some out)
    then have cs: "has flags VIS_CSTYLE" "cstyle c nextc = Some out" by (auto split: if_splits)
    moreover have "c \<notin> {120, 69}"
      using False cs(1) assms(4) by (auto simp: cstyle_ok_def wcschr_def isgraph_def)
    ultimately show ?thesis
      using assms(1,6) s Some by (simp add: do_mbyte_def yields_cstyle)
  next
    case None
    have "c \<ge> 128 \<or> iscntrl c" if "\<not> wcschr extra c"
      using False that assms(3) by (auto simp: isgraph_def iswwhite_def iscntrl_def)
    with None s assms(1-3) show ?thesis
      by (auto simp: do_mbyte_def intro: yields_octal yields_meta)
  qed
qed

section \<open>Round trip\<close>

text \<open>The flags under which \<open>strunvisx\<close> inverts the encoding.\<close>

definition invertible :: "flags \<Rightarrow> nat list \<Rightarrow> bool" where
  "invertible flags mbextra \<longleftrightarrow>
     \<not> has flags VIS_NOSLASH \<and> \<not> has flags VIS_NOESCAPE \<and> \<not> has flags UNVIS_END \<and>
     (has flags VIS_HTTP1866 \<longrightarrow> has flags VIS_HTTPSTYLE) \<and>
     (has flags VIS_CSTYLE \<longrightarrow> code CHR ''x'' \<notin> set mbextra \<and> code CHR ''E'' \<notin> set mbextra)"

lemma extras_ok:
  "invertible flags mbextra \<Longrightarrow>
     92 \<in> set (makeextralist flags mbextra) \<and> cstyle_ok flags (makeextralist flags mbextra)"
  by (auto simp: invertible_def makeextralist_def cstyle_ok_def char_glob_def char_shell_def
    split: if_splits)

lemma yields_visfun:
  assumes "invertible flags mbextra" and "c < 256"
    and "rest \<noteq> [] \<and> isoctal (hd rest) \<Longrightarrow> iswoctal nextc"
  shows "yields flags (getvisfun flags c flags nextc (makeextralist flags mbextra)) c rest"
proof -
  have d: "decodable flags" "\<not> has flags VIS_NOSLASH"
    using assms(1) by (simp_all add: invertible_def decodable_def)
  note x = extras_ok [OF assms(1)]
  show ?thesis
  proof (cases rule: visfun_cases [of flags c nextc "makeextralist flags mbextra"])
    case svis
    have "has flags VIS_HTTPSTYLE \<Longrightarrow> c \<noteq> 37" "has flags VIS_MIMESTYLE \<Longrightarrow> c \<noteq> 61"
      "has flags VIS_HTTP1866 \<Longrightarrow> c \<noteq> 38"
      using svis(2,3) assms(1) by (auto simp: invertible_def)
    with svis(1) d x assms(2,3) show ?thesis by (simp add: yields_svis)
  next
    case http
    then show ?thesis using yields_hex(1) [OF d(1) assms(2)] by metis
  next
    case mime
    then show ?thesis using yields_hex(2) [OF d(1) assms(2)] by metis
  qed
qed

text \<open>The whole encoding: its bytes and its length, and that it decodes.\<close>

lemma encode_loop_plain:
  assumes "\<not> has flags VIS_NOSLASH"
  shows "\<forall>c\<in>set src. c < 256 \<Longrightarrow>
    length (encode_loop flags extra n src) \<le> 4 * n \<and>
    (\<forall>b\<in>set (encode_loop flags extra n src). 0 < b \<and> b < 256)"
proof (induction src arbitrary: n)
  case (Cons c src)
  then have "plain c (getvisfun flags c flags (case src of [] \<Rightarrow> 0 | m # _ \<Rightarrow> m) extra)"
    using assms by (simp add: plain_visfun)
  then have v: "length (getvisfun flags c flags (case src of [] \<Rightarrow> 0 | m # _ \<Rightarrow> m) extra) \<le> 4"
    "\<forall>b\<in>set (getvisfun flags c flags (case src of [] \<Rightarrow> 0 | m # _ \<Rightarrow> m) extra). 0 < b \<and> b < 256"
    by (simp_all add: plain_def)
  show ?case
  proof (cases n)
    case (Suc k)
    with Cons.IH [of k] Cons.prems v show ?thesis by (simp add: ball_Un)
  qed simp
qed simp

lemma decode_encode_loop:
  assumes "invertible flags mbextra"
  shows "\<forall>c\<in>set src. c < 256 \<Longrightarrow> length src < d \<Longrightarrow>
    decode_loop flags d 0 G
      (encode_loop flags (makeextralist flags mbextra) (length src) (src @ y # ys)) = Inr src"
proof (induction src arbitrary: d)
  case Nil
  then show ?case by simp
next
  case (Cons c src)
  let ?extra = "makeextralist flags mbextra"
  let ?rest = "encode_loop flags ?extra (length src) (src @ y # ys)"
  let ?nextc = "hd (src @ [y])"
  obtain d' where d: "d = Suc d'" "length src < d'" using Cons.prems by (cases d) auto
  have "iswoctal ?nextc" if r: "?rest \<noteq> [] \<and> isoctal (hd ?rest)"
  proof -
    obtain n src' where src: "src = n # src'" using r by (cases src) auto
    let ?v = "getvisfun flags n flags (case src' @ y # ys of [] \<Rightarrow> 0 | m # _ \<Rightarrow> m) ?extra"
    have p: "plain n ?v"
      using Cons.prems assms src by (intro plain_visfun) (auto simp: invertible_def)
    then have "hd ?rest = hd ?v" by (simp add: src plain_def)
    with r p have "isoctal n" by (simp add: plain_def)
    with Cons.prems show ?thesis by (simp add: src isoctal_def iswoctal_def)
  qed
  moreover have "(case src @ y # ys of [] \<Rightarrow> 0 | m # _ \<Rightarrow> m) = ?nextc" by (cases src) auto
  ultimately have "yields flags (getvisfun flags c flags
      (case src @ y # ys of [] \<Rightarrow> 0 | m # _ \<Rightarrow> m) ?extra) c ?rest"
    using yields_visfun [OF assms, of c ?rest ?nextc] Cons.prems by simp
  then show ?case
    using Cons.IH [of d'] Cons.prems d by (simp add: yields_def)
qed

lemma output_loop_bytes:
  "\<forall>b\<in>set ds. b < 256 \<Longrightarrow> olen < maxolen \<Longrightarrow>
     output_loop maxolen olen ds = (if olen + length ds < maxolen then Inr ds else Inl ENOSPC)"
  by (induction ds arbitrary: olen) (simp_all add: Let_def)

text \<open>
  The source as \<open>istrsenvisx\<close> reads it: the block and a NUL, or for a single byte the byte after
  it in memory, and then a NUL.
\<close>

definition encoding :: "flags \<Rightarrow> nat list \<Rightarrow> nat list \<Rightarrow> nat list \<Rightarrow> nat list" where
  "encoding flags mbextra src after =
     encode_loop flags (makeextralist flags mbextra) (length src)
       (src @ (if length src = 1 then mem after 0 else 0) # (if length src = 1 then [0] else []))"

definition bytes :: "nat list \<Rightarrow> bool" where
  "bytes m \<longleftrightarrow> (\<forall>c\<in>set m. c < 256)"

lemma mem_byte: "bytes m \<Longrightarrow> mem m i < 256"
  by (simp add: bytes_def mem_def)

lemma encoding_bytes:
  assumes "bytes src" and "bytes after" and "\<not> has flags VIS_NOSLASH"
  shows "length (encoding flags mbextra src after) \<le> 4 * length src \<and>
    (\<forall>b\<in>set (encoding flags mbextra src after). 0 < b \<and> b < 256)"
  unfolding encoding_def
  by (rule encode_loop_plain [OF assms(3)])
    (use assms(1,2) mem_byte [OF assms(2), of 0] in \<open>auto simp: bytes_def\<close>)

lemma istrsenvisx_eq:
  fixes flags mbextra src after
  assumes "bytes src" and "bytes after" and "length src \<le> SIZE_MAX div 128"
    and "\<not> has flags VIS_NOSLASH"
  defines "out \<equiv> encoding flags mbextra src after"
  shows "istrsenvisx dlen (src @ after) (length src) flags mbextra =
    (case dlen of None \<Rightarrow> Inr out | Some n \<Rightarrow> if length out < n then Inr out else Inl ENOSPC)"
proof -
  define w where "w = (if length src = 1 then 2 else length src)"
  have "map (mem (src @ after)) [0..<length src] = src"
    by (rule nth_equalityI) (simp_all add: mem_def nth_append)
  then have m: "map (mem (src @ after)) [0..<w] @ [0] =
      src @ (if length src = 1 then mem after 0 else 0) # (if length src = 1 then [0] else [])"
    by (auto simp: w_def mem_def nth_append length_Suc_conv numeral_2_eq_2)
  have p: "length out \<le> 4 * length src" "\<forall>b\<in>set out. 0 < b \<and> b < 256"
    unfolding out_def using encoding_bytes [OF assms(1,2,4)] by blast+
  then have t: "takeWhile (\<lambda>d. d \<noteq> 0) out = out" by (auto simp: takeWhile_eq_all_conv)
  have l: "w \<le> (SIZE_MAX - 1) div 16" "length out \<le> (SIZE_MAX - 1) div MB_LEN_MAX"
    using assms(3) p(1) by (auto simp: w_def SIZE_MAX_def MB_LEN_MAX_def)
  have b: "\<forall>b\<in>set out. b < 256" "length out < length out * MB_LEN_MAX + 1"
    using p(2) by (auto simp: MB_LEN_MAX_def)
  have "istrsenvisx dlen (src @ after) (length src) flags mbextra =
      (case dlen of
         Some maxolen \<Rightarrow> if maxolen = 0 then Inl ENOSPC else output_loop maxolen 0 out
       | None \<Rightarrow> output_loop (length out * MB_LEN_MAX + 1) 0 out)"
    unfolding istrsenvisx_def w_def [symmetric] Let_def m encoding_def [symmetric] out_def [symmetric] t
    using l by (simp add: not_less)
  then show ?thesis
    using b by (auto simp: output_loop_bytes split: option.split)
qed

lemma decode_encoding:
  assumes "invertible flags mbextra" and "bytes src" and "length src < d"
  shows "decode_loop flags d 0 G (encoding flags mbextra src after) = Inr src"
  unfolding encoding_def
  by (rule decode_encode_loop [OF assms(1)]) (use assms(2,3) in \<open>simp_all add: bytes_def\<close>)

lemma strunvisx_encoding:
  assumes "invertible flags mbextra" and "bytes src" and "bytes after"
    and "length src \<le> SIZE_MAX div 128"
  shows "strunvisx (encoding flags mbextra src after) flags = Inr src"
proof -
  have f: "\<not> has flags VIS_NOSLASH" using assms(1) by (simp add: invertible_def)
  have z: "takeWhile (\<lambda>c. c \<noteq> 0) (encoding flags mbextra src after) = encoding flags mbextra src after"
    using encoding_bytes [OF assms(2,3) f, of mbextra] by (auto simp: takeWhile_eq_all_conv)
  have "length src < SIZE_MAX" using assms(4) by (simp add: SIZE_MAX_def)
  then show ?thesis
    unfolding strunvisx_def strnunvisx_def z by (rule decode_encoding [OF assms(1,2)])
qed

text \<open>
  C9: for every block of bytes and every choice of extra characters, under all combinations of
  flags of the default, C, octal, HTTP and MIME styles that keep the backslash, the encoding
  succeeds and \<open>strunvisx\<close> under the same flags returns the block. (Entity decoding without
  the HTTP style is excluded, and so are \<open>x\<close> and \<open>E\<close> among the extra characters in C style.)
\<close>

theorem vis_roundtrip:
  assumes "invertible flags mbextra" and "bytes src" and "bytes after"
    and "length src \<le> SIZE_MAX div 128"
  shows "\<exists>out. strsvisx (src @ after) (length src) flags mbextra = Inr out \<and>
    strunvisx out flags = Inr src"
proof -
  have f: "\<not> has flags VIS_NOSLASH" using assms(1) by (simp add: invertible_def)
  with istrsenvisx_eq [OF assms(2,3,4) f, of None] strunvisx_encoding [OF assms] show ?thesis
    by (simp add: strsvisx_def)
qed

theorem vis_roundtrip_witness:
  "\<exists>out. strsvisx ([97, 0, 49, 200, 92] @ [7]) (length [97, 0, 49, 200, 92 :: nat])
       (VIS_CSTYLE OR VIS_MIMESTYLE) [97] = Inr out \<and>
     strunvisx out (VIS_CSTYLE OR VIS_MIMESTYLE) = Inr [97, 0, 49, 200, 92]"
  by (rule vis_roundtrip) (simp_all add: invertible_def has_def SIZE_MAX_def bytes_def)

text \<open>\<open>vis\<close> and \<open>unvis\<close> as a codec of blocks of bytes.\<close>

definition vis_block :: "flags \<Rightarrow> nat list \<Rightarrow> nat list \<Rightarrow> bool" where
  "vis_block flags mbextra src \<longleftrightarrow>
     invertible flags mbextra \<and> bytes src \<and> length src \<le> SIZE_MAX div 128"

interpretation vis_codec: codec "vis_block flags mbextra"
  "\<lambda>src. strsvisx src (length src) flags mbextra" "\<lambda>out. strunvisx out flags" for flags mbextra
proof
  fix src assume "vis_block flags mbextra src"
  then have ok: "invertible flags mbextra" "bytes src" "length src \<le> SIZE_MAX div 128"
    by (simp_all add: vis_block_def)
  then have f: "\<not> has flags VIS_NOSLASH" by (simp add: invertible_def)
  show "\<exists>out. strsvisx src (length src) flags mbextra = Inr out \<and> strunvisx out flags = Inr src"
    using strunvisx_encoding [OF ok(1,2) _ ok(3), of "[]"]
      istrsenvisx_eq [OF ok(2) _ ok(3) f, of "[]" None mbextra]
    by (simp add: strsvisx_def bytes_def)
qed

text \<open>
  Two different blocks never have the same encoding under the same flags and extra characters.
\<close>

theorem vis_injective:
  assumes "vis_block flags mbextra src" and "vis_block flags mbextra src'"
    and "strsvisx src (length src) flags mbextra = strsvisx src' (length src') flags mbextra"
  shows "src = src'"
  using assms by (rule vis_codec.injective)

theorem vis_injective_witness:
  "strsvisx [1] 1 0 [] \<noteq> strsvisx [2] 1 0 []"
  using vis_injective [of 0 "[]" "[1]" "[2]"]
  by (auto simp: vis_block_def invertible_def has_def bytes_def SIZE_MAX_def)

text \<open>
  C26: the encoding of \<open>n\<close> bytes has at most \<open>4 * n\<close> bytes, as the comment on \<open>strvis\<close> asks
  of its buffer, and no NUL; and the bounded \<open>strsnvisx\<close> gives this same encoding when it fits
  the buffer with its terminator and fails with \<open>ENOSPC\<close> otherwise, never truncating.
\<close>

theorem vis_size:
  assumes "\<not> has flags VIS_NOSLASH" and "bytes src" and "bytes after"
    and "length src \<le> SIZE_MAX div 128"
  shows "\<exists>out. strsvisx (src @ after) (length src) flags mbextra = Inr out \<and>
    length out \<le> 4 * length src \<and> 0 \<notin> set out \<and>
    (\<forall>dlen. strsnvisx dlen (src @ after) (length src) flags mbextra =
       (if length out < dlen then Inr out else Inl ENOSPC))"
  using istrsenvisx_eq [OF assms(2-4,1)] encoding_bytes [OF assms(2,3,1), of mbextra]
  by (auto simp: strsvisx_def strsnvisx_def)

theorem vis_size_witness:
  "\<exists>out. strsvisx ([1, 32] @ []) (length [1, 32 :: nat]) 0 [] = Inr out \<and>
     length out \<le> 4 * length [1, 32 :: nat] \<and> 0 \<notin> set out \<and>
     (\<forall>dlen. strsnvisx dlen ([1, 32] @ []) (length [1, 32 :: nat]) 0 [] =
       (if length out < dlen then Inr out else Inl ENOSPC))"
  by (rule vis_size) (simp_all add: has_def SIZE_MAX_def bytes_def)

section \<open>What an encoding contains\<close>

text \<open>All white space and every control or eight bit character is gone.\<close>

lemma graph_octal: "b \<in> set (octal_escape c) \<Longrightarrow> isgraph b"
  by (auto simp: octal_escape_def isgraph_def)

lemma graph_meta:
  assumes "c < 256" and "c mod 128 \<noteq> 32" and "b \<in> set (meta_escape flags c)"
    and "c \<ge> 128 \<or> iscntrl c"
  shows "isgraph b"
proof (cases "c \<ge> 128")
  case True
  then have "c mod 128 < 128" "c mod 256 = c" using assms(1) by auto
  with True assms show ?thesis
    by (auto simp: meta_escape_def isgraph_def iscntrl_def Let_def split: if_splits)
next
  case False
  with assms show ?thesis
    by (auto simp: meta_escape_def isgraph_def iscntrl_def Let_def split: if_splits)
qed

lemma graph_cstyle: "cstyle c nextc = Some out \<Longrightarrow> b \<in> set out \<Longrightarrow> isgraph b"
  by (erule cstyle_cases) (auto simp: isgraph_def cstyle_escapes_def split: if_splits)

lemma graph_visfun:
  assumes "c < 256" and "{32, 9, 10} \<subseteq> set extra" and "\<not> has flags VIS_SAFE"
    and "b \<in> set (getvisfun flags c flags nextc extra)"
  shows "isgraph b"
proof (cases rule: visfun_cases [of flags c nextc extra])
  case svis
  show ?thesis
  proof (cases "\<not> wcschr extra c \<and> isgraph c")
    case True
    with svis(1) assms show ?thesis by (simp add: do_svis_byte)
  next
    case False
    have w: "\<not> iswwhite c" if "\<not> wcschr extra c"
      using that assms(2) by (auto simp: wcschr_def iswwhite_def)
    with False have s: "do_svis c flags nextc extra = do_mbyte c flags nextc (wcschr extra c)"
      using assms(1,3) by (auto simp: do_svis_byte)
    have "c \<ge> 128 \<or> iscntrl c" if "\<not> wcschr extra c"
      using False that w assms(1) by (auto simp: isgraph_def iswwhite_def iscntrl_def)
    with s svis(1) assms(1,4) show ?thesis
      by (auto simp: do_mbyte_def split: option.splits if_splits
        intro: graph_octal graph_meta graph_cstyle)
  qed
next
  case http
  have "c div 16 mod 16 < 16" "c mod 16 < 16" by simp_all
  from http(2) assms(4) hex_digit(1) [OF this(1)] hex_digit(1) [OF this(2)] show ?thesis
    by (auto simp: isgraph_def)
next
  case mime
  have "c div 16 mod 16 < 16" "c mod 16 < 16" by simp_all
  from mime(3) assms(4) hex_digit(4) [OF this(1)] hex_digit(4) [OF this(2)] show ?thesis
    by (auto simp: isgraph_def)
qed

lemma graph_encode_loop:
  assumes "{32, 9, 10} \<subseteq> set extra" and "\<not> has flags VIS_SAFE"
  shows "\<forall>c\<in>set src. c < 256 \<Longrightarrow> b \<in> set (encode_loop flags extra n src) \<Longrightarrow> isgraph b"
  by (induction src arbitrary: n) (auto split: if_splits dest: graph_visfun [OF _ assms])



text \<open>
  Encoding for the shell does not keep shell characters out: \<open>VIS_SHELL\<close> turns the byte
  \<open>0xBB\<close> into \<open>\M-;\<close>, whose semicolon no backslash protects, and \<open>0xA6\<close> into \<open>\M-&\<close>.
  With \<open>VIS_OCTAL\<close> they become octal escapes.
\<close>

theorem vis_shell_leak:
  "strvisx [0xBB] 1 VIS_SHELL = Inr (map code [CHR 0x5C, CHR ''M'', CHR ''-'', CHR '';'']) \<and>
   strvisx [0xA6] 1 VIS_SHELL = Inr (map code [CHR 0x5C, CHR ''M'', CHR ''-'', CHR ''&'']) \<and>
   strvisx [0xBB] 1 (VIS_SHELL OR VIS_OCTAL) = Inr (map code [CHR 0x5C, CHR ''2'', CHR ''7'', CHR ''3''])"
  by code_simp

text \<open>
  In C style the extra characters \<open>x\<close> and \<open>E\<close> become \<open>\x\<close> and \<open>\E\<close>, which the decoder
  reads as the start of a hexadecimal escape and as ESC: neither decodes to its character.
\<close>

theorem vis_cstyle_not_inverted:
  "strsvisx [code CHR ''E''] 1 VIS_CSTYLE (map code ''E'') = Inr (map code [CHR 0x5C, CHR ''E'']) \<and>
   strunvisx (map code [CHR 0x5C, CHR ''E'']) VIS_CSTYLE = Inr [27] \<and>
   strsvisx (map code ''xyz'') 3 VIS_CSTYLE (map code ''x'') = Inr (map code [CHR 0x5C, CHR ''x'', CHR ''y'', CHR ''z'']) \<and>
   strunvisx (map code [CHR 0x5C, CHR ''x'', CHR ''y'', CHR ''z'']) VIS_CSTYLE = Inl EINVAL"
  by code_simp

section \<open>What the decoder does with any input\<close>

lemma unvis_valid_pending:
  "unvis t c a flag = (UNVIS_VALID, t', a') \<Longrightarrow> st a = S_GROUND \<Longrightarrow> st a' = S_GROUND"
  by (auto simp: unvis_def unvis_ground_def split: if_splits)

lemma unvis_valid_end:
  "unvis t c a UNVIS_END = (UNVIS_VALID, t', a') \<Longrightarrow> st a \<noteq> S_GROUND"
  by (auto simp: unvis_def split: if_splits)

lemma decode_loop_length:
  "decode_loop flag d t a src = Inr out \<Longrightarrow>
     length out \<le> length src + of_bool (st a \<noteq> S_GROUND) \<and> length out < d"
proof (induction flag d t a src arbitrary: out rule: decode_loop.induct)
  case (1 flag d t a)
  then show ?case
    by (auto split: prod.splits unvis_result.splits if_splits dest: unvis_valid_end)
next
  case (2 flag d t a c src)
  obtain r t' a' where u: "unvis t c a flag = (r, t', a')" by (metis prod_cases3)
  show ?case
  proof (cases r)
    case UNVIS_VALID
    then obtain o2 where d: "d \<noteq> 0" "decode_loop flag (d - 1) t' a' src = Inr o2" "out = t' # o2"
      using "2.prems" u by (auto simp: result_simps split: if_splits)
    from "2.IH"(1) [OF u [symmetric] UNVIS_VALID refl d(1,2)] d
      unvis_valid_pending [of t c a flag t' a'] u UNVIS_VALID show ?thesis
      by (cases "st a = S_GROUND"; cases "st a' = S_GROUND") auto
  next
    case UNVIS_VALIDPUSH
    then obtain o2 where d: "d \<noteq> 0" "decode_loop flag (d - 1) t' a' (c # src) = Inr o2" "out = t' # o2"
      using "2.prems" u by (auto simp: result_simps split: if_splits)
    from "2.IH"(2) [OF u [symmetric] UNVIS_VALIDPUSH refl d(1,2)] d
      validpush_ground [of t c a flag t' a'] u UNVIS_VALIDPUSH show ?thesis by auto
  next
    case UNVIS_NOCHAR
    then have "decode_loop flag d t' a' src = Inr out" using "2.prems" u by simp
    from "2.IH"(3) [OF u [symmetric] UNVIS_NOCHAR refl this] show ?thesis
      by (cases "st a' = S_GROUND") auto
  next
    case UNVIS_SYNBAD
    with u "2.prems" show ?thesis by simp
  qed
qed



end
