(* ===== verification/Base64.thy ===== *)
theory Base64
  imports Prelude
begin

text \<open>
  \<open>coreutils/base64/base64.c\<close>: the encoder with its line wrapping and the decoder. The text is
  a list of characters, the data a list of bytes. Output never fails in the model; what was
  written before an error is dropped, as the program then exits with a failure.
\<close>

type_synonym byte = "8 word"

datatype b64_error = EINVAL

definition B64 :: string where
  "B64 = ''ABCDEFGHIJKLMNOPQRSTUVWXYZabcdefghijklmnopqrstuvwxyz0123456789+/''"

section \<open>Encoding\<close>

text \<open>\<open>getinput\<close>: up to three bytes, padded with zeros, their number, and the rest of the input.\<close>

definition getinput :: "byte list \<Rightarrow> (byte \<times> byte \<times> byte) \<times> nat \<times> byte list" where
  "getinput fin =
     (case fin of
        a # b # c # rest \<Rightarrow> ((a, b, c), 3, rest)
      | [a, b] \<Rightarrow> ((a, b, 0), 2, [])
      | [a] \<Rightarrow> ((a, 0, 0), 1, [])
      | [] \<Rightarrow> ((0, 0, 0), 0, []))"

definition encode :: "byte \<times> byte \<times> byte \<Rightarrow> byte list" where
  "encode inp =
     (case inp of (i0, i1, i2) \<Rightarrow>
        [drop_bit 2 i0,
         push_bit 4 (i0 AND 0x03) OR drop_bit 4 i1,
         push_bit 2 (i1 AND 0x0f) OR drop_bit 6 i2,
         i2 AND 0x3f])"

text \<open>\<open>fputc\<close> with the line position: a newline follows when the line is full.\<close>

definition put_wrapped :: "64 word \<Rightarrow> 64 word \<Rightarrow> char \<Rightarrow> string \<times> 64 word" where
  "put_wrapped wrap pos c = (if pos + 1 = wrap then ([c, NL], 0) else ([c], pos + 1))"

text \<open>The first loop of \<open>putoutput\<close>, over the digits, and the second, over the padding.\<close>

fun put_digits :: "64 word \<Rightarrow> 64 word \<Rightarrow> byte list \<Rightarrow> b64_error + string \<times> 64 word" where
  "put_digits wrap pos [] = Inr ([], pos)"
| "put_digits wrap pos (d # ds) =
     (if d \<ge> 64 then Inl EINVAL
      else case put_wrapped wrap pos (B64 ! unat d) of
             (out, pos') \<Rightarrow> rmap (\<lambda>(o2, p2). (out @ o2, p2)) (put_digits wrap pos' ds))"

fun put_padding :: "64 word \<Rightarrow> 64 word \<Rightarrow> nat \<Rightarrow> string \<times> 64 word" where
  "put_padding wrap pos n =
     (if n = 0 then ([], pos)
      else case put_wrapped wrap pos CHR ''='' of
             (out, pos') \<Rightarrow> (case put_padding wrap pos' (n - 1) of (o2, p2) \<Rightarrow> (out @ o2, p2)))"

declare put_padding.simps [simp del]

definition putoutput ::
  "byte list \<Rightarrow> nat \<Rightarrow> 64 word \<Rightarrow> 64 word \<Rightarrow> b64_error + string \<times> 64 word" where
  "putoutput out len wrap pos =
     rbind (put_digits wrap pos (take (len + 1) out))
       (\<lambda>(o1, p1). case put_padding wrap p1 (4 - (len + 1)) of (o2, p2) \<Rightarrow> Inr (o1 @ o2, p2))"

lemma getinput_shrinks: "(inp, ilen, rest) = getinput fin \<Longrightarrow> ilen > 2 \<Longrightarrow> length rest < length fin"
  by (auto simp: getinput_def split: list.splits)

text \<open>The loop of \<open>b64_encode\<close> and what follows it.\<close>

function b64_encode_loop :: "64 word \<Rightarrow> 64 word \<Rightarrow> byte list \<Rightarrow> b64_error + string" where
  "b64_encode_loop wrap pos fin =
     (case getinput fin of (inp, ilen, rest) \<Rightarrow>
        if ilen > 2 then
          rbind (putoutput (encode inp) ilen wrap pos)
            (\<lambda>(out, pos'). rmap (\<lambda>o2. out @ o2) (b64_encode_loop wrap pos' rest))
        else
          rbind (if ilen \<noteq> 0 then putoutput (encode inp) ilen wrap pos else Inr ([], pos))
            (\<lambda>(out, pos'). Inr (out @ (if pos' \<noteq> 0 \<and> wrap \<noteq> 0 then [NL] else []))))"
  by pat_completeness auto
termination
  by (relation "measure (\<lambda>(wrap, pos, fin). length fin)") (auto dest: getinput_shrinks)

declare b64_encode_loop.simps [simp del]

definition b64_encode :: "64 word \<Rightarrow> byte list \<Rightarrow> b64_error + string" where
  "b64_encode wrap fin = b64_encode_loop wrap 0 fin"

section \<open>Decoding\<close>

text \<open>\<open>strchr(B64, c) - B64\<close>: the terminating NUL of the array can be found too.\<close>

fun index_from :: "nat \<Rightarrow> string \<Rightarrow> char \<Rightarrow> nat option" where
  "index_from i [] c = None"
| "index_from i (d # ds) c = (if d = c then Some i else index_from (i + 1) ds c)"

definition strchr_B64 :: "char \<Rightarrow> nat option" where
  "strchr_B64 c = index_from 0 (B64 @ [NUL]) c"

text \<open>The switch on the state: the byte written, if any, and the next \<open>out\<close>.\<close>

definition decode_digit :: "nat \<Rightarrow> byte \<Rightarrow> byte \<Rightarrow> byte list \<times> byte" where
  "decode_digit state out b =
     (if state = 0 then ([], push_bit 2 b)
      else if state = 1 then ([out OR drop_bit 4 b], push_bit 4 (b AND 0xf))
      else if state = 2 then ([out OR drop_bit 2 b], push_bit 6 (b AND 0x3))
      else ([out OR b], 0))"

text \<open>Skip white space; the character stopped at is the first of the result, none at EOF.\<close>

definition skip_space :: "bool \<Rightarrow> string \<Rightarrow> string" where
  "skip_space ignore cs = (if ignore then dropWhile (\<lambda>c. isspace (code c)) cs else cs)"

definition after_pad :: "bool \<Rightarrow> nat \<Rightarrow> string \<Rightarrow> b64_error + byte list" where
  "after_pad ignore state cs =
     (if state = 0 \<or> state = 1 then Inl EINVAL
      else if state = 2 then
        (case skip_space ignore cs of
           [] \<Rightarrow> Inl EINVAL
         | c # cs' \<Rightarrow>
             if c \<noteq> CHR ''='' then Inl EINVAL
             else if skip_space ignore cs' \<noteq> [] then Inl EINVAL else Inr [])
      else if skip_space ignore cs \<noteq> [] then Inl EINVAL else Inr [])"

fun b64_decode_loop :: "bool \<Rightarrow> nat \<Rightarrow> byte \<Rightarrow> string \<Rightarrow> b64_error + byte list" where
  "b64_decode_loop ignore state out [] = (if state \<noteq> 0 then Inl EINVAL else Inr [])"
| "b64_decode_loop ignore state out (c # cs) =
     (if ignore \<and> isspace (code c) then b64_decode_loop ignore state out cs
      else if c = CHR ''='' then after_pad ignore state cs
      else case strchr_B64 c of
             None \<Rightarrow> Inl EINVAL
           | Some i \<Rightarrow>
               (case decode_digit state out (word_of_nat i) of
                  (written, out') \<Rightarrow>
                    rmap (\<lambda>o2. written @ o2) (b64_decode_loop ignore ((state + 1) mod 4) out' cs)))"

definition b64_decode :: "bool \<Rightarrow> string \<Rightarrow> b64_error + byte list" where
  "b64_decode ignore fin = b64_decode_loop ignore 0 0 fin"

section \<open>Round trip\<close>

text \<open>The digits come back from the text, whatever newlines are put between them.\<close>

lemma strchr_digit: "d < 64 \<Longrightarrow> strchr_B64 (B64 ! d) = Some d"
proof -
  have "list_all (\<lambda>d. strchr_B64 (B64 ! d) = Some d) [0..<64]" by code_simp
  then show "d < 64 \<Longrightarrow> ?thesis" by (rule all_below)
qed

lemma digit_char: "d < 64 \<Longrightarrow> B64 ! d \<noteq> CHR ''='' \<and> \<not> isspace (code (B64 ! d))"
proof -
  have "list_all (\<lambda>d. B64 ! d \<noteq> CHR ''='' \<and> \<not> isspace (code (B64 ! d))) [0..<64]" by code_simp
  then show "d < 64 \<Longrightarrow> ?thesis" by (rule all_below)
qed

text \<open>White space does not matter to the decoder, before, between and after the digits.\<close>

abbreviation unspaced :: "string \<Rightarrow> string" where
  "unspaced cs \<equiv> filter (\<lambda>c. \<not> isspace (code c)) cs"

lemma skip_unspaced: "skip_space True (unspaced cs) = unspaced cs"
  by (induction cs) (auto simp: skip_space_def)

lemma skip_Nil_iff: "skip_space True cs = [] \<longleftrightarrow> unspaced cs = []"
  by (auto simp: skip_space_def filter_empty_conv)

lemma skip_Cons: "skip_space True cs = c # cs' \<Longrightarrow> unspaced cs = c # unspaced cs'"
  by (induction cs) (auto simp: skip_space_def split: if_splits)

lemma after_pad_unspaced: "after_pad True state (unspaced cs) = after_pad True state cs"
proof (cases "skip_space True cs")
  case Nil
  moreover from this have "unspaced cs = []" by (simp only: skip_Nil_iff)
  ultimately show ?thesis by (simp add: after_pad_def) (simp add: skip_space_def)
next
  case (Cons c cs')
  then have "skip_space True (unspaced cs) = c # unspaced cs'"
    by (metis skip_unspaced skip_Cons)
  with Cons show ?thesis
    by (simp add: after_pad_def) (simp add: skip_unspaced skip_Nil_iff)
qed

lemma decode_unspaced:
  "b64_decode_loop True state out (unspaced cs) = b64_decode_loop True state out cs"
proof (induction cs arbitrary: state out)
  case (Cons c cs)
  then show ?case
    by (simp add: after_pad_unspaced code_eq_iff split: option.split prod.split)
qed simp

text \<open>The text of an input without its newlines.\<close>

definition digits :: "byte list \<Rightarrow> string" where
  "digits ds = map (\<lambda>d. B64 ! unat d) ds"

fun plain_text :: "byte list \<Rightarrow> string" where
  "plain_text (a # b # c # rest) = digits (encode (a, b, c)) @ plain_text rest"
| "plain_text [a, b] = digits (take 3 (encode (a, b, 0))) @ ''=''"
| "plain_text [a] = digits (take 2 (encode (a, 0, 0))) @ ''==''"
| "plain_text [] = []"

lemma put_digits_plain:
  "\<forall>d\<in>set ds. d < 64 \<Longrightarrow>
     \<exists>out pos'. put_digits wrap pos ds = Inr (out, pos') \<and> unspaced out = digits ds"
proof (induction ds arbitrary: pos)
  case (Cons d ds)
  obtain o1 p1 where p: "put_wrapped wrap pos (B64 ! unat d) = (o1, p1)" by force
  obtain o2 p2 where q: "put_digits wrap p1 ds = Inr (o2, p2)" "unspaced o2 = digits ds"
    using Cons by force
  have d: "\<not> isspace (code (B64 ! unat d))"
    using Cons.prems digit_char [of "unat d"] by (simp add: word_less_nat_alt)
  have "unspaced o1 = [B64 ! unat d]"
    using p d by (auto simp: put_wrapped_def isspace_def split: if_splits)
  with p q Cons.prems show ?case by (auto simp: digits_def)
qed (simp add: digits_def)

lemma put_padding_plain: "unspaced (fst (put_padding wrap pos n)) = replicate n CHR ''=''"
proof (induction n arbitrary: pos)
  case 0
  then show ?case by (simp add: put_padding.simps)
next
  case (Suc n)
  obtain o1 p1 where p: "put_wrapped wrap pos CHR ''='' = (o1, p1)" by force
  then have "unspaced o1 = [CHR ''='']"
    by (auto simp: put_wrapped_def isspace_def split: if_splits)
  with p Suc [of p1] show ?case
    by (subst put_padding.simps) (auto split: prod.split)
qed

lemma take_bit_less: "take_bit 6 (d :: byte) = d \<Longrightarrow> d < 64"
proof -
  assume "take_bit 6 d = d"
  then have "unat d = take_bit 6 (unat d)" by (metis unsigned_take_bit_eq)
  then have "unat d < 2 ^ 6" by (metis take_bit_nat_less_exp)
  then show ?thesis by (simp add: word_less_nat_alt)
qed

lemma masks: "(0x03 :: byte) = mask 2" "(0x0f :: byte) = mask 4" "(0x3f :: byte) = mask 6"
  by (simp_all add: mask_eq_exp_minus_1)

lemma encode_small: "\<forall>d\<in>set (encode inp). d < 64"
proof -
  obtain a b c where "inp = (a, b, c)" by (metis prod_cases3)
  moreover have "take_bit 6 (drop_bit 2 a) = drop_bit 2 a"
    "take_bit 6 (push_bit 4 (a AND mask 2) OR drop_bit 4 b) = push_bit 4 (a AND mask 2) OR drop_bit 4 b"
    "take_bit 6 (push_bit 2 (b AND mask 4) OR drop_bit 6 c) = push_bit 2 (b AND mask 4) OR drop_bit 6 c"
    "take_bit 6 (c AND mask 6) = c AND mask 6"
    by (rule bit_word_eqI; auto simp: bit_simps dest: bit_imp_le_length)+
  ultimately show ?thesis
    unfolding encode_def masks using take_bit_less by auto
qed

lemma putoutput_plain:
  assumes "\<forall>d\<in>set ds. d < 64" and "length ds = 4" and "len \<le> 3"
  shows "\<exists>out pos'. putoutput ds len wrap pos = Inr (out, pos') \<and>
    unspaced out = digits (take (len + 1) ds) @ replicate (3 - len) CHR ''=''"
proof -
  have "\<forall>d\<in>set (take (len + 1) ds). d < 64" using assms(1) by (meson in_set_takeD)
  from put_digits_plain [OF this] obtain o1 p1 where
    o1: "put_digits wrap pos (take (len + 1) ds) = Inr (o1, p1)"
      "unspaced o1 = digits (take (len + 1) ds)" by blast
  with put_padding_plain [of wrap p1 "3 - len"] show ?thesis
    by (auto simp: putoutput_def split: prod.split)
qed

lemma encode_length [simp]: "length (encode inp) = 4"
  by (auto simp: encode_def split: prod.split)

lemma b64_encode_loop_plain:
  "\<exists>out. b64_encode_loop wrap pos fin = Inr out \<and> unspaced out = plain_text fin"
proof (induction fin arbitrary: pos rule: plain_text.induct)
  case (1 a b c rest)
  obtain o1 p1 where o1: "putoutput (encode (a, b, c)) 3 wrap pos = Inr (o1, p1)"
      "unspaced o1 = digits (encode (a, b, c))"
    using putoutput_plain [OF encode_small, of "(a, b, c)" 3 wrap pos] by auto
  obtain o2 where "b64_encode_loop wrap p1 rest = Inr o2" "unspaced o2 = plain_text rest"
    using "1.IH" by blast
  with o1 show ?case by (subst b64_encode_loop.simps) (simp add: getinput_def)
next
  case (2 a b)
  with putoutput_plain [OF encode_small, of "(a, b, 0)" 2 wrap pos] show ?case
    by (subst b64_encode_loop.simps) (auto simp: getinput_def isspace_def)
next
  case (3 a)
  with putoutput_plain [OF encode_small, of "(a, 0, 0)" 1 wrap pos] show ?case
    by (subst b64_encode_loop.simps) (auto simp: getinput_def isspace_def numeral_2_eq_2)
next
  case 4
  show ?case by (subst b64_encode_loop.simps) (auto simp: getinput_def isspace_def)
qed

lemma decode_step:
  "d < 64 \<Longrightarrow>
     b64_decode_loop ig state out (B64 ! unat d # cs) =
     (case decode_digit state out d of
        (written, out') \<Rightarrow>
          rmap (\<lambda>o2. written @ o2) (b64_decode_loop ig ((state + 1) mod 4) out' cs))"
  using digit_char [of "unat d"] strchr_digit [of "unat d"] by (simp add: word_less_nat_alt)

lemma pad_step: "b64_decode_loop ig state out (CHR ''='' # cs) = after_pad ig state cs"
  by (simp add: isspace_def)

text \<open>The bits of a byte, put together again.\<close>

lemma byte_eqI:
  fixes x y :: byte
  assumes "bit x 0 = bit y 0" "bit x 1 = bit y 1" "bit x 2 = bit y 2" "bit x 3 = bit y 3"
    "bit x 4 = bit y 4" "bit x 5 = bit y 5" "bit x 6 = bit y 6" "bit x 7 = bit y 7"
  shows "x = y"
proof (rule bit_word_eqI)
  fix n assume "n < LENGTH(8)"
  then have "n \<in> set [0..<8]" by simp
  also have "[0..<8] = [0, 1, 2, 3, 4, 5, 6, 7]" by code_simp
  finally show "bit x n = bit y n" using assms by auto
qed

lemma encode_digits:
  "\<exists>d0 d1 d2 d3. encode (a, b, c) = [d0, d1, d2, d3] \<and>
     d0 < 64 \<and> d1 < 64 \<and> d2 < 64 \<and> d3 < 64 \<and>
     push_bit 2 d0 OR drop_bit 4 d1 = a \<and>
     push_bit 4 (d1 AND 0xf) OR drop_bit 2 d2 = b \<and>
     push_bit 6 (d2 AND 0x3) OR d3 = c"
proof -
  have "push_bit 2 (drop_bit 2 a) OR drop_bit 4 (push_bit 4 (a AND mask 2) OR drop_bit 4 b) = a"
    "push_bit 4 ((push_bit 4 (a AND mask 2) OR drop_bit 4 b) AND mask 4) OR
      drop_bit 2 (push_bit 2 (b AND mask 4) OR drop_bit 6 c) = b"
    "push_bit 6 ((push_bit 2 (b AND mask 4) OR drop_bit 6 c) AND mask 2) OR (c AND mask 6) = c"
    by (rule byte_eqI; simp add: bit_simps)+
  with encode_small [of "(a, b, c)"] show ?thesis
    unfolding encode_def masks by auto
qed

lemma decode_plain: "b64_decode_loop True 0 0 (plain_text bs) = Inr bs"
proof (induction bs rule: plain_text.induct)
  case (1 a b c rest)
  obtain d0 d1 d2 d3 where "encode (a, b, c) = [d0, d1, d2, d3]"
    "d0 < 64" "d1 < 64" "d2 < 64" "d3 < 64" "push_bit 2 d0 OR drop_bit 4 d1 = a"
    "push_bit 4 (d1 AND 0xf) OR drop_bit 2 d2 = b" "push_bit 6 (d2 AND 0x3) OR d3 = c"
    using encode_digits by blast
  with 1 show ?case by (simp add: digits_def decode_step decode_digit_def del: b64_decode_loop.simps(2))
next
  case (2 a b)
  obtain d0 d1 d2 d3 where "encode (a, b, 0) = [d0, d1, d2, d3]"
    "d0 < 64" "d1 < 64" "d2 < 64" "push_bit 2 d0 OR drop_bit 4 d1 = a"
    "push_bit 4 (d1 AND 0xf) OR drop_bit 2 d2 = b"
    using encode_digits by blast
  then show ?case
    by (simp add: digits_def decode_step decode_digit_def pad_step after_pad_def
      skip_space_def del: b64_decode_loop.simps(2))
next
  case (3 a)
  obtain d0 d1 d2 d3 where "encode (a, 0, 0) = [d0, d1, d2, d3]"
    "d0 < 64" "d1 < 64" "push_bit 2 d0 OR drop_bit 4 d1 = a"
    using encode_digits by blast
  then show ?case
    by (simp add: digits_def decode_step decode_digit_def pad_step after_pad_def skip_space_def
      isspace_def numeral_2_eq_2 del: b64_decode_loop.simps(2))
qed simp

interpretation b64_codec: codec "\<lambda>_. True" "b64_encode wrap" "b64_decode True" for wrap
proof
  fix bs :: "byte list"
  obtain out where "b64_encode wrap bs = Inr out" "unspaced out = plain_text bs"
    unfolding b64_encode_def using b64_encode_loop_plain by blast
  then show "\<exists>out. b64_encode wrap bs = Inr out \<and> b64_decode True out = Inr bs"
    unfolding b64_decode_def by (metis decode_plain decode_unspaced)
qed

text \<open>
  C11: whatever the line width, encoding any data succeeds and decoding the text gives the data
  back.
\<close>

theorem b64_roundtrip:
  "\<exists>out. b64_encode wrap bs = Inr out \<and> b64_decode True out = Inr bs"
  by (rule b64_codec.round_trip) simp

section \<open>The encoded text\<close>

text \<open>\<open>fits w k cs\<close>: with \<open>k\<close> characters already on the line, no line grows longer than \<open>w\<close>.\<close>

fun fits :: "nat \<Rightarrow> nat \<Rightarrow> string \<Rightarrow> bool" where
  "fits w k [] \<longleftrightarrow> k \<le> w"
| "fits w k (c # cs) \<longleftrightarrow> (if c = NL then k \<le> w \<and> fits w 0 cs else fits w (k + 1) cs)"

text \<open>Writing a character, as the code does it, keeps the position below the width.\<close>

definition wraps :: "64 word \<Rightarrow> string \<Rightarrow> 64 word \<Rightarrow> 64 word \<Rightarrow> bool" where
  "wraps wrap out pos pos' \<longleftrightarrow>
     pos' < wrap \<and> (\<forall>rest. fits (unat wrap) (unat pos) (out @ rest) = fits (unat wrap) (unat pos') rest)"

lemma wraps_Nil: "pos < wrap \<Longrightarrow> wraps wrap [] pos pos"
  by (simp add: wraps_def)

lemma wraps_append: "wraps wrap o1 pos p1 \<Longrightarrow> wraps wrap o2 p1 p2 \<Longrightarrow> wraps wrap (o1 @ o2) pos p2"
  by (simp add: wraps_def)

lemma wraps_put:
  assumes "pos < wrap" and "c \<noteq> NL" and "put_wrapped wrap pos c = (out, pos')"
  shows "wraps wrap out pos pos'"
proof -
  have "unat (pos + 1) = unat pos + 1"
  proof -
    have wrap: "unat wrap < 2 ^ LENGTH(64)" by (rule unsigned_less)
    have "unat pos + 1 < 2 ^ 64"
      using assms(1) wrap by (simp add: word_less_nat_alt)
    then show ?thesis by (simp add: unat_word_ariths(1))
  qed
  moreover have "pos + 1 \<le> wrap" using assms(1) by (rule inc_le)
  ultimately show ?thesis
    using assms by (auto simp: put_wrapped_def wraps_def word_le_nat_alt word_less_nat_alt
      word_unat_eq_iff split: if_splits)
qed

lemma wraps_digits:
  "put_digits wrap pos ds = Inr (out, pos') \<Longrightarrow> pos < wrap \<Longrightarrow> wraps wrap out pos pos'"
proof (induction ds arbitrary: pos out)
  case (Cons d ds)
  obtain o1 p1 where p: "put_wrapped wrap pos (B64 ! unat d) = (o1, p1)" by force
  have nd: "\<not> 64 \<le> d" using Cons.prems(1) by (auto split: if_splits)
  then have d: "d < 64" by simp
  from nd p Cons.prems obtain o2 where q: "put_digits wrap p1 ds = Inr (o2, pos')" "out = o1 @ o2"
    by (auto simp: result_simps)
  have "B64 ! unat d \<noteq> NL"
    using d digit_char [of "unat d"] by (auto simp: word_less_nat_alt isspace_def)
  with p Cons.prems(2) have w: "wraps wrap o1 pos p1" by (blast intro: wraps_put)
  then have "p1 < wrap" by (simp add: wraps_def)
  from wraps_append [OF w Cons.IH [OF q(1) this]] q(2) show ?case by simp
qed (simp add: wraps_Nil)

lemma wraps_padding:
  "put_padding wrap pos n = (out, pos') \<Longrightarrow> pos < wrap \<Longrightarrow> wraps wrap out pos pos'"
proof (induction n arbitrary: pos out)
  case 0
  then show ?case by (simp add: put_padding.simps wraps_Nil)
next
  case (Suc n)
  obtain o1 p1 where p: "put_wrapped wrap pos CHR ''='' = (o1, p1)" by force
  then have w: "wraps wrap o1 pos p1" using Suc.prems(2) by (rule wraps_put [rotated 2]) simp
  then have "p1 < wrap" by (simp add: wraps_def)
  with p w Suc show ?case
    by (subst (asm) put_padding.simps) (auto split: prod.splits intro: wraps_append)
qed

lemma wraps_output:
  assumes "putoutput ds len wrap pos = Inr (out, pos')" and "pos < wrap"
  shows "wraps wrap out pos pos'"
proof -
  obtain o1 p1 where o1: "put_digits wrap pos (take (len + 1) ds) = Inr (o1, p1)"
    using assms(1) by (cases "put_digits wrap pos (take (len + 1) ds)") (auto simp: putoutput_def)
  obtain o2 p2 where o2: "put_padding wrap p1 (4 - (len + 1)) = (o2, p2)" by force
  have "out = o1 @ o2" "pos' = p2"
    using assms(1) unfolding putoutput_def o1 rbind_Inr prod.case o2 by simp_all
  moreover have w1: "wraps wrap o1 pos p1" by (rule wraps_digits [OF o1 assms(2)])
  moreover from w1 have "p1 < wrap" by (simp add: wraps_def)
  ultimately show ?thesis using wraps_padding [OF o2] by (simp add: wraps_append)
qed

lemma b64_encode_loop_fits:
  "b64_encode_loop wrap pos fin = Inr out \<Longrightarrow> pos < wrap \<Longrightarrow> fits (unat wrap) (unat pos) out"
proof (induction wrap pos fin arbitrary: out rule: b64_encode_loop.induct)
  case (1 wrap pos fin)
  obtain inp ilen rest where g: "getinput fin = (inp, ilen, rest)" by (metis prod_cases3)
  show ?case
  proof (cases "ilen > 2")
    case True
    then obtain o1 p1 o2 where o: "putoutput (encode inp) ilen wrap pos = Inr (o1, p1)"
        "b64_encode_loop wrap p1 rest = Inr o2" "out = o1 @ o2"
      using "1.prems"(1) g by (subst (asm) b64_encode_loop.simps) (auto simp: result_simps)
    note w = wraps_output [OF o(1) "1.prems"(2)]
    then have "p1 < wrap" by (simp add: wraps_def)
    then have "fits (unat wrap) (unat p1) o2" using "1.IH" g True o by metis
    with w o(3) show ?thesis by (simp add: wraps_def)
  next
    case False
    then obtain o1 p1 where o: "(if ilen \<noteq> 0 then putoutput (encode inp) ilen wrap pos else Inr ([], pos)) =
          Inr (o1, p1)" "out = o1 @ (if p1 \<noteq> 0 \<and> wrap \<noteq> 0 then [NL] else [])"
      using "1.prems"(1) g by (subst (asm) b64_encode_loop.simps) (auto simp: result_simps)
    then have "wraps wrap o1 pos p1"
      using "1.prems"(2) by (auto intro: wraps_output wraps_Nil split: if_splits)
    with o(2) show ?thesis
      by (auto simp: wraps_def word_less_nat_alt)
  qed
qed

lemma plain_text_shape:
  "length (plain_text bs) = 4 * ((length bs + 2) div 3) \<and> set (plain_text bs) \<subseteq> set (CHR ''='' # B64)"
proof -
  have d: "set (digits ds) \<subseteq> set (CHR ''='' # B64)" if "\<forall>d\<in>set ds. d < 64" for ds
  proof -
    have "length B64 = 64" by (simp add: B64_def)
    with that show ?thesis by (auto simp: digits_def word_less_nat_alt)
  qed
  have t: "set (digits (take n (encode inp))) \<subseteq> set (CHR ''='' # B64)" for n inp
    by (rule d) (meson encode_small in_set_takeD)
  show ?thesis
  proof (induction bs rule: plain_text.induct)
    case (1 a b c rest)
    moreover have "(length (a # b # c # rest) + 2) div 3 = 1 + (length rest + 2) div 3"
      by simp
    ultimately show ?case using t [of 4 "(a, b, c)"] by (simp add: digits_def)
  qed (use t in \<open>auto simp: digits_def\<close>)
qed


text \<open>
  The decoder takes a NUL byte for a digit of value 64, since \<open>strchr\<close> finds the end of
  the alphabet: it decodes a NUL after \<open>A\<close> to the byte 4 where it should report \<open>EINVAL\<close>,
  as it does for any other character outside the alphabet.
\<close>

theorem b64_nul_accepted:
  "b64_decode True [CHR ''A'', NUL, CHR ''='', CHR ''=''] = Inr [4] \<and>
   b64_decode True [CHR ''A'', CHR 0x01, CHR ''='', CHR ''=''] = Inl EINVAL"
  by code_simp

end
