(* ===== verification/Cksum.thy ===== *)
theory Cksum
  imports Prelude
begin

text \<open>
  The checksums of \<open>coreutils/cksum\<close>: the POSIX CRC of \<open>crc.c\<close> with its tables and its loop
  over sixteen bytes at a time, and the historic sums of \<open>sum1.c\<close> and \<open>sum2.c\<close>. A file
  descriptor is the list of the results its \<open>read\<close>s give: blocks of data, then the end of the
  list for end of file, or a failure.
\<close>

type_synonym byte = "8 word"
type_synonym crc_word = "32 word"

text \<open>
  What the calls of \<open>read\<close> return, one by one: bytes, at least one of them, or a failure. The
  end of the list is the return value 0, the end of the file.
\<close>

datatype read_result = Data "byte list" | Failed

section \<open>The CRC\<close>

definition crctab :: "crc_word list" where
  "crctab = [
    0x00000000, 0x04c11db7, 0x09823b6e, 0x0d4326d9, 0x130476dc, 0x17c56b6b, 0x1a864db2, 0x1e475005,
    0x2608edb8, 0x22c9f00f, 0x2f8ad6d6, 0x2b4bcb61, 0x350c9b64, 0x31cd86d3, 0x3c8ea00a, 0x384fbdbd,
    0x4c11db70, 0x48d0c6c7, 0x4593e01e, 0x4152fda9, 0x5f15adac, 0x5bd4b01b, 0x569796c2, 0x52568b75,
    0x6a1936c8, 0x6ed82b7f, 0x639b0da6, 0x675a1011, 0x791d4014, 0x7ddc5da3, 0x709f7b7a, 0x745e66cd,
    0x9823b6e0, 0x9ce2ab57, 0x91a18d8e, 0x95609039, 0x8b27c03c, 0x8fe6dd8b, 0x82a5fb52, 0x8664e6e5,
    0xbe2b5b58, 0xbaea46ef, 0xb7a96036, 0xb3687d81, 0xad2f2d84, 0xa9ee3033, 0xa4ad16ea, 0xa06c0b5d,
    0xd4326d90, 0xd0f37027, 0xddb056fe, 0xd9714b49, 0xc7361b4c, 0xc3f706fb, 0xceb42022, 0xca753d95,
    0xf23a8028, 0xf6fb9d9f, 0xfbb8bb46, 0xff79a6f1, 0xe13ef6f4, 0xe5ffeb43, 0xe8bccd9a, 0xec7dd02d,
    0x34867077, 0x30476dc0, 0x3d044b19, 0x39c556ae, 0x278206ab, 0x23431b1c, 0x2e003dc5, 0x2ac12072,
    0x128e9dcf, 0x164f8078, 0x1b0ca6a1, 0x1fcdbb16, 0x018aeb13, 0x054bf6a4, 0x0808d07d, 0x0cc9cdca,
    0x7897ab07, 0x7c56b6b0, 0x71159069, 0x75d48dde, 0x6b93dddb, 0x6f52c06c, 0x6211e6b5, 0x66d0fb02,
    0x5e9f46bf, 0x5a5e5b08, 0x571d7dd1, 0x53dc6066, 0x4d9b3063, 0x495a2dd4, 0x44190b0d, 0x40d816ba,
    0xaca5c697, 0xa864db20, 0xa527fdf9, 0xa1e6e04e, 0xbfa1b04b, 0xbb60adfc, 0xb6238b25, 0xb2e29692,
    0x8aad2b2f, 0x8e6c3698, 0x832f1041, 0x87ee0df6, 0x99a95df3, 0x9d684044, 0x902b669d, 0x94ea7b2a,
    0xe0b41de7, 0xe4750050, 0xe9362689, 0xedf73b3e, 0xf3b06b3b, 0xf771768c, 0xfa325055, 0xfef34de2,
    0xc6bcf05f, 0xc27dede8, 0xcf3ecb31, 0xcbffd686, 0xd5b88683, 0xd1799b34, 0xdc3abded, 0xd8fba05a,
    0x690ce0ee, 0x6dcdfd59, 0x608edb80, 0x644fc637, 0x7a089632, 0x7ec98b85, 0x738aad5c, 0x774bb0eb,
    0x4f040d56, 0x4bc510e1, 0x46863638, 0x42472b8f, 0x5c007b8a, 0x58c1663d, 0x558240e4, 0x51435d53,
    0x251d3b9e, 0x21dc2629, 0x2c9f00f0, 0x285e1d47, 0x36194d42, 0x32d850f5, 0x3f9b762c, 0x3b5a6b9b,
    0x0315d626, 0x07d4cb91, 0x0a97ed48, 0x0e56f0ff, 0x1011a0fa, 0x14d0bd4d, 0x19939b94, 0x1d528623,
    0xf12f560e, 0xf5ee4bb9, 0xf8ad6d60, 0xfc6c70d7, 0xe22b20d2, 0xe6ea3d65, 0xeba91bbc, 0xef68060b,
    0xd727bbb6, 0xd3e6a601, 0xdea580d8, 0xda649d6f, 0xc423cd6a, 0xc0e2d0dd, 0xcda1f604, 0xc960ebb3,
    0xbd3e8d7e, 0xb9ff90c9, 0xb4bcb610, 0xb07daba7, 0xae3afba2, 0xaafbe615, 0xa7b8c0cc, 0xa379dd7b,
    0x9b3660c6, 0x9ff77d71, 0x92b45ba8, 0x9675461f, 0x8832161a, 0x8cf30bad, 0x81b02d74, 0x857130c3,
    0x5d8a9099, 0x594b8d2e, 0x5408abf7, 0x50c9b640, 0x4e8ee645, 0x4a4ffbf2, 0x470cdd2b, 0x43cdc09c,
    0x7b827d21, 0x7f436096, 0x7200464f, 0x76c15bf8, 0x68860bfd, 0x6c47164a, 0x61043093, 0x65c52d24,
    0x119b4be9, 0x155a565e, 0x18197087, 0x1cd86d30, 0x029f3d35, 0x065e2082, 0x0b1d065b, 0x0fdc1bec,
    0x3793a651, 0x3352bbe6, 0x3e119d3f, 0x3ad08088, 0x2497d08d, 0x2056cd3a, 0x2d15ebe3, 0x29d4f654,
    0xc5a92679, 0xc1683bce, 0xcc2b1d17, 0xc8ea00a0, 0xd6ad50a5, 0xd26c4d12, 0xdf2f6bcb, 0xdbee767c,
    0xe3a1cbc1, 0xe760d676, 0xea23f0af, 0xeee2ed18, 0xf0a5bd1d, 0xf464a0aa, 0xf9278673, 0xfde69bc4,
    0x89b8fd09, 0x8d79e0be, 0x803ac667, 0x84fbdbd0, 0x9abc8bd5, 0x9e7d9662, 0x933eb0bb, 0x97ffad0c,
    0xafb010b1, 0xab710d06, 0xa6322bdf, 0xa2f33668, 0xbcb4666d, 0xb8757bda, 0xb5365d03, 0xb1f740b4]"

text \<open>The macro \<open>COMPUTE(var, ch)\<close>; the index is the top byte of \<open>var\<close>.\<close>

definition COMPUTE :: "crc_word \<Rightarrow> byte \<Rightarrow> crc_word" where
  "COMPUTE var ch = push_bit 8 var XOR crctab ! unat (drop_bit 24 var XOR ucast ch)"

text \<open>
  \<open>tables\<close>: for each entry \<open>a\<close> of \<open>crctab\<close>, the column of the entries \<open>crcslice[b][a]\<close>,
  each the last one with a zero byte added.
\<close>

fun column :: "nat \<Rightarrow> crc_word \<Rightarrow> crc_word list" where
  "column b crc =
     (if b = 0 then [] else let crc = COMPUTE crc 0 in crc # column (b - 1) crc)"

declare column.simps [simp del]

definition tables :: "crc_word list list" where
  "tables = map (column 15) crctab"

definition crcslice :: "nat \<Rightarrow> crc_word \<Rightarrow> crc_word" where
  "crcslice b a = tables ! unat a ! b"

definition be32dec :: "byte list \<Rightarrow> crc_word" where
  "be32dec p =
     push_bit 24 (ucast (p ! 0)) OR push_bit 16 (ucast (p ! 1)) OR
     push_bit 8 (ucast (p ! 2)) OR ucast (p ! 3)"

text \<open>Sixteen bytes at once.\<close>

definition crc_block :: "crc_word \<Rightarrow> byte list \<Rightarrow> crc_word" where
  "crc_block thecrc p =
     (let a = be32dec p XOR thecrc;
          b = be32dec (drop 4 p);
          c = be32dec (drop 8 p);
          d = be32dec (drop 12 p)
      in crcslice 14 (drop_bit 24 a AND 0xff) XOR
         crcslice 13 (drop_bit 16 a AND 0xff) XOR
         crcslice 12 (drop_bit 8 a AND 0xff) XOR
         crcslice 11 (a AND 0xff) XOR
         crcslice 10 (drop_bit 24 b AND 0xff) XOR
         crcslice 9 (drop_bit 16 b AND 0xff) XOR
         crcslice 8 (drop_bit 8 b AND 0xff) XOR
         crcslice 7 (b AND 0xff) XOR
         crcslice 6 (drop_bit 24 c AND 0xff) XOR
         crcslice 5 (drop_bit 16 c AND 0xff) XOR
         crcslice 4 (drop_bit 8 c AND 0xff) XOR
         crcslice 3 (c AND 0xff) XOR
         crcslice 2 (drop_bit 24 d AND 0xff) XOR
         crcslice 1 (drop_bit 16 d AND 0xff) XOR
         crcslice 0 (drop_bit 8 d AND 0xff) XOR
         crctab ! unat (d AND 0xff))"

text \<open>\<open>crc_buf\<close>: blocks of sixteen, then byte by byte.\<close>

function crc_buf :: "crc_word \<Rightarrow> byte list \<Rightarrow> crc_word" where
  "crc_buf thecrc p =
     (if length p \<ge> 16 then crc_buf (crc_block thecrc p) (drop 16 p)
      else foldl COMPUTE thecrc p)"
  by pat_completeness auto
termination
  by (relation "measure (\<lambda>(thecrc, p). length p)") auto

declare crc_buf.simps [simp del]

definition crc_byte :: "crc_word \<Rightarrow> nat \<Rightarrow> crc_word" where
  "crc_byte thecrc byte_val = COMPUTE thecrc (word_of_nat (byte_val mod 256))"

text \<open>The loop of \<open>crc\<close> over the reads, then over the bytes of the length.\<close>

fun crc_reads :: "crc_word \<Rightarrow> nat \<Rightarrow> read_result list \<Rightarrow> (crc_word \<times> nat) option" where
  "crc_reads thecrc len [] = Some (thecrc, len)"
| "crc_reads thecrc len (Failed # rs) = None"
| "crc_reads thecrc len (Data buf # rs) = crc_reads (crc_buf thecrc buf) (len + length buf) rs"

fun crc_length :: "crc_word \<Rightarrow> nat \<Rightarrow> crc_word" where
  "crc_length thecrc len =
     (if len = 0 then thecrc else crc_length (crc_byte thecrc len) (len div 256))"

declare crc_length.simps [simp del]

definition crc :: "read_result list \<Rightarrow> (crc_word \<times> nat) option" where
  "crc fd =
     (case crc_reads 0 0 fd of
        None \<Rightarrow> None
      | Some (thecrc, len) \<Rightarrow> Some (NOT (crc_length thecrc len), len))"

section \<open>The historic sums\<close>

text \<open>\<open>csum1\<close>: rotate right and add, in 16 bits.\<close>

definition sum1_step :: "crc_word \<Rightarrow> byte \<Rightarrow> crc_word" where
  "sum1_step thecrc p =
     (let thecrc = (if thecrc AND 1 \<noteq> 0 then thecrc OR 0x10000 else thecrc)
      in (drop_bit 1 thecrc + ucast p) AND 0xffff)"

fun sum_reads ::
  "(crc_word \<Rightarrow> byte \<Rightarrow> crc_word) \<Rightarrow> crc_word \<Rightarrow> nat \<Rightarrow> read_result list \<Rightarrow> (crc_word \<times> nat) option" where
  "sum_reads step thecrc n [] = Some (thecrc, n)"
| "sum_reads step thecrc n (Failed # rs) = None"
| "sum_reads step thecrc n (Data buf # rs) =
     sum_reads step (foldl step thecrc buf) (n + length buf) rs"

definition csum1 :: "read_result list \<Rightarrow> (crc_word \<times> nat) option" where
  "csum1 fd = sum_reads sum1_step 0 0 fd"

definition sum2_step :: "crc_word \<Rightarrow> byte \<Rightarrow> crc_word" where
  "sum2_step thecrc p = thecrc + ucast p"

definition sum2_fold :: "crc_word \<Rightarrow> crc_word" where
  "sum2_fold thecrc = (thecrc AND 0xffff) + drop_bit 16 thecrc"

definition csum2 :: "read_result list \<Rightarrow> (crc_word \<times> nat) option" where
  "csum2 fd = map_option (\<lambda>(c, n). (sum2_fold (sum2_fold c), n)) (sum_reads sum2_step 0 0 fd)"

section \<open>Linear steps\<close>

text \<open>
  A step that is linear over exclusive or, and its iterates: what makes table lookup and slicing
  possible.
\<close>

locale xor_linear =
  fixes S :: "'a::len word \<Rightarrow> 'a word"
  assumes linear: "S (x XOR y) = S x XOR S y"
begin

lemma zero: "S 0 = 0"
  using linear [of 0 0] by simp

lemma funpow_linear: "(S ^^ n) (x XOR y) = (S ^^ n) x XOR (S ^^ n) y"
  by (induction n) (simp_all add: linear)

lemma kernel_inj: "(\<And>x. S x = 0 \<Longrightarrow> x = 0) \<Longrightarrow> S x = S y \<Longrightarrow> x = y"
  using linear [of x y] by (metis xor_self_eq xor.assoc xor.right_neutral)

end

text \<open>Division by the generator polynomial, a bit at a time: the reference for the table.\<close>

definition crc_bit :: "crc_word \<Rightarrow> crc_word" where
  "crc_bit x = (if bit x 31 then push_bit 1 x XOR 0x04c11db7 else push_bit 1 x)"

definition crc_shift :: "crc_word \<Rightarrow> crc_word" where
  "crc_shift = crc_bit ^^ 8"

lemma push_bit_xor_word: "push_bit n (x XOR y) = push_bit n x XOR push_bit n (y :: 'a::len word)"
  by (rule bit_word_eqI) (auto simp: bit_simps)

interpretation bit_lin: xor_linear crc_bit
  by standard (auto simp: crc_bit_def push_bit_xor_word bit_xor_iff xor.assoc xor.commute xor.left_commute)

interpretation shift_lin: xor_linear crc_shift
  by standard (simp add: crc_shift_def bit_lin.funpow_linear)

text \<open>A table of a linear function, doubled from its values at the powers of two.\<close>

fun span :: "crc_word list \<Rightarrow> crc_word list" where
  "span [] = [0]"
| "span (v # vs) = span vs @ map ((XOR) v) (span vs)"

lemma crc_shift_8:
  "crc_shift x = crc_bit (crc_bit (crc_bit (crc_bit (crc_bit (crc_bit (crc_bit (crc_bit x)))))))"
  by (simp add: crc_shift_def numeral_eq_Suc)

lemma basis: "map crc_shift [0x80000000, 0x40000000, 0x20000000, 0x10000000, 0x8000000, 0x4000000,
    0x2000000, 0x1000000] =
  [0x690ce0ee, 0x34867077, 0x9823b6e0, 0x4c11db70, 0x2608edb8, 0x130476dc, 0x09823b6e, 0x04c11db7]"
  by (simp add: crc_shift_8 crc_bit_def)

lemma crctab_span:
  "crctab = span [0x690ce0ee, 0x34867077, 0x9823b6e0, 0x4c11db70, 0x2608edb8, 0x130476dc,
     0x09823b6e, 0x04c11db7]"
  by (simp add: crctab_def)

lemma word_of_nat_high_bit:
  assumes "a < 2 ^ n" and "n < 32"
  shows "(word_of_nat (2 ^ n + a) :: crc_word) = 2 ^ n XOR word_of_nat a"
proof -
  have "\<not> bit a n" by (metis assms(1) bit_take_bit_iff less_irrefl take_bit_nat_eq_self)
  then have "(2 ^ n :: crc_word) AND word_of_nat a = 0"
    by (intro bit_word_eqI) (auto simp: bit_simps)
  from disjunctive_add_eq_xor [OF this] show ?thesis by simp
qed

lemma span_nth:
  fixes F :: "crc_word \<Rightarrow> crc_word"
  assumes "xor_linear F" and "n \<le> 32"
  shows "length (span (map (\<lambda>i. F (2 ^ i)) (rev [0..<n]))) = 2 ^ n \<and>
    (\<forall>a < 2 ^ n. span (map (\<lambda>i. F (2 ^ i)) (rev [0..<n])) ! a = F (word_of_nat a))"
  using assms(2)
proof (induction n)
  case 0
  show ?case using xor_linear.zero [OF assms(1)] by simp
next
  case (Suc n)
  let ?l = "span (map (\<lambda>i. F (2 ^ i)) (rev [0..<n]))"
  have l: "length ?l = 2 ^ n" "\<And>a. a < 2 ^ n \<Longrightarrow> ?l ! a = F (word_of_nat a)" using Suc by auto
  have "(?l @ map ((XOR) (F (2 ^ n))) ?l) ! a = F (word_of_nat a)" if a: "a < 2 ^ Suc n" for a
  proof (cases "a < 2 ^ n")
    case True
    with l show ?thesis by (simp add: nth_append)
  next
    case False
    define b where "b = a - 2 ^ n"
    have b: "a = 2 ^ n + b" "b < 2 ^ n" using False a by (simp_all add: b_def)
    have "F (word_of_nat a) = F (2 ^ n) XOR F (word_of_nat b)"
      unfolding b(1) using word_of_nat_high_bit [OF b(2)] Suc.prems xor_linear.linear [OF assms(1)]
      by simp
    with b l show ?thesis by (simp add: nth_append)
  qed
  with l(1) show ?case by simp
qed

lemma crctab_entry: "a < 256 \<Longrightarrow> crctab ! a = crc_shift (push_bit 24 (word_of_nat a))"
proof -
  let ?F = "\<lambda>x. crc_shift (push_bit 24 x)"
  have F: "xor_linear ?F" by unfold_locales (simp add: push_bit_xor_word shift_lin.linear)
  have r: "rev [0..<8] = [7, 6, 5, 4, 3, 2, 1, 0 :: nat]" by (simp add: upt_rec)
  have "crctab = span (map (\<lambda>i. ?F (2 ^ i)) (rev [0..<8]))"
    unfolding r using basis by (simp add: crctab_span)
  with span_nth [OF F, of 8] show "a < 256 \<Longrightarrow> ?thesis" by simp
qed

section \<open>Table lookup is polynomial division\<close>

lemma crc_bit_low: "\<not> bit x 31 \<Longrightarrow> crc_bit x = push_bit 1 x"
  by (simp add: crc_bit_def)

lemma crc_bits_low: "(\<And>i. 32 - n \<le> i \<Longrightarrow> \<not> bit x i) \<Longrightarrow> n \<le> 32 \<Longrightarrow> (crc_bit ^^ n) x = push_bit n x"
proof (induction n)
  case (Suc n)
  then have ih: "(crc_bit ^^ n) x = push_bit n x" by simp
  have "\<not> bit (push_bit n x) 31" using Suc.prems by (auto simp: bit_push_bit_iff)
  then show ?case by (simp add: ih crc_bit_low)
qed simp

lemma crc_shift_low: "take_bit 24 x = x \<Longrightarrow> crc_shift x = push_bit 8 x"
proof -
  assume "take_bit 24 x = x"
  then have "\<not> bit x i" if "32 - 8 \<le> i" for i
  proof -
    have "\<not> bit (take_bit 24 x) i" using that by (simp add: bit_take_bit_iff)
    with \<open>take_bit 24 x = x\<close> show ?thesis by simp
  qed
  then show ?thesis unfolding crc_shift_def by (intro crc_bits_low) simp_all
qed

lemma COMPUTE_eq: "COMPUTE x ch = crc_shift (x XOR push_bit 24 (ucast ch))"
proof -
  let ?t = "drop_bit 24 x XOR ucast ch"
  have t: "take_bit 8 ?t = ?t"
    by (rule bit_word_eqI) (auto simp: bit_simps dest: bit_imp_le_length)
  then have "unat ?t < 256"
  proof -
    have "unat ?t = take_bit 8 (unat ?t)" by (metis t unsigned_take_bit_eq)
    then have "unat ?t < 2 ^ 8" by (metis take_bit_nat_less_exp)
    then show ?thesis by simp
  qed
  then have "crctab ! unat ?t = crc_shift (push_bit 24 ?t)"
    using crctab_entry [of "unat ?t"] by simp
  moreover have "crc_shift (take_bit 24 x) = push_bit 8 x"
    by (subst crc_shift_low) (auto intro: bit_word_eqI simp: bit_simps)
  moreover have "x XOR push_bit 24 (ucast ch) = take_bit 24 x XOR push_bit 24 ?t"
    by (rule bit_word_eqI) (auto simp: bit_simps)
  ultimately show ?thesis by (simp add: COMPUTE_def shift_lin.linear)
qed

lemma COMPUTE_0: "COMPUTE x 0 = crc_shift x"
  by (simp add: COMPUTE_eq)

text \<open>A byte moved up through the word by the shift.\<close>

lemma byte_low: "take_bit 8 v = v \<Longrightarrow> k \<le> 16 \<Longrightarrow> take_bit 24 (push_bit k v) = push_bit k (v :: crc_word)"
proof (rule bit_word_eqI)
  fix i assume v: "take_bit 8 v = v" and k: "k \<le> 16"
  have "bit v j \<Longrightarrow> j < 8" for j using v by (metis bit_take_bit_iff)
  from this [of "i - k"] k show "bit (take_bit 24 (push_bit k v)) i \<longleftrightarrow> bit (push_bit k v) i"
    by (auto simp: bit_simps)
qed

lemma shift_up: "take_bit 8 v = v \<Longrightarrow> k \<le> 16 \<Longrightarrow> crc_shift (push_bit k v) = push_bit (k + 8) v"
  by (simp add: crc_shift_low byte_low add.commute)

text \<open>Four bytes at once, in the bytewise loop.\<close>

lemma be32dec_xor:
  "be32dec p = push_bit 24 (ucast (p ! 0)) XOR push_bit 16 (ucast (p ! 1)) XOR
     push_bit 8 (ucast (p ! 2)) XOR ucast (p ! 3)"
proof -
  have d: "a OR b = a XOR b" if "a AND b = 0" for a b :: crc_word
    using that by (simp add: disjunctive_xor_eq_or)
  have "(ucast b :: crc_word) = take_bit 8 (ucast b)" for b :: byte
    by (rule bit_word_eqI) (auto simp: bit_simps dest: bit_imp_le_length)
  then have b: "bit (ucast b :: crc_word) i \<Longrightarrow> i < 8" for b :: byte and i
    by (metis bit_take_bit_iff)
  show ?thesis
    unfolding be32dec_def
    by (rule bit_word_eqI) (auto simp: bit_push_bit_iff bit_or_iff bit_xor_iff dest: b)
qed

lemma ucast_low: "take_bit 8 (ucast (b :: byte) :: crc_word) = ucast b"
  by (rule bit_word_eqI) (auto simp: bit_simps dest: bit_imp_le_length)

abbreviation shifts :: "nat \<Rightarrow> crc_word \<Rightarrow> crc_word" where
  "shifts n \<equiv> crc_shift ^^ n"

lemma shifts_byte:
  assumes "take_bit 8 v = v"
  shows "shifts (Suc n) v = shifts n (push_bit 8 v)"
    and "shifts (Suc n) (push_bit 8 v) = shifts n (push_bit 16 v)"
    and "shifts (Suc n) (push_bit 16 v) = shifts n (push_bit 24 v)"
  using shift_up [OF assms, of 0] shift_up [OF assms, of 8] shift_up [OF assms, of 16]
  by (simp_all add: funpow_swap1)

lemma shifts_4: "shifts 4 y = crc_shift (crc_shift (crc_shift (crc_shift y)))"
  by (simp add: numeral_eq_Suc)

lemma shifts_3: "shifts 3 y = crc_shift (crc_shift (crc_shift y))"
  by (simp add: numeral_eq_Suc)

lemma four_bytes:
  assumes "length p \<ge> 4"
  shows "foldl COMPUTE x p = foldl COMPUTE (shifts 4 (x XOR be32dec p)) (drop 4 p)"
proof -
  obtain b0 b1 b2 b3 q where p: "p = b0 # b1 # b2 # b3 # q"
    using assms by (cases p; cases "tl p"; cases "tl (tl p)"; cases "tl (tl (tl p))") auto
  have u: "push_bit 24 v = crc_shift (push_bit 16 v)"
    "push_bit 24 v = crc_shift (crc_shift (push_bit 8 v))"
    "push_bit 24 v = crc_shift (crc_shift (crc_shift v))" if "take_bit 8 v = v" for v
    using shift_up [OF that, of 0] shift_up [OF that, of 8] shift_up [OF that, of 16]
    by simp_all
  note u = u(1) [OF ucast_low [of b1]] u(2) [OF ucast_low [of b2]] u(3) [OF ucast_low [of b3]]
  have "foldl COMPUTE x p = foldl COMPUTE (crc_shift (crc_shift (crc_shift (crc_shift
      (x XOR push_bit 24 (ucast b0)) XOR push_bit 24 (ucast b1)) XOR push_bit 24 (ucast b2)) XOR
      push_bit 24 (ucast b3))) q"
    by (simp add: p COMPUTE_eq)
  also have "\<dots> = foldl COMPUTE (shifts 4 (x XOR be32dec p)) q"
    unfolding u by (simp add: p be32dec_xor shifts_4 shift_lin.linear xor.assoc)
  finally show ?thesis by (simp add: p)
qed

text \<open>The sliced tables are the iterates of the shift.\<close>

lemma column_nth: "b < n \<Longrightarrow> column n c ! b = shifts (b + 1) c"
proof (induction n arbitrary: b c)
  case (Suc n)
  have col: "column (Suc n) c = crc_shift c # column n (crc_shift c)"
    by (subst column.simps) (simp add: COMPUTE_0 Let_def)
  show ?case
  proof (cases b)
    case (Suc k)
    with Suc.prems Suc.IH [of k "crc_shift c"] col show ?thesis by (simp add: funpow_swap1)
  qed (simp add: col)
qed simp

lemma unat_less: "take_bit 8 v = (v :: crc_word) \<Longrightarrow> unat v < 256"
proof -
  assume "take_bit 8 v = v"
  then have "unat v = take_bit 8 (unat v)" by (metis unsigned_take_bit_eq)
  then have "unat v < 2 ^ 8" by (metis take_bit_nat_less_exp)
  then show ?thesis by simp
qed

lemma crctab_length: "length crctab = 256"
  by (simp add: crctab_def)

lemma crctab_word: "take_bit 8 v = v \<Longrightarrow> crctab ! unat v = crc_shift (push_bit 24 v)"
  using crctab_entry [OF unat_less] by simp

lemma crcslice_eq:
  assumes "take_bit 8 v = v" and "b < 15"
  shows "crcslice b v = shifts (b + 2) (push_bit 24 v)"
  using assms unat_less [OF assms(1)]
  by (simp add: crcslice_def tables_def crctab_length column_nth crctab_word funpow_swap1)

text \<open>A word taken apart into the four table indices.\<close>

lemma mask_8: "(0xff :: crc_word) = mask 8"
  by (simp add: mask_eq_exp_minus_1)

lemma and_ff [simp]: "take_bit 8 (x AND 0xff) = (x AND 0xff :: crc_word)"
  unfolding mask_8 by (simp add: take_bit_eq_mask and.assoc)

lemma slice_ff: "b < 15 \<Longrightarrow> crcslice b (x AND 0xff) = shifts (b + 2) (push_bit 24 (x AND 0xff))"
  by (rule crcslice_eq [OF and_ff])

lemma table_ff: "crctab ! unat (x AND 0xff :: crc_word) = crc_shift (push_bit 24 (x AND 0xff))"
  by (rule crctab_word [OF and_ff])

lemma word_bytes:
  "(a :: crc_word) = push_bit 24 (drop_bit 24 a AND 0xff) XOR push_bit 16 (drop_bit 16 a AND 0xff) XOR
     push_bit 8 (drop_bit 8 a AND 0xff) XOR (a AND 0xff)"
proof (rule bit_word_eqI)
  fix n assume "n < LENGTH(32)"
  then consider "n < 8" | "8 \<le> n" "n < 16" | "16 \<le> n" "n < 24" | "24 \<le> n" "n < 32"
    by (simp, linarith)
  then show "bit a n = bit (push_bit 24 (drop_bit 24 a AND 0xff) XOR push_bit 16 (drop_bit 16 a AND 0xff)
      XOR push_bit 8 (drop_bit 8 a AND 0xff) XOR (a AND 0xff)) n"
    unfolding mask_8 by cases (auto simp: bit_simps)
qed

lemma shifts_word:
  "shifts (n + 4) a =
     shifts (n + 4) (push_bit 24 (drop_bit 24 a AND 0xff)) XOR
     shifts (n + 3) (push_bit 24 (drop_bit 16 a AND 0xff)) XOR
     shifts (n + 2) (push_bit 24 (drop_bit 8 a AND 0xff)) XOR
     shifts (n + 1) (push_bit 24 (a AND 0xff))"
proof -
  have u: "shifts (Suc m) (push_bit k v) = shifts m (push_bit (k + 8) v)"
    if "take_bit 8 v = v" "k \<le> 16" for m k v
    using shift_up [OF that] by (simp add: funpow_swap1)
  have m: "shifts (n + 4) (push_bit 16 v) = shifts (n + 3) (push_bit 24 v)"
    "shifts (n + 4) (push_bit 8 v) = shifts (n + 2) (push_bit 24 v)"
    "shifts (n + 4) v = shifts (n + 1) (push_bit 24 v)" if "take_bit 8 v = v" for v
    using u [OF that, of 16 "n + 3"] u [OF that, of 8 "n + 3"] u [OF that, of 16 "n + 2"]
      u [OF that, of 0 "n + 3"] u [OF that, of 8 "n + 2"] u [OF that, of 16 "n + 1"]
    by (simp_all add: numeral_eq_Suc)
  show ?thesis
    unfolding m(1) [OF and_ff [of "drop_bit 16 a"], symmetric] m(2) [OF and_ff [of "drop_bit 8 a"], symmetric]
      m(3) [OF and_ff [of a], symmetric] shift_lin.funpow_linear [symmetric]
    by (subst word_bytes [of a]) (simp only: xor.assoc)
qed

lemma shifts_shifts: "shifts m (shifts n x) = shifts (m + n) x"
  by (simp add: funpow_add)

lemma crc_block_eq: "length p \<ge> 16 \<Longrightarrow> foldl COMPUTE (crc_block x p) (drop 16 p) = foldl COMPUTE x p"
proof -
  assume p: "length p \<ge> 16"
  define a b c d where "a = be32dec p XOR x" and "b = be32dec (drop 4 p)" and
    "c = be32dec (drop 8 p)" and "d = be32dec (drop 12 p)"
  have "foldl COMPUTE x p =
      foldl COMPUTE (shifts 4 (shifts 4 (shifts 4 (shifts 4 a XOR b) XOR c) XOR d)) (drop 16 p)"
    using p by (simp add: four_bytes a_def b_def c_def d_def xor.commute)
  also have "shifts 4 (shifts 4 (shifts 4 (shifts 4 a XOR b) XOR c) XOR d) =
      shifts 16 a XOR shifts 12 b XOR shifts 8 c XOR shifts 4 d"
    by (simp add: shift_lin.funpow_linear shifts_shifts xor.assoc)
  also have "\<dots> = crc_block x p"
    using shifts_word [of 12 a] shifts_word [of 8 b] shifts_word [of 4 c] shifts_word [of 0 d]
    by (simp add: crc_block_def Let_def slice_ff table_ff shifts_3 xor.assoc flip: a_def b_def c_def d_def)
  finally show ?thesis by simp
qed

lemma crc_buf_fold: "crc_buf x p = foldl COMPUTE x p"
  by (induction x p rule: crc_buf.induct) (subst crc_buf.simps, simp add: crc_block_eq)

text \<open>The reference: the message's bytes one after the other, divided a bit at a time.\<close>

definition crc_reference :: "crc_word \<Rightarrow> byte list \<Rightarrow> crc_word" where
  "crc_reference x p = foldl (\<lambda>x b. (crc_bit ^^ 8) (x XOR push_bit 24 (ucast b))) x p"

lemma crc_buf_ref: "crc_buf x p = crc_reference x p"
  by (simp add: crc_buf_fold crc_reference_def COMPUTE_eq [abs_def] crc_shift_def)

text \<open>
  C10: \<open>crc_buf\<close>, which takes sixteen bytes at a time through sixteen lookup tables, computes the
  same remainder as the division by the polynomial \<open>0x04c11db7\<close> one bit at a time, for every
  buffer and start value: the tables, their generation and the slicing are right.
\<close>

theorem crc_buf_correct:
  "crc_buf thecrc p = crc_reference thecrc p"
  by (rule crc_buf_ref)

section \<open>The whole file\<close>

definition blocks :: "read_result list \<Rightarrow> byte list" where
  "blocks fd = concat (map (\<lambda>r. case r of Data b \<Rightarrow> b | Failed \<Rightarrow> []) fd)"

lemma crc_reads_eq:
  "crc_reads c n fd =
     (if Failed \<in> set fd then None
      else Some (crc_reference c (blocks fd), n + length (blocks fd)))"
proof (induction fd arbitrary: c n)
  case Nil
  then show ?case by (simp add: blocks_def crc_reference_def)
next
  case (Cons r fd)
  then show ?case
    by (cases r) (simp_all add: crc_buf_ref blocks_def crc_reference_def)
qed

lemma sum_reads_eq:
  "sum_reads step c n fd =
     (if Failed \<in> set fd then None else Some (foldl step c (blocks fd), n + length (blocks fd)))"
proof (induction fd arbitrary: c n)
  case (Cons r fd)
  then show ?case by (cases r) (simp_all add: blocks_def)
qed (simp add: blocks_def)

text \<open>The bytes of a length, lowest first, without high zero bytes.\<close>

fun length_bytes :: "nat \<Rightarrow> byte list" where
  "length_bytes n = (if n = 0 then [] else word_of_nat (n mod 256) # length_bytes (n div 256))"

declare length_bytes.simps [simp del]

lemma crc_length_ref: "crc_length c n = crc_reference c (length_bytes n)"
proof (induction c n rule: crc_length.induct)
  case (1 c n)
  then show ?case
    by (subst crc_length.simps, subst length_bytes.simps)
      (simp add: crc_reference_def crc_byte_def COMPUTE_eq crc_shift_def)
qed

text \<open>
  C29: a read failure is reported whenever it comes; otherwise the CRC depends on the file's
  bytes alone and not on how the reads cut them, and it is the complement of the remainder of
  the bytes followed by those of the length, lowest first and without high zero bytes.
\<close>

theorem crc_file:
  "crc fd =
     (if Failed \<in> set fd then None
      else Some (NOT (crc_reference 0 (blocks fd @ length_bytes (length (blocks fd)))),
                 length (blocks fd)))"
  by (simp add: crc_def crc_reads_eq crc_length_ref) (simp add: crc_reference_def)

section \<open>Error detection\<close>

lemma xor_eq_0: "a XOR b = (0 :: 'a::len word) \<Longrightarrow> a = b"
  by (metis xor_self_eq xor.assoc xor.right_neutral)

lemma xor_cancel: "a XOR c = b XOR c \<Longrightarrow> a = (b :: 'a::len word)"
  by (metis xor_self_eq xor.assoc xor.right_neutral)

lemma crc_bit_kernel:
  assumes "crc_bit x = 0" shows "x = 0"
proof -
  have no_top: "\<not> bit x 31"
  proof
    assume "bit x 31"
    with assms have "push_bit 1 x XOR 0x04c11db7 = 0" unfolding crc_bit_def by (simp only: if_True)
    then have "push_bit 1 x = 0x04c11db7" by (rule xor_eq_0)
    then have "bit (push_bit 1 x) 0 = bit (0x04c11db7 :: crc_word) 0" by (simp only:)
    moreover have "\<not> bit (push_bit 1 x) 0" unfolding bit_push_bit_iff by simp
    ultimately show False by simp
  qed
  with assms have z: "push_bit 1 x = 0" unfolding crc_bit_def by (simp only: if_False)
  have "\<not> bit x n" if "n < 31" for n
  proof -
    have "\<not> bit (push_bit 1 x) (Suc n)" unfolding z by simp
    with that show ?thesis unfolding bit_push_bit_iff by simp
  qed
  moreover have "n < 31 \<or> n = 31" if "n < 32" for n :: nat using that by auto
  ultimately have "\<not> bit x n" if "n < 32" for n using that no_top by blast
  then show "x = 0" by (intro bit_word_eqI) simp
qed

lemma crc_shift_inj: "crc_shift x = crc_shift y \<Longrightarrow> x = y"
proof -
  have "(crc_bit ^^ n) x = (crc_bit ^^ n) y \<Longrightarrow> x = y" for n
    by (induction n) (use bit_lin.kernel_inj [OF crc_bit_kernel] in auto)
  then show "crc_shift x = crc_shift y \<Longrightarrow> x = y" by (simp add: crc_shift_def)
qed

lemma crc_reference_inj: "crc_reference x p = crc_reference y p \<Longrightarrow> x = y"
proof (induction p arbitrary: x y)
  case (Cons b p)
  then have "crc_shift (x XOR push_bit 24 (ucast b)) = crc_shift (y XOR push_bit 24 (ucast b))"
    by (simp add: crc_reference_def crc_shift_def)
  then have "x XOR push_bit 24 (ucast b) = y XOR push_bit 24 (ucast b)" by (rule crc_shift_inj)
  then show ?case by (rule xor_cancel)
qed (simp add: crc_reference_def)

lemma be32dec_inj: "be32dec [a, b, c, d] = be32dec [a', b', c', d'] \<Longrightarrow> [a, b, c, d] = [a', b', c', d']"
proof -
  assume eq: "be32dec [a, b, c, d] = be32dec [a', b', c', d']"
  have bits: "bit (be32dec [a, b, c, d]) (24 + i) = bit a i" "bit (be32dec [a, b, c, d]) (16 + i) = bit b i"
    "bit (be32dec [a, b, c, d]) (8 + i) = bit c i" "bit (be32dec [a, b, c, d]) i = bit d i"
    if "i < 8" for a b c d i
    using that by (auto simp: be32dec_def bit_or_iff bit_push_bit_iff bit_ucast_iff dest: bit_imp_le_length)
  have "bit a i = bit a' i" "bit b i = bit b' i" "bit c i = bit c' i" "bit d i = bit d' i"
    if "i < 8" for i
    using bits [OF that] eq by metis+
  then have "a = a'" "b = b'" "c = c'" "d = d'"
    by (auto intro: bit_word_eqI)
  then show ?thesis by simp
qed

text \<open>
  C30: the CRC of a file changes whenever up to four adjacent bytes of it are changed and the rest
  is kept: no burst of errors within a word goes undetected.
\<close>

theorem crc_detects_burst:
  assumes "length e = 4" and "length e' = 4" and "e \<noteq> e'"
  shows "crc [Data (p @ e @ q)] \<noteq> crc [Data (p @ e' @ q)]"
proof
  assume eq: "crc [Data (p @ e @ q)] = crc [Data (p @ e' @ q)]"
  define w where "w = q @ length_bytes (length (p @ e @ q))"
  have "crc_reference 0 (p @ e @ w) = crc_reference 0 (p @ e' @ w)"
    using eq assms(1,2) by (simp add: crc_def crc_reads_eq crc_length_ref w_def blocks_def) (simp add: crc_reference_def)
  then have "crc_reference (crc_reference (crc_reference 0 p) e) w =
      crc_reference (crc_reference (crc_reference 0 p) e') w"
    by (simp add: crc_reference_def)
  then have "crc_reference (crc_reference 0 p) e = crc_reference (crc_reference 0 p) e'"
    by (rule crc_reference_inj)
  then have "shifts 4 (crc_reference 0 p XOR be32dec e) = shifts 4 (crc_reference 0 p XOR be32dec e')"
    using four_bytes [of e] four_bytes [of e'] assms(1,2) by (simp flip: crc_buf_ref add: crc_buf_fold)
  then have "crc_reference 0 p XOR be32dec e = crc_reference 0 p XOR be32dec e'"
    by (auto simp: shifts_4 dest!: crc_shift_inj)
  then have "be32dec e = be32dec e'" unfolding xor.commute [of "crc_reference 0 p"] by (rule xor_cancel)
  with be32dec_inj assms show False
    by (auto simp: numeral_eq_Suc length_Suc_conv)
qed

theorem crc_detects_burst_witness:
  "crc [Data ([1] @ [0, 0, 0, 1] @ [7])] \<noteq> crc [Data ([1] @ [0, 0, 0, 2] @ [7])]"
  by (rule crc_detects_burst) simp_all

section \<open>The historic sums as numbers\<close>

lemma mask_16: "(0xffff :: crc_word) = mask 16"
  by (simp add: mask_eq_exp_minus_1)

lemma unat_and_ffff: "unat (c AND 0xffff :: crc_word) = unat c mod 2 ^ 16"
  unfolding mask_16 take_bit_eq_mask [symmetric] unsigned_take_bit_eq by (rule take_bit_eq_mod)

lemma unat_shift: "unat (drop_bit n c :: crc_word) = unat c div 2 ^ n"
  by (simp only: unat_drop_bit_eq) (rule drop_bit_eq_div)

lemma unat_byte: "unat (ucast (p :: byte) :: crc_word) = unat p"
proof -
  have "unat p < 2 ^ LENGTH(8)" by (rule unsigned_less)
  then show ?thesis by (simp add: unsigned_ucast_eq take_bit_nat_eq_self)
qed

lemma unat_word_bound: "unat (c :: crc_word) < 2 ^ 32"
  using unsigned_less [of c] by simp

lemma sum2_fold_unat: "unat (sum2_fold c) = unat c mod 2 ^ 16 + unat c div 2 ^ 16"
proof -
  have "unat c mod 2 ^ 16 + unat c div 2 ^ 16 < 2 ^ 32"
    using unat_word_bound [of c] by simp
  then show ?thesis
    unfolding sum2_fold_def unat_word_ariths(1) unat_and_ffff unat_shift by simp
qed

lemma sum2_unat: "unat (foldl sum2_step c bs) = (unat c + sum_list (map unat bs)) mod 2 ^ 32"
proof (induction bs arbitrary: c)
  case Nil
  then show ?case using unat_word_bound [of c] by simp
next
  case (Cons b bs)
  have "unat (sum2_step c b) = (unat c + unat b) mod 2 ^ 32"
    unfolding sum2_step_def unat_word_ariths(1) unat_byte by simp
  then show ?case
    by (simp add: Cons mod_add_left_eq add.assoc mod_simps)
qed

text \<open>
  C31: \<open>csum2\<close> computes what its comment says: with \<open>s\<close> the sum of all bytes, reduced modulo
  \<open>2 ^ 32\<close>, and \<open>r = s mod 2 ^ 16 + s div 2 ^ 16\<close>, the sum \<open>r mod 2 ^ 16 + r div 2 ^ 16\<close>, whatever
  the reads.
\<close>

theorem csum2_correct:
  "csum2 fd =
     (if Failed \<in> set fd then None
      else let s = sum_list (map unat (blocks fd)) mod 2 ^ 32;
               r = s mod 2 ^ 16 + s div 2 ^ 16
           in Some (word_of_nat (r mod 2 ^ 16 + r div 2 ^ 16), length (blocks fd)))"
proof (cases "Failed \<in> set fd")
  case False
  have "word_of_nat (unat w) = w" for w :: crc_word by simp
  then have "sum2_fold (sum2_fold c) = word_of_nat
      ((unat c mod 2 ^ 16 + unat c div 2 ^ 16) mod 2 ^ 16 + (unat c mod 2 ^ 16 + unat c div 2 ^ 16) div 2 ^ 16)"
    for c
    by (metis sum2_fold_unat)
  from this [of "foldl sum2_step 0 (blocks fd)"] False show ?thesis
    unfolding sum2_unat by (simp add: csum2_def sum_reads_eq Let_def)
qed (simp add: csum2_def sum_reads_eq)

definition sum1_spec :: "nat \<Rightarrow> byte \<Rightarrow> nat" where
  "sum1_spec r p = (r div 2 + (r mod 2) * 2 ^ 15 + unat p) mod 2 ^ 16"

lemma sum1_unat:
  assumes "unat c < 2 ^ 16"
  shows "unat (sum1_step c p) = sum1_spec (unat c) p"
proof -
  define t where "t = (if c AND 1 \<noteq> 0 then c OR 0x10000 else c)"
  have odd: "c AND 1 \<noteq> 0 \<longleftrightarrow> unat c mod 2 \<noteq> 0"
    by (simp add: and_one_eq word_eq_iff_unsigned [where ?'a = nat] unat_mod_distrib
      flip: mod_2_eq_odd)
  have t: "unat t = unat c + (unat c mod 2) * 2 ^ 16"
  proof (cases "c AND 1 = 0")
    case False
    have "take_bit 16 c = c"
      using assms by (simp add: word_unat_eq_iff unsigned_take_bit_eq take_bit_nat_eq_self)
    moreover have "\<not> bit (take_bit 16 c) 16" by (simp add: bit_take_bit_iff)
    ultimately have "\<not> bit c 16" by simp
    then have "c AND 2 ^ 16 = 0"
      by (intro bit_word_eqI) (unfold bit_and_iff bit_exp_iff, auto)
    then have "c + 2 ^ 16 = c OR 2 ^ 16" by (rule disjunctive_add_eq_or)
    then have "t = c + 2 ^ 16" using False by (simp add: t_def)
    moreover have "unat (c + 2 ^ 16) = unat c + 2 ^ 16"
      unfolding unat_word_ariths(1) using assms by simp
    ultimately show ?thesis using False odd by (simp add: mod2_eq_if split: if_splits)
  qed (use odd in \<open>simp add: t_def\<close>)
  have "unat t div 2 = unat c div 2 + (unat c mod 2) * 2 ^ 15" using t by simp
  moreover have "unat t div 2 + unat p < 2 ^ 32"
  proof -
    have "unat p < 2 ^ LENGTH(8)" by (rule unsigned_less)
    moreover have "unat c mod 2 < 2" by simp
    ultimately show ?thesis using assms t by simp
  qed
  ultimately show ?thesis
    unfolding sum1_step_def t_def [symmetric] Let_def sum1_spec_def unat_and_ffff
      unat_word_ariths(1) unat_shift unat_byte by simp
qed

lemma sum1_fold_unat:
  "unat c < 2 ^ 16 \<Longrightarrow> unat (foldl sum1_step c bs) = foldl sum1_spec (unat c) bs"
proof (induction bs arbitrary: c)
  case (Cons b bs)
  have "unat (sum1_step c b) < 2 ^ 16"
    using sum1_unat [OF Cons.prems, of b] by (simp add: sum1_spec_def)
  with Cons.IH sum1_unat [OF Cons.prems, of b] show ?case by simp
qed simp

text \<open>
  \<open>csum1\<close> rotates a sum of 16 bits right and adds each byte modulo \<open>2 ^ 16\<close>, whatever the
  reads.
\<close>

theorem csum1_correct:
  "csum1 fd =
     (if Failed \<in> set fd then None
      else Some (word_of_nat (foldl sum1_spec 0 (blocks fd)), length (blocks fd)))"
proof -
  have "word_of_nat (unat w) = w" for w :: crc_word by simp
  from this [of "foldl sum1_step 0 (blocks fd)", symmetric] show ?thesis
    using sum1_fold_unat [of 0 "blocks fd"] by (simp add: csum1_def sum_reads_eq)
qed

end
