(* ===== verification/Tr.thy ===== *)
theory Tr
  imports Prelude
begin

text \<open>
  \<open>coreutils/tr\<close>: the scanner of the two strings (\<open>str.c\<close>) and the program's modes (\<open>tr.c\<close>).
  A character of the scanner is its code. The text it points into is the rest of the argument
  with its terminating 0; a pointer moved past the terminator is the empty list, and reading there is
  the error \<open>ReadOverrun\<close>; a store or a read outside the tables \<open>string1\<close> and
  \<open>string2\<close> is \<open>StoreOverrun\<close> or \<open>LoadOverrun\<close>.
  \<open>errx\<close> is an error value, and a loop that never ends is \<open>None\<close>.
\<close>

datatype scan_error =
    UnknownClass | MisplacedEquals | MisplacedBracket | SequenceInString1 | MisplacedAsterisk
  | IllegalCount | InvalidOctal | ReadOverrun

datatype tr_error = Scan scan_error | EmptyString2 | Usage | StoreOverrun | LoadOverrun

abbreviation NCHARS :: nat where "NCHARS \<equiv> 256"
abbreviation OOBCH :: int where "OOBCH \<equiv> 256"

section \<open>The scanner\<close>

datatype scan_state = EOS | INFINITE | NORMAL | RANGE | SEQUENCE | SET

text \<open>\<open>equiv\<close> is left out: it is only the storage of a \<open>set\<close> of one character.\<close>

record str =
  is_string2 :: bool
  state :: scan_state
  cnt :: int
  lastch :: int
  members :: "int list"
  ptr :: "nat list"

definition str_create :: "bool \<Rightarrow> string \<Rightarrow> str" where
  "str_create second arg =
     \<lparr>is_string2 = second, state = NORMAL, cnt = 0, lastch = OOBCH, members = [],
      ptr = map code arg @ [0]\<rparr>"

definition peek :: "nat list \<Rightarrow> scan_error + nat" where
  "peek p = (case p of [] \<Rightarrow> Inl ReadOverrun | c # _ \<Rightarrow> Inr c)"

subsection \<open>Escapes\<close>

text \<open>The digits after a backslash: their number and value, the character looked at, the rest.\<close>

fun backslash_loop :: "nat \<Rightarrow> int \<Rightarrow> nat list \<Rightarrow> scan_error + nat \<times> int \<times> nat \<times> nat list" where
  "backslash_loop n val [] = Inl ReadOverrun"
| "backslash_loop n val (c # p) =
     (case p of
        [] \<Rightarrow> Inl ReadOverrun
      | ch # p' \<Rightarrow>
          if \<not> isdigit ch then Inr (n, val, ch, p)
          else if n + 1 = 3 then Inr (3, val * 8 + int ch - 48, ch, p')
          else backslash_loop (n + 1) (val * 8 + int ch - 48) p)"

declare backslash_loop.simps(2) [simp del]

definition escapes :: "(nat \<times> int) list" where
  "escapes =
    [(code CHR ''a'', 7), (code CHR ''b'', 8), (code CHR ''e'', 27), (code CHR ''f'', 12),
     (code CHR ''n'', 10), (code CHR ''r'', 13), (code CHR ''t'', 9), (code CHR ''v'', 11)]"

definition backslash :: "str \<Rightarrow> scan_error + int \<times> str" where
  "backslash s =
     rbind (backslash_loop 0 0 (ptr s)) (\<lambda>(n, val, ch, p).
       if n \<noteq> 0 then (if val \<ge> OOBCH then Inl InvalidOctal else Inr (val, s\<lparr>ptr := p\<rparr>))
       else if ch = 0 then Inr (92, s\<lparr>state := EOS, ptr := p\<rparr>)
       else Inr (case map_of escapes ch of Some v \<Rightarrow> v | None \<Rightarrow> int ch, s\<lparr>ptr := tl p\<rparr>))"

text \<open>A character that may be escaped, with the text after it.\<close>

definition take_char :: "str \<Rightarrow> scan_error + int \<times> str" where
  "take_char s =
     rbind (peek (ptr s)) (\<lambda>ch.
       if ch = 92 then backslash s else Inr (int ch, s\<lparr>ptr := tl (ptr s)\<rparr>))"

subsection \<open>Ranges, classes, sequences\<close>

text \<open>\<open>genrange\<close>, at the hyphen; \<open>False\<close> is a range that runs backwards.\<close>

definition genrange :: "str \<Rightarrow> scan_error + bool \<times> str" where
  "genrange s =
     rbind (take_char (s\<lparr>ptr := tl (ptr s)\<rparr>)) (\<lambda>(stopval, s').
       if stopval < lastch s mod 256 then Inr (False, s'\<lparr>ptr := ptr s\<rparr>)
       else Inr (True, s'\<lparr>cnt := stopval - lastch s + 1, state := RANGE, lastch := lastch s - 1\<rparr>))"

definition classes :: "(string \<times> (nat \<Rightarrow> bool)) list" where
  "classes =
    [(''alnum'', isalnum), (''alpha'', isalpha), (''blank'', isblank), (''cntrl'', iscntrl),
     (''digit'', isdigit), (''graph'', isgraph), (''lower'', islower), (''print'', isprint),
     (''punct'', ispunct), (''space'', isspace), (''upper'', isupper), (''xdigit'', isxdigit)]"

text \<open>
  \<open>c_class\<close> with the comparison of \<open>strncmp\<close>: 0 when the key, which is not terminated, is the
  name. \<open>bsearch\<close> finds the entry that compares equal.
\<close>

fun strncmp :: "nat list \<Rightarrow> nat list \<Rightarrow> int" where
  "strncmp [] name = 0"
| "strncmp (k # key) [] = int k"
| "strncmp (k # key) (n # name) = (if k = n then strncmp key name else int k - int n)"

definition c_class :: "nat list \<Rightarrow> string \<Rightarrow> int" where
  "c_class key name =
     (let r = strncmp key (map code name) in
      if r \<noteq> 0 then r else if length key < length name then -1 else 0)"

definition genclass :: "nat list \<Rightarrow> scan_error + int list" where
  "genclass key =
     (case find (\<lambda>(name, f). c_class key name = 0) classes of
        None \<Rightarrow> Inl UnknownClass
      | Some (name, f) \<Rightarrow> Inr (map int (filter f [0..<NCHARS]) @ [OOBCH]))"

text \<open>
  \<open>strstr(p, ab)\<close> on a terminated text, for two characters: what comes before their first
  occurrence and what comes after it.
\<close>

fun find_pair :: "nat \<Rightarrow> nat \<Rightarrow> nat list \<Rightarrow> (nat list \<times> nat list) option" where
  "find_pair a b (x # y # p) =
     (if x = 0 then None
      else if x = a \<and> y = b then Some ([], p)
      else map_option (\<lambda>(u, v). (x # u, v)) (find_pair a b (y # p)))"
| "find_pair a b p = None"

definition genequiv :: "str \<Rightarrow> scan_error + str" where
  "genequiv s =
     rbind (take_char s) (\<lambda>(v, s).
     rbind (peek (ptr s)) (\<lambda>c.
       if c \<noteq> code CHR ''='' then Inl MisplacedEquals
       else
         let s = s\<lparr>ptr := tl (ptr s)\<rparr> in
         rbind (peek (ptr s)) (\<lambda>c.
           if c \<noteq> code CHR '']'' then Inl MisplacedBracket
           else Inr (s\<lparr>ptr := tl (ptr s), cnt := 0, state := SET, members := [v, OOBCH]\<rparr>))))"

text \<open>\<open>strtol(p, &ep, 0)\<close> where \<open>p\<close> starts with a digit, cut down to an \<open>int\<close>.\<close>

definition digit_value :: "nat \<Rightarrow> nat" where
  "digit_value c = (if isdigit c then c - 48 else tolower c - 87)"

definition is_base_digit :: "nat \<Rightarrow> nat \<Rightarrow> bool" where
  "is_base_digit base c \<longleftrightarrow> isxdigit c \<and> digit_value c < base"

definition number :: "nat \<Rightarrow> nat list \<Rightarrow> int \<times> nat list" where
  "number base p =
     (min (int (foldl (\<lambda>n c. n * base + digit_value c) 0 (takeWhile (is_base_digit base) p)))
        (2 ^ 63 - 1),
      dropWhile (is_base_digit base) p)"

definition strtol0 :: "nat list \<Rightarrow> int \<times> nat list" where
  "strtol0 p =
     (if length p \<ge> 3 \<and> p ! 0 = 48 \<and> tolower (p ! 1) = code CHR ''x'' \<and> is_base_digit 16 (p ! 2)
      then number 16 (drop 2 p)
      else if p ! 0 = 48 then number 8 p else number 10 p)"

definition to_int :: "int \<Rightarrow> int" where
  "to_int n = (n + 2 ^ 31) mod 2 ^ 32 - 2 ^ 31"

definition seq_count :: "str \<Rightarrow> scan_error + str" where
  "seq_count s =
     rbind (peek (ptr s)) (\<lambda>c.
       if c = 92 then rmap (\<lambda>(v, s). s\<lparr>cnt := v\<rparr>) (backslash s)
       else if c = code CHR '']'' then Inr (s\<lparr>cnt := 0, ptr := tl (ptr s)\<rparr>)
       else if isdigit c then
         (case strtol0 (ptr s) of
            (n, ep) \<Rightarrow>
              rbind (peek ep) (\<lambda>e.
                if e = code CHR '']'' then Inr (s\<lparr>cnt := to_int n, ptr := tl ep\<rparr>)
                else Inl IllegalCount))
       else Inl IllegalCount)"

definition genseq :: "str \<Rightarrow> scan_error + str" where
  "genseq s =
     (if \<not> is_string2 s then Inl SequenceInString1
      else
        rbind (take_char s) (\<lambda>(v, s).
          let s = s\<lparr>lastch := v\<rparr> in
          rbind (peek (ptr s)) (\<lambda>c.
            if c \<noteq> code CHR ''*'' then Inl MisplacedAsterisk
            else rmap (\<lambda>s. s\<lparr>state := (if cnt s \<noteq> 0 then SEQUENCE else INFINITE)\<rparr>)
                   (seq_count (s\<lparr>ptr := tl (ptr s)\<rparr>)))))"

text \<open>\<open>strpbrk(p, "*]")\<close>: the text from the first of the two on.\<close>

definition strpbrk :: "nat list \<Rightarrow> nat list option" where
  "strpbrk p =
     (case dropWhile (\<lambda>c. c \<noteq> 0 \<and> c \<noteq> code CHR ''*'' \<and> c \<noteq> code CHR '']'') p of
        [] \<Rightarrow> None | c # q \<Rightarrow> if c = 0 then None else Some (c # q))"

text \<open>
  \<open>bracket\<close>, at an opening bracket; \<open>None\<close> leaves it, and the scanner, as they are.
\<close>

definition bracket :: "str \<Rightarrow> scan_error + str option" where
  "bracket s =
     rbind (peek (drop 1 (ptr s))) (\<lambda>c.
       if c = code CHR '':'' then
         (case find_pair (code CHR '':'') (code CHR '']'') (drop 2 (ptr s)) of
            None \<Rightarrow> Inr None
          | Some (key, p) \<Rightarrow>
              rmap (\<lambda>q. Some (s\<lparr>state := SET, members := q, cnt := 0, ptr := p\<rparr>)) (genclass key))
       else if c = code CHR ''='' then
         (case find_pair (code CHR ''='') (code CHR '']'') (drop 2 (ptr s)) of
            None \<Rightarrow> Inr None
          | Some (_, p) \<Rightarrow>
              rmap (\<lambda>s. Some (s\<lparr>ptr := p\<rparr>)) (genequiv (s\<lparr>ptr := drop 2 (ptr s)\<rparr>)))
       else if drop 2 (ptr s) = [] then Inl ReadOverrun
       else
         (case strpbrk (drop 2 (ptr s)) of
            None \<Rightarrow> Inr None
          | Some p \<Rightarrow>
              if hd p \<noteq> code CHR ''*'' \<or> code CHR '']'' \<notin> set (takeWhile (\<lambda>c. c \<noteq> 0) p)
              then Inr None
              else rmap Some (genseq (s\<lparr>ptr := drop 1 (ptr s)\<rparr>))))"

subsection \<open>The next character\<close>

text \<open>Every step back into the normal state has consumed text, so \<open>next\<close> returns.\<close>

lemma backslash_loop_shrinks:
  "backslash_loop n val p = Inr (n', v, ch, p') \<Longrightarrow>
     length p' < length p \<and> n \<le> n' \<and> (n' = n \<longrightarrow> p' \<noteq> [])"
proof (induction n val p rule: backslash_loop.induct)
  case (2 n val c p)
  show ?case
  proof (cases p)
    case (Cons d q)
    consider "\<not> isdigit d" | "isdigit d" "n + 1 = 3" | "isdigit d" "n + 1 \<noteq> 3" by blast
    then show ?thesis
    proof cases
      case 3
      with "2.prems" Cons have "backslash_loop (n + 1) (val * 8 + int d - 48) p = Inr (n', v, ch, p')"
        by (simp add: backslash_loop.simps(2) [of n])
      with "2.IH" [OF Cons] 3 show ?thesis by simp
    qed (use "2.prems" Cons in \<open>auto simp: backslash_loop.simps(2)\<close>)
  qed (use "2.prems" in \<open>simp add: backslash_loop.simps(2)\<close>)
qed simp

lemma backslash_shrinks: "backslash s = Inr (v, s') \<Longrightarrow> length (ptr s') < length (ptr s)"
proof -
  assume b: "backslash s = Inr (v, s')"
  then obtain n val ch p where l: "backslash_loop 0 0 (ptr s) = Inr (n, val, ch, p)"
    by (cases "backslash_loop 0 0 (ptr s)") (auto simp: backslash_def)
  with b have "ptr s' = (if n = 0 \<and> ch \<noteq> 0 then tl p else p)"
    by (simp add: backslash_def split: if_splits) auto
  with backslash_loop_shrinks [OF l] show ?thesis by auto
qed

lemma peek_Inr [simp]: "peek p = Inr c \<longleftrightarrow> p \<noteq> [] \<and> hd p = c"
  by (cases p) (auto simp: peek_def)

lemma take_char_shrinks: "take_char s = Inr (v, s') \<Longrightarrow> length (ptr s') < length (ptr s)"
  by (auto simp: take_char_def result_simps dest: backslash_shrinks split: if_splits)

lemma genrange_shrinks: "genrange s = Inr (b, s') \<Longrightarrow> length (ptr s') \<le> length (ptr s)"
  by (auto simp: genrange_def result_simps dest!: take_char_shrinks split: if_splits)

lemma find_pair_shrinks: "find_pair a b p = Some (u, v) \<Longrightarrow> length v < length p"
  by (induction a b p arbitrary: u v rule: find_pair.induct) (auto split: if_splits)

lemma number_shrinks: "length (snd (number base p)) \<le> length p"
  by (simp add: number_def length_dropWhile_le)

lemma strtol0_shrinks: "strtol0 p = (n, ep) \<Longrightarrow> length ep \<le> length p"
  using number_shrinks [of 8 p] number_shrinks [of 10 p] number_shrinks [of 16 "drop 2 p"]
  by (auto simp: strtol0_def split: if_splits)

lemma seq_count_shrinks: "seq_count s = Inr s' \<Longrightarrow> length (ptr s') \<le> length (ptr s)"
proof -
  assume s: "seq_count s = Inr s'"
  obtain n ep where n: "strtol0 (ptr s) = (n, ep)" by force
  obtain c where c: "peek (ptr s) = Inr c" using s by (cases "peek (ptr s)") (simp_all add: seq_count_def)
  consider "c = 92" | "c = 93" | "c \<noteq> 92" "c \<noteq> 93" by blast
  then show ?thesis
  proof cases
    case 1
    with s c show ?thesis by (auto simp: seq_count_def result_simps dest: backslash_shrinks)
  next
    case 2
    with s c show ?thesis by (auto simp: seq_count_def)
  next
    case 3
    with s c n have "ptr s' = tl ep"
      by (auto simp: seq_count_def result_simps simp del: peek_Inr split: if_splits)
    with strtol0_shrinks [OF n] show ?thesis by simp
  qed
qed

lemma genseq_shrinks: "genseq s = Inr s' \<Longrightarrow> length (ptr s') < length (ptr s)"
  by (auto simp: genseq_def Let_def result_simps dest!: take_char_shrinks seq_count_shrinks
    split: if_splits)

lemma bracket_shrinks: "bracket s = Inr (Some s') \<Longrightarrow> length (ptr s') < length (ptr s)"
proof -
  assume b: "bracket s = Inr (Some s')"
  obtain c where c: "peek (drop 1 (ptr s)) = Inr c"
    using b by (cases "peek (drop 1 (ptr s))") (simp_all add: bracket_def)
  consider (colon) "c = code CHR '':''" | (equals) "c = code CHR ''=''" "c \<noteq> code CHR '':''"
    | (seq) "c \<noteq> code CHR '':''" "c \<noteq> code CHR ''=''" by blast
  then show ?thesis
  proof cases
    case colon
    with b c obtain key p where "find_pair 58 93 (drop 2 (ptr s)) = Some (key, p)" "ptr s' = p"
      by (auto simp: bracket_def result_simps split: option.splits)
    then show ?thesis using find_pair_shrinks by fastforce
  next
    case equals
    with b c obtain key p where "find_pair 61 93 (drop 2 (ptr s)) = Some (key, p)" "ptr s' = p"
      by (auto simp: bracket_def result_simps split: option.splits)
    then show ?thesis using find_pair_shrinks by fastforce
  next
    case seq
    with b c have "genseq (s\<lparr>ptr := drop 1 (ptr s)\<rparr>) = Inr s'"
      by (auto simp: bracket_def result_simps split: option.splits if_splits)
    then show ?thesis using genseq_shrinks by fastforce
  qed
qed

text \<open>
  \<open>next(s, &ret)\<close>: the value of \<open>ret\<close>, whether there was a character, and the scanner. A
  character of its own with the range it may start, and the normal state, are functions that
  return \<open>None\<close> when \<open>next\<close> is to be called again.
\<close>

definition next_single :: "nat \<Rightarrow> str \<Rightarrow> scan_error + (int \<times> bool) option \<times> str" where
  "next_single ch s =
     rbind (if ch = 92 then rmap (\<lambda>(v, s). s\<lparr>lastch := v\<rparr>) (backslash s)
            else Inr (s\<lparr>ptr := tl (ptr s), lastch := int ch\<rparr>)) (\<lambda>s.
     rbind (peek (ptr s)) (\<lambda>c.
     rbind (if c = code CHR ''-'' then genrange s else Inr (False, s)) (\<lambda>(again, s).
       Inr (if again then None else Some (lastch s, True), s))))"

definition next_normal :: "str \<Rightarrow> scan_error + (int \<times> bool) option \<times> str" where
  "next_normal s =
     rbind (peek (ptr s)) (\<lambda>ch.
       if ch = 0 then Inr (Some (lastch s, False), s\<lparr>state := EOS\<rparr>)
       else
         rbind (if ch = code CHR ''['' then bracket s else Inr None) (\<lambda>b.
           case b of Some s' \<Rightarrow> Inr (None, s') | None \<Rightarrow> next_single ch s))"

lemma next_single_shrinks:
  "next_single ch s = Inr (r, s') \<Longrightarrow> ptr s \<noteq> [] \<Longrightarrow> length (ptr s') < length (ptr s)"
proof -
  assume n: "next_single ch s = Inr (r, s')" and p: "ptr s \<noteq> []"
  define q where "q = (if ch = 92 then rmap (\<lambda>(v, s). s\<lparr>lastch := v\<rparr>) (backslash s)
    else Inr (s\<lparr>ptr := tl (ptr s), lastch := int ch\<rparr>))"
  from n obtain s1 where q: "q = Inr s1" and le: "s' = s1 \<or> (\<exists>b. genrange s1 = Inr (b, s'))"
    by (auto simp: next_single_def q_def [symmetric] result_simps split: if_splits)
  from q p have "length (ptr s1) < length (ptr s)"
    by (auto simp: q_def result_simps dest!: backslash_shrinks split: if_splits)
  moreover from le have "length (ptr s') \<le> length (ptr s1)" by (auto dest: genrange_shrinks)
  ultimately show ?thesis by simp
qed

lemma next_normal_shrinks:
  assumes n: "next_normal s = Inr (None, s')" shows "length (ptr s') < length (ptr s)"
proof -
  obtain ch p where p: "ptr s = ch # p"
    using n by (cases "ptr s") (auto simp: next_normal_def peek_def)
  with n have "bracket s = Inr (Some s') \<or> next_single ch s = Inr (None, s')"
    by (auto simp: next_normal_def peek_def [of "ch # p"] result_simps
      split: if_splits option.splits)
  then show ?thesis using bracket_shrinks [of s s'] next_single_shrinks [of ch s None s'] p by auto
qed

function next_char :: "str \<Rightarrow> scan_error + int \<times> bool \<times> str" where
  "next_char s =
     (case state s of
        EOS \<Rightarrow> Inr (lastch s, False, s)
      | INFINITE \<Rightarrow> Inr (lastch s, True, s)
      | NORMAL \<Rightarrow>
          rbind (next_normal s) (\<lambda>(r, s'). case r of
            Some (ret, got) \<Rightarrow> Inr (ret, got, s') | None \<Rightarrow> next_char s')
      | RANGE \<Rightarrow>
          if cnt s = 0 then next_char (s\<lparr>state := NORMAL\<rparr>)
          else Inr (lastch s + 1, True, s\<lparr>cnt := cnt s - 1, lastch := lastch s + 1\<rparr>)
      | SEQUENCE \<Rightarrow>
          if cnt s = 0 then next_char (s\<lparr>state := NORMAL\<rparr>)
          else Inr (lastch s, True, s\<lparr>cnt := cnt s - 1\<rparr>)
      | SET \<Rightarrow>
          let c = members s ! nat (cnt s); s = s\<lparr>lastch := c, cnt := cnt s + 1\<rparr> in
          if c = OOBCH then next_char (s\<lparr>state := NORMAL, members := []\<rparr>)
          else Inr (c, True, s))"
  by pat_completeness auto
termination
  by (relation "measure (\<lambda>s. 2 * length (ptr s) + of_bool (state s \<noteq> NORMAL))")
    (auto dest!: next_normal_shrinks)

declare next_char.simps [simp del]

section \<open>The program\<close>

text \<open>The tables \<open>string1\<close> and \<open>string2\<close>, static arrays of \<open>NCHARS\<close> zeros.\<close>

definition no_chars :: "int list" where
  "no_chars = replicate NCHARS 0"

definition store :: "int list \<Rightarrow> int \<Rightarrow> int \<Rightarrow> tr_error + int list" where
  "store t i v = (if 0 \<le> i \<and> i < int NCHARS then Inr (t[nat i := v]) else Inl StoreOverrun)"

definition load :: "int list \<Rightarrow> int \<Rightarrow> tr_error + int" where
  "load t i = (if 0 \<le> i \<and> i < int NCHARS then Inr (t ! nat i) else Inl LoadOverrun)"

text \<open>\<open>setup\<close>: its loop ends only if the scanner does.\<close>

partial_function (option) setup_loop :: "str \<Rightarrow> int list \<Rightarrow> (tr_error + int list) option" where
  "setup_loop s t =
     (case next_char s of
        Inl e \<Rightarrow> Some (Inl (Scan e))
      | Inr (ch, got, s') \<Rightarrow>
          if \<not> got then Some (Inr t)
          else case store t ch 1 of Inl e \<Rightarrow> Some (Inl e) | Inr t' \<Rightarrow> setup_loop s' t')"

definition setup_chars :: "string \<Rightarrow> bool \<Rightarrow> bool \<Rightarrow> (tr_error + int list) option" where
  "setup_chars arg second cflag =
     map_option (rmap (\<lambda>t. if cflag then map (\<lambda>x. of_bool (x = 0)) t else t))
       (setup_loop (str_create second arg) no_chars)"

text \<open>The body of the loop that matches the two strings: a translation, and a mark for \<open>-s\<close>.\<close>

definition set_translation ::
  "bool \<Rightarrow> int \<Rightarrow> int \<Rightarrow> int list \<times> int list \<Rightarrow> tr_error + int list \<times> int list" where
  "set_translation sflag ch ch2 t =
     rbind (store (fst t) ch ch2) (\<lambda>t1.
       if sflag then rmap (\<lambda>t2. (t1, t2)) (store (snd t) ch2 1) else Inr (t1, snd t))"

partial_function (option) match_loop ::
  "bool \<Rightarrow> str \<Rightarrow> str \<Rightarrow> int \<Rightarrow> int list \<times> int list \<Rightarrow> (tr_error + int list \<times> int list) option" where
  "match_loop sflag s1 s2 ch2 t =
     (case next_char s1 of
        Inl e \<Rightarrow> Some (Inl (Scan e))
      | Inr (ch, got, s1') \<Rightarrow>
          if \<not> got then Some (Inr t)
          else case set_translation sflag ch ch2 t of
            Inl e \<Rightarrow> Some (Inl e)
          | Inr t' \<Rightarrow>
              case next_char s2 of
                Inl e \<Rightarrow> Some (Inl (Scan e))
              | Inr (ch2', _, s2') \<Rightarrow> match_loop sflag s1' s2' ch2' t')"

declare setup_loop.simps [code] match_loop.simps [code]

text \<open>The same loop with \<open>-c\<close>, over the characters from \<open>ch\<close> on.\<close>

fun complement_loop ::
  "bool \<Rightarrow> str \<Rightarrow> int \<Rightarrow> nat list \<Rightarrow> int list \<times> int list \<Rightarrow> tr_error + int list \<times> int list" where
  "complement_loop sflag s2 ch2 [] t = Inr t"
| "complement_loop sflag s2 ch2 (ch # chs) t =
     (if fst t ! ch = 0 then complement_loop sflag s2 ch2 chs ((fst t)[ch := int ch], snd t)
      else
        rbind (set_translation sflag (int ch) ch2 t) (\<lambda>t.
        rbind (map_sum Scan id (next_char s2)) (\<lambda>(ch2, _, s2). complement_loop sflag s2 ch2 chs t)))"

text \<open>The loops over the input; \<open>putchar\<close> writes its argument modulo 256.\<close>

fun delete_squeeze :: "int list \<Rightarrow> int list \<Rightarrow> int \<Rightarrow> string \<Rightarrow> string" where
  "delete_squeeze string1 string2 prev [] = []"
| "delete_squeeze string1 string2 prev (ch # inp) =
     (if string1 ! code ch = 0 \<and> (string2 ! code ch = 0 \<or> prev \<noteq> int (code ch))
      then ch # delete_squeeze string1 string2 (int (code ch)) inp
      else delete_squeeze string1 string2 prev inp)"

fun delete :: "int list \<Rightarrow> string \<Rightarrow> string" where
  "delete string1 [] = []"
| "delete string1 (ch # inp) =
     (if string1 ! code ch = 0 then ch # delete string1 inp else delete string1 inp)"

fun squeeze :: "int list \<Rightarrow> int \<Rightarrow> string \<Rightarrow> string" where
  "squeeze string1 prev [] = []"
| "squeeze string1 prev (ch # inp) =
     (if string1 ! code ch = 0 \<or> prev \<noteq> int (code ch) then ch # squeeze string1 (int (code ch)) inp
      else squeeze string1 prev inp)"

definition putchar :: "int \<Rightarrow> char" where
  "putchar c = chr (nat (c mod 256))"

fun translate_squeeze :: "int list \<Rightarrow> int list \<Rightarrow> int \<Rightarrow> string \<Rightarrow> tr_error + string" where
  "translate_squeeze string1 string2 prev [] = Inr []"
| "translate_squeeze string1 string2 prev (ch # inp) =
     (let c = string1 ! code ch in
      rbind (load string2 c) (\<lambda>marked.
        if marked = 0 \<or> prev \<noteq> c
        then rmap ((#) (putchar c)) (translate_squeeze string1 string2 c inp)
        else translate_squeeze string1 string2 prev inp))"

definition translate :: "int list \<Rightarrow> string \<Rightarrow> string" where
  "translate string1 inp = map (\<lambda>ch. putchar (string1 ! code ch)) inp"

text \<open>The translating mode of \<open>main\<close>: the tables, then the output.\<close>

definition tables ::
  "bool \<Rightarrow> bool \<Rightarrow> string \<Rightarrow> string \<Rightarrow> (tr_error + int list \<times> int list) option" where
  "tables cflag sflag arg1 arg2 =
     (case (if cflag then setup_chars arg1 False True else Some (Inr (map int [0..<NCHARS]))) of
        None \<Rightarrow> None
      | Some (Inl e) \<Rightarrow> Some (Inl e)
      | Some (Inr string1) \<Rightarrow>
          (case next_char (str_create True arg2) of
             Inl e \<Rightarrow> Some (Inl (Scan e))
           | Inr (ch2, got, s2) \<Rightarrow>
               if \<not> got then Some (Inl EmptyString2)
               else if cflag then
                 Some (complement_loop sflag s2 ch2 [0..<NCHARS] (string1, no_chars))
               else match_loop sflag (str_create False arg1) s2 ch2 (string1, no_chars)))"

definition tr :: "bool \<Rightarrow> bool \<Rightarrow> bool \<Rightarrow> string list \<Rightarrow> string \<Rightarrow> (tr_error + string) option" where
  "tr cflag dflag sflag argv inp =
     (case argv of
        [arg1] \<Rightarrow>
          if dflag \<and> sflag then Some (Inl Usage)
          else if dflag then map_option (rmap (\<lambda>s1. delete s1 inp)) (setup_chars arg1 False cflag)
          else if sflag then map_option (rmap (\<lambda>s1. squeeze s1 OOBCH inp)) (setup_chars arg1 False cflag)
          else Some (Inl Usage)
      | [arg1, arg2] \<Rightarrow>
          if dflag \<and> sflag then
            (case setup_chars arg1 False cflag of
               None \<Rightarrow> None
             | Some (Inl e) \<Rightarrow> Some (Inl e)
             | Some (Inr s1) \<Rightarrow>
                 map_option (rmap (\<lambda>s2. delete_squeeze s1 s2 OOBCH inp)) (setup_chars arg2 True False))
          else if dflag then Some (Inl Usage)
          else
            map_option (\<lambda>r. rbind r (\<lambda>(s1, s2).
                if sflag then translate_squeeze s1 s2 OOBCH inp else Inr (translate s1 inp)))
              (tables cflag sflag arg1 arg2)
      | _ \<Rightarrow> Some (Inl Usage))"

section \<open>What the scanner keeps true\<close>

text \<open>
  A byte of text is below 256. A range and a sequence have characters left as their count
  says, a set ends with the marker \<open>OOBCH\<close>, which is the only one and is not passed.
\<close>

definition byte_text :: "nat list \<Rightarrow> bool" where
  "byte_text p \<longleftrightarrow> (\<forall>c\<in>set p. c < NCHARS)"

definition is_char :: "int \<Rightarrow> bool" where
  "is_char c \<longleftrightarrow> 0 \<le> c \<and> c < int NCHARS"

definition set_ok :: "str \<Rightarrow> bool" where
  "set_ok s \<longleftrightarrow>
     (\<exists>cs. members s = cs @ [OOBCH] \<and> list_all is_char cs \<and> length cs \<le> NCHARS \<and>
       0 \<le> cnt s \<and> cnt s \<le> int (length cs))"

definition scan_ok :: "str \<Rightarrow> bool" where
  "scan_ok s \<longleftrightarrow>
     byte_text (ptr s) \<and>
     (case state s of
        RANGE \<Rightarrow> -1 \<le> lastch s \<and> 0 \<le> cnt s \<and> lastch s + cnt s < int NCHARS
      | SET \<Rightarrow> set_ok s
      | SEQUENCE \<Rightarrow> is_char (lastch s) \<and> is_string2 s
      | INFINITE \<Rightarrow> is_char (lastch s) \<and> is_string2 s
      | _ \<Rightarrow> True)"

text \<open>What the parsers of the scanner keep of its state.\<close>

definition advanced :: "str \<Rightarrow> str \<Rightarrow> bool" where
  "advanced s s' \<longleftrightarrow>
     set (ptr s') \<subseteq> set (ptr s) \<and> is_string2 s' = is_string2 s \<and> (state s' = state s \<or> state s' = EOS)"

lemma advanced_text: "advanced s s' \<Longrightarrow> byte_text (ptr s) \<Longrightarrow> byte_text (ptr s')"
  by (auto simp: advanced_def byte_text_def)

lemma advanced_trans: "advanced s s' \<Longrightarrow> advanced s' s'' \<Longrightarrow> advanced s s''"
  by (auto simp: advanced_def)

lemma set_tl: "set (tl p) \<subseteq> set p"
  by (cases p) auto

lemma advanced_update [simp]:
  "advanced (s\<lparr>cnt := n\<rparr>) s' = advanced s s'" "advanced s (s'\<lparr>cnt := n\<rparr>) = advanced s s'"
  "advanced (s\<lparr>lastch := v\<rparr>) s' = advanced s s'" "advanced s (s'\<lparr>lastch := v\<rparr>) = advanced s s'"
  "advanced (s\<lparr>members := q\<rparr>) s' = advanced s s'" "advanced s (s'\<lparr>members := q\<rparr>) = advanced s s'"
  by (simp_all add: advanced_def)

lemma advanced_ptr: "set p \<subseteq> set (ptr s) \<Longrightarrow> advanced s (s\<lparr>ptr := p\<rparr>)"
  by (simp add: advanced_def)

lemma backslash_loop_value:
  "backslash_loop n val p = Inr (n', v, ch, p') \<Longrightarrow> 0 \<le> val \<Longrightarrow>
     0 \<le> v \<and> set p' \<subseteq> set p \<and> ch \<in> set p"
proof (induction n val p rule: backslash_loop.induct)
  case (2 n val c p)
  show ?case
  proof (cases p)
    case (Cons d q)
    consider "\<not> isdigit d" | "isdigit d" "n + 1 = 3" | "isdigit d" "n + 1 \<noteq> 3" by blast
    then show ?thesis
    proof cases
      case 3
      with "2.prems" Cons have "backslash_loop (n + 1) (val * 8 + int d - 48) p = Inr (n', v, ch, p')"
        by (simp add: backslash_loop.simps(2) [of n])
      moreover have "0 \<le> val * 8 + int d - 48" using 3 "2.prems" by (simp add: isdigit_def)
      ultimately show ?thesis using "2.IH" [OF Cons] 3 by auto
    qed (use "2.prems" Cons in \<open>auto simp: backslash_loop.simps(2) isdigit_def\<close>)
  qed (use "2.prems" in \<open>simp add: backslash_loop.simps(2)\<close>)
qed simp

lemma escape_value: "map_of escapes ch = Some v \<Longrightarrow> is_char v"
  by (auto simp: escapes_def is_char_def split: if_splits)

lemma backslash_ok:
  assumes b: "backslash s = Inr (v, s')" and t: "byte_text (ptr s)"
  shows "is_char v \<and> advanced s s'"
proof -
  obtain n val ch p where l: "backslash_loop 0 0 (ptr s) = Inr (n, val, ch, p)"
    using b by (cases "backslash_loop 0 0 (ptr s)") (auto simp: backslash_def)
  note digits = backslash_loop_value [OF l]
  show ?thesis
  proof (cases "n = 0")
    case False
    with b l digits show ?thesis
      by (auto simp: backslash_def is_char_def advanced_def split: if_splits)
  next
    case True
    show ?thesis
    proof (cases "ch = 0")
      case True
      with b l digits \<open>n = 0\<close> show ?thesis by (auto simp: backslash_def is_char_def advanced_def)
    next
      case False
      with b l \<open>n = 0\<close> have "v = (case map_of escapes ch of Some v \<Rightarrow> v | None \<Rightarrow> int ch)"
        and "s' = s\<lparr>ptr := tl p\<rparr>" by (auto simp: backslash_def)
      with digits t set_tl [of p] show ?thesis
        by (auto simp: advanced_def byte_text_def is_char_def dest: escape_value split: option.split)
    qed
  qed
qed

lemma take_char_ok:
  "take_char s = Inr (v, s') \<Longrightarrow> byte_text (ptr s) \<Longrightarrow> is_char v \<and> advanced s s'"
  using set_tl [of "ptr s"]
  by (auto simp: take_char_def result_simps dest: backslash_ok split: if_splits)
    (auto simp: byte_text_def is_char_def advanced_def)

text \<open>A range, a set and a sequence begin in a good state.\<close>

lemma genrange_ok:
  assumes g: "genrange s = Inr (b, s')" and t: "byte_text (ptr s)" and l: "is_char (lastch s)"
  shows "is_string2 s' = is_string2 s \<and>
    (if b then scan_ok s' \<and> state s' = RANGE \<and> cnt s' \<le> int NCHARS
     else lastch s' = lastch s \<and> byte_text (ptr s') \<and> (state s' = state s \<or> state s' = EOS))"
proof -
  let ?s = "s\<lparr>ptr := tl (ptr s)\<rparr>"
  from g obtain v s1 where v: "take_char ?s = Inr (v, s1)"
    by (cases "take_char ?s") (auto simp: genrange_def)
  have "byte_text (ptr ?s)" using t set_tl by (fastforce simp: byte_text_def)
  from take_char_ok [OF v this] have s1: "is_char v" "byte_text (ptr s1)" "is_string2 s1 = is_string2 s"
    "state s1 = state s \<or> state s1 = EOS"
    using \<open>byte_text (ptr ?s)\<close> by (auto simp: advanced_def byte_text_def)
  have "lastch s mod 256 = lastch s" using l by (simp add: is_char_def)
  moreover have "lastch s1 = lastch s"
    using v by (auto simp: take_char_def backslash_def result_simps split: if_splits prod.splits)
  ultimately show ?thesis
    using g v s1 l t
    by (cases "v < lastch s") (auto simp: genrange_def scan_ok_def is_char_def)
qed

lemma genclass_ok: "genclass key = Inr q \<Longrightarrow>
    \<exists>cs. q = cs @ [OOBCH] \<and> list_all is_char cs \<and> length cs \<le> NCHARS"
proof -
  assume "genclass key = Inr q"
  then obtain f where q: "q = map int (filter f [0..<NCHARS]) @ [OOBCH]"
    by (auto simp: genclass_def split: option.splits)
  have "length (filter f [0..<NCHARS]) \<le> NCHARS"
    using length_filter_le [of f "[0..<NCHARS]"] by simp
  then show ?thesis by (intro exI [of _ "map int (filter f [0..<NCHARS])"])
    (auto simp: q list_all_iff is_char_def)
qed

lemma backslash_lastch: "backslash s = Inr (v, s') \<Longrightarrow> lastch s' = lastch s"
  by (auto simp: backslash_def result_simps split: if_splits prod.splits)

lemma number_rest: "set (snd (number base p)) \<subseteq> set p"
  by (auto simp: number_def dest: set_dropWhileD)

lemma strtol0_rest: "strtol0 p = (n, ep) \<Longrightarrow> set ep \<subseteq> set p"
  using number_rest [of 8 p] number_rest [of 10 p] number_rest [of 16 "drop 2 p"]
    set_drop_subset [of 2 p]
  by (auto simp: strtol0_def split: if_splits)

lemma find_pair_rest: "find_pair a b p = Some (u, v) \<Longrightarrow> set v \<subseteq> set p"
  by (induction a b p arbitrary: u v rule: find_pair.induct) (auto split: if_splits)

lemma byte_text_rest: "byte_text p \<Longrightarrow> set q \<subseteq> set p \<Longrightarrow> byte_text q"
  by (auto simp: byte_text_def)

lemma seq_count_ok:
  assumes s: "seq_count s = Inr s'" and t: "byte_text (ptr s)"
  shows "byte_text (ptr s') \<and> is_string2 s' = is_string2 s \<and> lastch s' = lastch s"
proof -
  obtain n ep where n: "strtol0 (ptr s) = (n, ep)" by force
  obtain c where c: "peek (ptr s) = Inr c" using s by (cases "peek (ptr s)") (simp_all add: seq_count_def)
  consider "c = 92" | "c = 93" | "c \<noteq> 92" "c \<noteq> 93" by blast
  then show ?thesis
  proof cases
    case 1
    with s c obtain v s1 where "backslash s = Inr (v, s1)" "s' = s1\<lparr>cnt := v\<rparr>"
      by (auto simp: seq_count_def result_simps)
    then show ?thesis using t backslash_ok [of s v s1] backslash_lastch [of s v s1]
      by (auto simp: advanced_def byte_text_def)
  next
    case 2
    with s c have "s' = s\<lparr>cnt := 0, ptr := tl (ptr s)\<rparr>" by (auto simp: seq_count_def)
    then show ?thesis using t set_tl [of "ptr s"] by (auto simp: byte_text_def)
  next
    case 3
    with s c n have "s' = s\<lparr>cnt := to_int n, ptr := tl ep\<rparr>"
      by (auto simp: seq_count_def result_simps simp del: peek_Inr split: if_splits)
    then show ?thesis using t strtol0_rest [OF n] set_tl [of ep] by (auto simp: byte_text_def)
  qed
qed

lemma genseq_ok:
  assumes g: "genseq s = Inr s'" and t: "byte_text (ptr s)"
  shows "scan_ok s' \<and> is_string2 s' \<and> is_string2 s \<and> (state s' = SEQUENCE \<or> state s' = INFINITE)"
proof -
  from g have two: "is_string2 s" by (auto simp: genseq_def split: if_splits)
  with g obtain v s1 where v: "take_char s = Inr (v, s1)"
    by (cases "take_char s") (auto simp: genseq_def)
  let ?s = "s1\<lparr>lastch := v, ptr := tl (ptr s1)\<rparr>"
  from two g v obtain s2 where c: "seq_count ?s = Inr s2"
    and s': "s' = s2\<lparr>state := (if cnt s2 \<noteq> 0 then SEQUENCE else INFINITE)\<rparr>"
    by (auto simp: genseq_def Let_def result_simps split: if_splits)
  from take_char_ok [OF v t] t have s1: "is_char v" "byte_text (ptr ?s)" "is_string2 ?s"
    using two set_tl [of "ptr s1"] by (auto simp: advanced_def byte_text_def)
  from seq_count_ok [OF c s1(2)] s1 two s' show ?thesis
    by (auto simp: scan_ok_def)
qed

lemma genequiv_ok:
  assumes g: "genequiv s = Inr s'" and t: "byte_text (ptr s)"
  shows "set_ok s' \<and> state s' = SET \<and> is_string2 s' = is_string2 s"
proof -
  obtain v s1 where v: "take_char s = Inr (v, s1)"
    using g by (cases "take_char s") (auto simp: genequiv_def)
  have "is_char v" "is_string2 s1 = is_string2 s"
    using take_char_ok [OF v t] by (auto simp: advanced_def)
  with g v show ?thesis
    by (auto simp: genequiv_def result_simps Let_def set_ok_def split: if_splits)
qed

lemma bracket_ok:
  assumes b: "bracket s = Inr (Some s')" and t: "byte_text (ptr s)"
  shows "scan_ok s' \<and> is_string2 s' = is_string2 s \<and> state s' \<noteq> NORMAL \<and> state s' \<noteq> EOS \<and>
    state s' \<noteq> RANGE \<and> (\<not> is_string2 s \<longrightarrow> state s' = SET)"
proof -
  obtain c where c: "peek (drop 1 (ptr s)) = Inr c"
    using b by (cases "peek (drop 1 (ptr s))") (simp_all add: bracket_def)
  have rest: "byte_text q" if "set q \<subseteq> set (drop 2 (ptr s))" for q
    using that t set_drop_subset [of 2 "ptr s"] by (auto simp: byte_text_def)
  consider (colon) "c = code CHR '':''" | (equals) "c = code CHR ''=''" "c \<noteq> code CHR '':''"
    | (seq) "c \<noteq> code CHR '':''" "c \<noteq> code CHR ''=''" by blast
  then show ?thesis
  proof cases
    case colon
    with b c obtain key p q where "find_pair 58 93 (drop 2 (ptr s)) = Some (key, p)"
      "genclass key = Inr q" "s' = s\<lparr>state := SET, members := q, cnt := 0, ptr := p\<rparr>"
      by (auto simp: bracket_def result_simps split: option.splits)
    then show ?thesis using find_pair_rest rest [of p] genclass_ok [of key q]
      by (auto simp: scan_ok_def set_ok_def)
  next
    case equals
    let ?s = "s\<lparr>ptr := drop 2 (ptr s)\<rparr>"
    from equals b c obtain key p s1 where "find_pair 61 93 (drop 2 (ptr s)) = Some (key, p)"
      "genequiv ?s = Inr s1" "s' = s1\<lparr>ptr := p\<rparr>"
      by (auto simp: bracket_def result_simps split: option.splits)
    then show ?thesis using find_pair_rest rest [of p] rest [of "drop 2 (ptr s)"] genequiv_ok [of ?s s1]
      by (auto simp: scan_ok_def set_ok_def)
  next
    case seq
    with b c have "genseq (s\<lparr>ptr := drop 1 (ptr s)\<rparr>) = Inr s'"
      by (auto simp: bracket_def result_simps split: option.splits if_splits)
    moreover have "byte_text (drop 1 (ptr s))"
      using t set_drop_subset [of 1 "ptr s"] by (auto simp: byte_text_def)
    ultimately show ?thesis using genseq_ok [of "s\<lparr>ptr := drop 1 (ptr s)\<rparr>" s'] by auto
  qed
qed

lemma next_single_ok:
  assumes n: "next_single ch s = Inr (r, s')" and t: "byte_text (ptr s)" "ch < NCHARS"
    and st: "state s = NORMAL"
  shows "is_string2 s' = is_string2 s \<and> scan_ok s' \<and>
    (case r of None \<Rightarrow> state s' = RANGE \<and> cnt s' \<le> int NCHARS
     | Some (c, got) \<Rightarrow> got \<and> is_char c \<and> (state s' = NORMAL \<or> state s' = EOS))"
proof -
  define q where "q = (if ch = 92 then rmap (\<lambda>(v, s). s\<lparr>lastch := v\<rparr>) (backslash s)
    else Inr (s\<lparr>ptr := tl (ptr s), lastch := int ch\<rparr>))"
  from n obtain s1 where q: "q = Inr s1"
    by (cases q) (auto simp: next_single_def q_def [symmetric])
  have s1: "is_char (lastch s1)" "byte_text (ptr s1)" "is_string2 s1 = is_string2 s"
    "state s1 = NORMAL \<or> state s1 = EOS"
  proof -
    have "is_char (lastch s1) \<and> advanced s s1"
    proof (cases "ch = 92")
      case True
      with q t(1) show ?thesis by (auto simp: q_def result_simps dest: backslash_ok)
    next
      case False
      with q t(2) set_tl [of "ptr s"] show ?thesis
        by (auto simp: q_def advanced_def is_char_def)
    qed
    then show "is_char (lastch s1)" "byte_text (ptr s1)" "is_string2 s1 = is_string2 s"
      "state s1 = NORMAL \<or> state s1 = EOS"
      using t st by (auto simp: advanced_def byte_text_def)
  qed
  from n q obtain b where b: "r = (if b then None else Some (lastch s', True))"
    and g: "genrange s1 = Inr (b, s') \<or> \<not> b \<and> s' = s1"
    by (auto simp: next_single_def q_def [symmetric] result_simps split: if_splits)
  from g show ?thesis
  proof
    assume "genrange s1 = Inr (b, s')"
    from genrange_ok [OF this s1(2,1)] b s1 show ?thesis
      by (cases b) (auto simp: scan_ok_def)
  next
    assume "\<not> b \<and> s' = s1"
    with b s1 show ?thesis by (auto simp: scan_ok_def)
  qed
qed

text \<open>The characters left, at most: every character of the text stands for fewer than 300.\<close>

definition remaining :: "str \<Rightarrow> nat" where
  "remaining s =
     300 * length (ptr s) +
     (case state s of
        RANGE \<Rightarrow> nat (cnt s) + 1 | SET \<Rightarrow> length (members s) + 1 - nat (cnt s) | _ \<Rightarrow> 0)"

lemma next_normal_cases:
  assumes n: "next_normal s = Inr (r, s')" and p: "ptr s = ch # p"
  shows "ch = 0 \<and> r = Some (lastch s, False) \<and> s' = s\<lparr>state := EOS\<rparr> \<or>
    bracket s = Inr (Some s') \<and> r = None \<or> next_single ch s = Inr (r, s')"
proof -
  define b where "b = (if ch = code CHR ''['' then bracket s else Inr None)"
  have e: "next_normal s =
      (if ch = 0 then Inr (Some (lastch s, False), s\<lparr>state := EOS\<rparr>)
       else rbind b (\<lambda>b. case b of Some s' \<Rightarrow> Inr (None, s') | None \<Rightarrow> next_single ch s))"
    by (simp add: next_normal_def p peek_def b_def)
  consider "ch = 0" | e where "ch \<noteq> 0" "b = Inl e" | "ch \<noteq> 0" "b = Inr None"
    | s1 where "ch \<noteq> 0" "b = Inr (Some s1)"
    by (metis not_None_eq sum.exhaust)
  then show ?thesis
  proof cases
    case 4
    then have "bracket s = Inr (Some s1)" by (auto simp: b_def split: if_splits)
    with 4 n e show ?thesis by simp
  qed (use n e in auto)
qed

lemma next_normal_ok:
  assumes n: "next_normal s = Inr (r, s')" and s: "scan_ok s" "state s = NORMAL"
  shows "is_string2 s' = is_string2 s \<and> scan_ok s' \<and>
    (case r of None \<Rightarrow> \<not> is_string2 s \<longrightarrow> remaining s' < remaining s
     | Some (c, got) \<Rightarrow> got \<longrightarrow> is_char c \<and> (\<not> is_string2 s \<longrightarrow> remaining s' < remaining s))"
proof -
  obtain ch p where p: "ptr s = ch # p"
    using n by (cases "ptr s") (auto simp: next_normal_def peek_def)
  have t: "byte_text (ptr s)" "ch < NCHARS" using s p by (auto simp: scan_ok_def byte_text_def)
  consider (nul) "ch = 0" "r = Some (lastch s, False)" "s' = s\<lparr>state := EOS\<rparr>"
    | (brk) "bracket s = Inr (Some s')" "r = None"
    | (single) "next_single ch s = Inr (r, s')"
    using next_normal_cases [OF n p] by blast
  then show ?thesis
  proof cases
    case nul
    with s show ?thesis by (simp add: scan_ok_def)
  next
    case brk
    have "length (members s') \<le> 257" if "state s' = SET"
      using bracket_ok [OF brk(1) t(1)] that by (auto simp: scan_ok_def set_ok_def)
    with bracket_ok [OF brk(1) t(1)] bracket_shrinks [OF brk(1)] brk(2) s(2) show ?thesis
      by (auto simp: remaining_def)
  next
    case single
    from next_single_shrinks [OF single] p next_single_ok [OF single t s(2)] show ?thesis
      by (cases r) (auto simp: remaining_def s(2))
  qed
qed

lemma next_char_ok:
  "next_char s = Inr (c, got, s') \<Longrightarrow> scan_ok s \<Longrightarrow>
     is_string2 s' = is_string2 s \<and> scan_ok s' \<and>
     (got \<longrightarrow> is_char c \<and> (\<not> is_string2 s \<longrightarrow> remaining s' < remaining s))"
proof (induction s rule: next_char.induct)
  case (1 s)
  show ?case
  proof (cases "state s")
    case EOS
    with 1 show ?thesis by (simp add: next_char.simps [of s])
  next
    case INFINITE
    with 1 show ?thesis by (auto simp: next_char.simps [of s] scan_ok_def)
  next
    case NORMAL
    with "1.prems" obtain r s1 where n: "next_normal s = Inr (r, s1)"
      by (cases "next_normal s") (auto simp: next_char.simps [of s])
    note ok = next_normal_ok [OF n "1.prems"(2) NORMAL]
    show ?thesis
    proof (cases r)
      case None
      with n NORMAL "1.prems" have "next_char s1 = Inr (c, got, s')"
        by (simp add: next_char.simps [of s])
      with "1.IH"(1) [OF NORMAL n refl None] ok None show ?thesis by auto
    next
      case (Some a)
      with n NORMAL "1.prems" ok show ?thesis
        by (cases a) (auto simp: next_char.simps [of s])
    qed
  next
    case RANGE
    show ?thesis
    proof (cases "cnt s = 0")
      case True
      with RANGE "1.prems" have "next_char (s\<lparr>state := NORMAL\<rparr>) = Inr (c, got, s')"
        by (simp add: next_char.simps [of s])
      with "1.IH"(2) [OF RANGE True] "1.prems" RANGE show ?thesis
        by (auto simp: scan_ok_def remaining_def)
    next
      case False
      with RANGE "1.prems" show ?thesis
        by (auto simp: next_char.simps [of s] scan_ok_def is_char_def remaining_def)
    qed
  next
    case SEQUENCE
    show ?thesis
    proof (cases "cnt s = 0")
      case True
      with SEQUENCE "1.prems" have "next_char (s\<lparr>state := NORMAL\<rparr>) = Inr (c, got, s')"
        by (simp add: next_char.simps [of s])
      with "1.IH"(3) [OF SEQUENCE True] "1.prems" SEQUENCE show ?thesis
        by (auto simp: scan_ok_def)
    next
      case False
      with SEQUENCE "1.prems" show ?thesis
        by (auto simp: next_char.simps [of s] scan_ok_def)
    qed
  next
    case SET
    with "1.prems" obtain cs where cs: "members s = cs @ [OOBCH]" "list_all is_char cs"
      "length cs \<le> NCHARS" "0 \<le> cnt s" "cnt s \<le> int (length cs)"
      by (auto simp: scan_ok_def set_ok_def)
    let ?s = "s\<lparr>lastch := members s ! nat (cnt s), cnt := cnt s + 1\<rparr>"
    show ?thesis
    proof (cases "cnt s = int (length cs)")
      case True
      then have m: "members s ! nat (cnt s) = OOBCH" by (simp add: cs)
      with SET "1.prems" have "next_char (?s\<lparr>state := NORMAL, members := []\<rparr>) = Inr (c, got, s')"
        by (simp add: next_char.simps [of s])
      with "1.IH"(4) [OF SET refl refl m] "1.prems" SET show ?thesis
        by (auto simp: scan_ok_def remaining_def)
    next
      case False
      then have m: "nat (cnt s) < length cs" using cs by simp
      then have char: "is_char (members s ! nat (cnt s))"
        using cs by (simp add: nth_append list_all_length)
      then have "members s ! nat (cnt s) \<noteq> OOBCH" by (simp add: is_char_def)
      with SET "1.prems" have "c = members s ! nat (cnt s)" "s' = ?s"
        by (auto simp: next_char.simps [of s] Let_def)
      with char SET m cs "1.prems" show ?thesis
        by (auto simp: scan_ok_def set_ok_def remaining_def)
    qed
  qed
qed

section \<open>The program returns and stays in its tables\<close>

lemma str_create_ok [simp]: "scan_ok (str_create second arg)"
  by (auto simp: scan_ok_def str_create_def byte_text_def)

lemma str_create_sel [simp]: "is_string2 (str_create second arg) = second"
  by (simp add: str_create_def)

lemma store_char: "is_char i \<Longrightarrow> store t i v = Inr (t[nat i := v])"
  by (simp add: store_def is_char_def)

text \<open>A loop over the characters of \<open>string1\<close>, which are fewer every time, returns.\<close>

lemma setup_loop_returns:
  "scan_ok s \<Longrightarrow> \<not> is_string2 s \<Longrightarrow> \<exists>r. setup_loop s t = Some r \<and> r \<noteq> Inl StoreOverrun"
proof (induction "remaining s" arbitrary: s t rule: less_induct)
  case less
  show ?case
  proof (cases "next_char s")
    case (Inl e)
    then show ?thesis by (simp add: setup_loop.simps [of s])
  next
    case (Inr x)
    then obtain c got s' where n: "next_char s = Inr (c, got, s')" by (cases x) auto
    note ok = next_char_ok [OF n less.prems(1)]
    show ?thesis
    proof (cases got)
      case True
      with ok less.prems(2) less.hyps [of s' "t[nat c := 1]"] n show ?thesis
        by (simp add: setup_loop.simps [of s] store_char)
    qed (simp add: setup_loop.simps [of s] n)
  qed
qed

lemma setup_chars_returns:
  "\<exists>r. setup_chars arg False cflag = Some r \<and> r \<noteq> Inl StoreOverrun"
proof -
  obtain r where "setup_loop (str_create False arg) no_chars = Some r" "r \<noteq> Inl StoreOverrun"
    using setup_loop_returns [of "str_create False arg" no_chars] by auto
  then show ?thesis by (cases r) (simp_all add: setup_chars_def)
qed

lemma setup_loop_safe:
  assumes "setup_loop s t = Some r" and "scan_ok s" shows "r \<noteq> Inl StoreOverrun"
  using assms
proof (induction s t r rule: setup_loop.raw_induct)
  case (1 f s t r)
  show ?case
  proof (cases "next_char s")
    case (Inr x)
    then obtain c got s' where n: "next_char s = Inr (c, got, s')" by (cases x) auto
    note ok = next_char_ok [OF n "1.prems"(2)]
    show ?thesis
    proof (cases got)
      case True
      with "1.hyps" n ok have "f s' (t[nat c := 1]) = Some r" by (simp add: store_char)
      moreover have "setup_loop s' (t[nat c := 1]) = Some r"
        using "1.prems"(1) True n ok by (simp add: setup_loop.simps [of s] store_char)
      ultimately show ?thesis using "1.IH" ok by blast
    qed (use "1.hyps" n in auto)
  qed (use "1.hyps" in auto)
qed (rule assms(1))

lemma setup_chars_safe: "setup_chars arg second cflag \<noteq> Some (Inl StoreOverrun)"
proof
  assume "setup_chars arg second cflag = Some (Inl StoreOverrun)"
  then have "setup_loop (str_create second arg) no_chars = Some (Inl StoreOverrun)"
    by (auto simp: setup_chars_def result_simps)
  then show False using setup_loop_safe by fastforce
qed

lemma match_loop_returns:
  "scan_ok s1 \<Longrightarrow> \<not> is_string2 s1 \<Longrightarrow>
     \<exists>r. match_loop sflag s1 s2 ch2 t = Some r \<and> (\<not> sflag \<longrightarrow> r \<noteq> Inl StoreOverrun)"
proof (induction "remaining s1" arbitrary: s1 s2 ch2 t rule: less_induct)
  case less
  note step = match_loop.simps [of sflag s1 s2 ch2 t]
  show ?case
  proof (cases "next_char s1")
    case (Inl e)
    then show ?thesis by (simp add: step)
  next
    case (Inr x)
    then obtain c got s1' where n: "next_char s1 = Inr (c, got, s1')" by (cases x) auto
    note ok = next_char_ok [OF n less.prems(1)]
    show ?thesis
    proof (cases got)
      case True
      have safe: "\<not> sflag \<longrightarrow> (\<exists>t'. set_translation sflag c ch2 t = Inr t')"
        using ok True by (simp add: set_translation_def store_char)
      show ?thesis
      proof (cases "set_translation sflag c ch2 t")
        case (Inl e)
        with n True have "match_loop sflag s1 s2 ch2 t = Some (Inl e)" by (simp add: step)
        with safe Inl show ?thesis by auto
      next
        case (Inr t')
        have "\<exists>r. match_loop sflag s1' s2' ch2' t' = Some r \<and> (\<not> sflag \<longrightarrow> r \<noteq> Inl StoreOverrun)"
          for s2' ch2'
          using less.hyps ok True less.prems(2) by simp
        with n True Inr show ?thesis by (simp add: step split: sum.split prod.split)
      qed
    qed (simp add: step n)
  qed
qed

lemma complement_loop_safe:
  "list_all (\<lambda>c. c < NCHARS) chs \<Longrightarrow> complement_loop False s2 ch2 chs t \<noteq> Inl StoreOverrun"
proof (induction chs arbitrary: s2 ch2 t)
  case (Cons ch chs)
  then have st: "set_translation False (int ch) ch2 t = Inr ((fst t)[ch := ch2], snd t)"
    by (simp add: set_translation_def store_char is_char_def)
  show ?case
  proof (cases "next_char s2")
    case (Inl e)
    with Cons st show ?thesis by simp
  next
    case (Inr x)
    with Cons st show ?thesis by (cases x) simp
  qed
qed simp

lemma delete_safe:
  "tr cflag True False argv inp \<noteq> Some (Inl StoreOverrun)" "tr cflag True False argv inp \<noteq> None"
  using setup_chars_safe [of _ False cflag] setup_chars_returns [of _ cflag]
  by (auto simp: tr_def result_simps split: list.split)

lemma tables_returns:
  "\<exists>r. tables cflag sflag a1 a2 = Some r \<and> (\<not> sflag \<longrightarrow> r \<noteq> Inl StoreOverrun)"
proof (cases cflag)
  case True
  obtain r where r: "setup_chars a1 False True = Some r" "r \<noteq> Inl StoreOverrun"
    using setup_chars_returns by blast
  obtain x where x: "next_char (str_create True a2) = x" by simp
  have "list_all (\<lambda>c. c < NCHARS) [0..<NCHARS]" by (simp add: list_all_iff)
  with True r x complement_loop_safe show ?thesis
    by (cases r; cases x; cases sflag) (auto simp: tables_def)
next
  case False
  obtain x where x: "next_char (str_create True a2) = x" by simp
  show ?thesis
  proof (cases x)
    case (Inl e)
    with False x show ?thesis by (simp add: tables_def)
  next
    case (Inr y)
    then obtain c got s2 where "x = Inr (c, got, s2)" by (cases y) auto
    with False x match_loop_returns [of "str_create False a1" sflag s2 c]
    show ?thesis by (simp add: tables_def)
  qed
qed

lemma translate_safe:
  "\<exists>r. tr cflag False sflag argv inp = Some r \<and> (\<not> sflag \<longrightarrow> r \<noteq> Inl StoreOverrun)"
proof -
  consider "length argv \<noteq> 1" "length argv \<noteq> 2" | a1 where "argv = [a1]" | a1 a2 where "argv = [a1, a2]"
    by (cases argv; cases "tl argv"; cases "tl (tl argv)") auto
  then show ?thesis
  proof cases
    case 1
    then show ?thesis by (auto simp: tr_def split: list.split)
  next
    case (2 a1)
    with setup_chars_returns [of a1 cflag] show ?thesis by (auto simp: tr_def)
  next
    case (3 a1 a2)
    obtain r where "tables cflag sflag a1 a2 = Some r" "\<not> sflag \<longrightarrow> r \<noteq> Inl StoreOverrun"
      using tables_returns by blast
    with 3 show ?thesis by (cases r) (auto simp: tr_def)
  qed
qed

text \<open>
  C15: except for squeezing and deleting at once, \<open>tr\<close> always returns, whatever its arguments and
  input: the loop that scans \<open>string1\<close> ends although classes, ranges and escapes are expanded
  lazily. Deleting, with or without squeezing, and translating without \<open>-s\<close> never store outside
  the tables.
\<close>

theorem tr_returns:
  "(\<exists>r. tr cflag dflag False argv inp = Some r \<and> r \<noteq> Inl StoreOverrun) \<and>
   (\<exists>r. tr cflag False sflag argv inp = Some r) \<and>
   tr cflag True True argv inp \<noteq> Some (Inl StoreOverrun)"
proof -
  have "\<exists>r. tr cflag dflag False argv inp = Some r \<and> r \<noteq> Inl StoreOverrun"
    using delete_safe [of cflag argv inp] translate_safe [of cflag False argv inp]
    by (cases dflag) force+
  moreover have "tr cflag True True argv inp \<noteq> Some (Inl StoreOverrun)"
    using setup_chars_safe by (auto simp: tr_def result_simps split: list.splits option.splits sum.splits)
  ultimately show ?thesis using translate_safe by blast
qed

end
