(* ===== verification/TrMeaning.thy ===== *)
theory TrMeaning
  imports Tr
begin

text \<open>
  What \<open>tr\<close> computes: the characters a string stands for, written as a list of items, and
  the output of every mode in terms of them.
\<close>

section \<open>The characters of a string\<close>

text \<open>The scanner yields the characters \<open>cs\<close>, then ends with \<open>l\<close> as the value of \<open>ret\<close>.\<close>

inductive scans :: "str \<Rightarrow> int list \<Rightarrow> int \<Rightarrow> bool" where
  stop: "next_char s = Inr (l, False, s') \<Longrightarrow> scans s [] l"
| step: "next_char s = Inr (c, True, s') \<Longrightarrow> scans s' cs l \<Longrightarrow> scans s (c # cs) l"

inductive_cases scans_NilE: "scans s [] l"
inductive_cases scans_ConsE: "scans s (c # cs) l"

definition leads :: "str \<Rightarrow> int list \<Rightarrow> str \<Rightarrow> bool" where
  "leads s cs s' \<longleftrightarrow> (\<forall>ds l. scans s' ds l \<longrightarrow> scans s (cs @ ds) l)"

lemma leads_refl [simp]: "leads s [] s"
  by (simp add: leads_def)

lemma leads_trans: "leads s cs s' \<Longrightarrow> leads s' ds s'' \<Longrightarrow> leads s (cs @ ds) s''"
  by (simp add: leads_def)

lemma leads_step: "next_char s = Inr (c, True, s') \<Longrightarrow> leads s [c] s'"
  by (simp add: leads_def scans.step)

lemma scans_cong:
  assumes "scans s' ds l" and "next_char s = next_char s'" shows "scans s ds l"
  using assms(1) by cases (metis assms(2) scans.intros)+

lemma leads_skip: "next_char s = next_char s' \<Longrightarrow> leads s [] s'"
  using scans_cong by (auto simp: leads_def)

text \<open>The pieces of a string: a plain character, a range, a class, an equivalence class, escapes.\<close>

datatype item =
    Char char
  | Range char char
  | Class string
  | Equiv char
  | Octal nat nat nat
  | Escape char

primrec item_text :: "item \<Rightarrow> string" where
  "item_text (Char c) = [c]"
| "item_text (Range a b) = [a, CHR ''-'', b]"
| "item_text (Class n) = ''[:'' @ n @ '':]''"
| "item_text (Equiv c) = ''[='' @ [c] @ ''=]''"
| "item_text (Octal d1 d2 d3) = [CHR 0x5C, chr (48 + d1), chr (48 + d2), chr (48 + d3)]"
| "item_text (Escape c) = [CHR 0x5C, c]"

definition plain_char :: "char \<Rightarrow> bool" where
  "plain_char c \<longleftrightarrow> c \<notin> set [NUL, CHR 0x5C, CHR ''['', CHR ''-'']"

primrec item_ok :: "item \<Rightarrow> bool" where
  "item_ok (Char c) = plain_char c"
| "item_ok (Range a b) = (plain_char a \<and> b \<noteq> NUL \<and> b \<noteq> CHR 0x5C \<and> code a \<le> code b)"
| "item_ok (Class n) = (n \<in> set (map fst classes))"
| "item_ok (Equiv c) = (c \<notin> set [NUL, CHR 0x5C, CHR ''=''])"
| "item_ok (Octal d1 d2 d3) = (d1 < 4 \<and> d2 < 8 \<and> d3 < 8)"
| "item_ok (Escape c) = (c \<noteq> NUL \<and> \<not> isdigit (code c))"

primrec item_chars :: "item \<Rightarrow> int list" where
  "item_chars (Char c) = [int (code c)]"
| "item_chars (Range a b) = map int [code a..<code b + 1]"
| "item_chars (Class n) =
     (case map_of classes n of Some f \<Rightarrow> map int (filter f [0..<NCHARS]) | None \<Rightarrow> [])"
| "item_chars (Equiv c) = [int (code c)]"
| "item_chars (Octal d1 d2 d3) = [int (64 * d1 + 8 * d2 + d3)]"
| "item_chars (Escape c) = [case map_of escapes (code c) of Some v \<Rightarrow> v | None \<Rightarrow> int (code c)]"

text \<open>The value of \<open>lastch\<close> after an item: after a set, the marker that ends it.\<close>

primrec item_last :: "item \<Rightarrow> int" where
  "item_last (Char c) = int (code c)"
| "item_last (Range a b) = int (code b)"
| "item_last (Class n) = OOBCH"
| "item_last (Equiv c) = OOBCH"
| "item_last (Octal d1 d2 d3) = int (64 * d1 + 8 * d2 + d3)"
| "item_last (Escape c) = (case map_of escapes (code c) of Some v \<Rightarrow> v | None \<Rightarrow> int (code c))"

lemma code_literal [simp]: "code c = 0 \<longleftrightarrow> c = NUL" "code c = 92 \<longleftrightarrow> c = CHR 0x5C"
  "code c = 91 \<longleftrightarrow> c = CHR ''[''" "code c = 45 \<longleftrightarrow> c = CHR ''-''" "code c = 61 \<longleftrightarrow> c = CHR ''=''"
  using code_eq_iff [of c NUL] code_eq_iff [of c "CHR 0x5C"] code_eq_iff [of c "CHR ''[''"]
    code_eq_iff [of c "CHR ''-''"] code_eq_iff [of c "CHR ''=''"] by simp_all

lemma peek_Cons [simp]: "peek (c # p) = Inr c"
  by (simp add: peek_def)

lemma peek_hd: "p \<noteq> [] \<Longrightarrow> peek p = Inr (hd p)"
  by simp

lemma next_normal_char:
  assumes "state s = NORMAL" "ptr s = code c # rest" "plain_char c" "rest \<noteq> []" "hd rest \<noteq> 45"
  shows "next_char s = Inr (int (code c), True, s\<lparr>ptr := rest, lastch := int (code c)\<rparr>)"
  using assms
  by (simp add: next_char.simps [of s] next_normal_def next_single_def plain_char_def peek_hd
    del: peek_Inr)

lemma range_run:
  "state s = RANGE \<Longrightarrow> cnt s = int n \<Longrightarrow>
     leads s (map (\<lambda>i. lastch s + 1 + int i) [0..<n])
       (s\<lparr>state := NORMAL, cnt := 0, lastch := lastch s + int n\<rparr>)"
proof (induction n arbitrary: s)
  case 0
  have "s\<lparr>state := NORMAL, cnt := 0\<rparr> = s\<lparr>state := NORMAL\<rparr>" using 0 by (cases s) simp
  moreover have "leads s [] (s\<lparr>state := NORMAL\<rparr>)"
    using 0 by (intro leads_skip) (simp add: next_char.simps [of s])
  ultimately show ?case by simp
next
  case (Suc n)
  let ?s = "s\<lparr>cnt := cnt s - 1, lastch := lastch s + 1\<rparr>"
  have "leads s [lastch s + 1] ?s"
    using Suc.prems by (intro leads_step) (simp add: next_char.simps [of s])
  moreover have "leads ?s (map (\<lambda>i. lastch s + 2 + int i) [0..<n])
      (s\<lparr>state := NORMAL, cnt := 0, lastch := lastch s + 1 + int n\<rparr>)"
    using Suc.IH [of ?s] Suc.prems by (simp add: add.assoc)
  ultimately have "leads s ([lastch s + 1] @ map (\<lambda>i. lastch s + 2 + int i) [0..<n])
      (s\<lparr>state := NORMAL, cnt := 0, lastch := lastch s + 1 + int n\<rparr>)"
    by (rule leads_trans)
  moreover have "map (\<lambda>i. lastch s + 1 + int i) [0..<Suc n] =
      [lastch s + 1] @ map (\<lambda>i. lastch s + 2 + int i) [0..<n]"
    by (simp add: upt_conv_Cons map_Suc_upt [symmetric] add.assoc del: upt_Suc)
  ultimately show ?case by (simp add: ac_simps)
qed

lemma set_run:
  "state s = SET \<Longrightarrow> members s = pre @ cs @ [OOBCH] \<Longrightarrow> cnt s = int (length pre) \<Longrightarrow>
     list_all is_char cs \<Longrightarrow>
     \<exists>s'. leads s cs s' \<and> state s' = NORMAL \<and> lastch s' = OOBCH \<and> ptr s' = ptr s"
proof (induction cs arbitrary: s pre)
  case Nil
  let ?s = "s\<lparr>lastch := OOBCH, cnt := cnt s + 1, state := NORMAL, members := []\<rparr>"
  have "leads s [] ?s"
    using Nil by (intro leads_skip) (simp add: next_char.simps [of s] Let_def)
  then show ?case by (intro exI [of _ ?s]) simp
next
  case (Cons c cs)
  let ?s = "s\<lparr>lastch := c, cnt := cnt s + 1\<rparr>"
  have "leads s [c] ?s"
    using Cons.prems
    by (intro leads_step) (simp add: next_char.simps [of s] Let_def is_char_def nth_append)
  moreover obtain s' where "leads ?s cs s'" "state s' = NORMAL \<and> lastch s' = OOBCH \<and> ptr s' = ptr s"
    using Cons.IH [of ?s "pre @ [c]"] Cons.prems by auto
  ultimately show ?case using leads_trans [of s "[c]"] by fastforce
qed


lemma scan_char:
  assumes "state s = NORMAL" "ptr s = code c # rest" "plain_char c" "rest \<noteq> []" "hd rest \<noteq> 45"
  shows "\<exists>s'. leads s [int (code c)] s' \<and> state s' = NORMAL \<and> ptr s' = rest \<and> lastch s' = int (code c)"
  using leads_step [OF next_normal_char [OF assms]] assms(1) by fastforce

lemma scan_range:
  assumes s: "state s = NORMAL" "ptr s = code a # 45 # code b # rest"
    and ok: "plain_char a" "b \<noteq> CHR 0x5C" "code a \<le> code b"
  shows "\<exists>s'. leads s (map int [code a..<code b + 1]) s' \<and> state s' = NORMAL \<and> ptr s' = rest \<and>
    lastch s' = int (code b)"
proof -
  define n where "n = code b + 1 - code a"
  let ?s = "s\<lparr>ptr := rest, cnt := int n, state := RANGE, lastch := int (code a) - 1\<rparr>"
  have n: "int (code b) - int (code a) + 1 = int n" using ok by (simp add: n_def)
  have "next_char s = next_char ?s"
    using s ok
    by (simp add: next_char.simps [of s] next_normal_def next_single_def plain_char_def
      genrange_def take_char_def n)
  then have "leads s [] ?s" by (rule leads_skip)
  from leads_trans [OF this range_run [of ?s n]]
  have "leads s (map (\<lambda>i. int (code a) + int i) [0..<n])
      (?s\<lparr>state := NORMAL, cnt := 0, lastch := int (code a) - 1 + int n\<rparr>)" by simp
  moreover have "map (\<lambda>i. int (code a) + int i) [0..<n] = map int [code a..<code b + 1]"
    by (rule nth_equalityI) (simp_all add: n_def del: upt_Suc)
  ultimately show ?thesis
    using ok(3) by (intro exI conjI) (auto simp: n_def)
qed

lemma find_pair_found:
  "\<forall>x\<in>set u. x \<noteq> 0 \<and> x \<noteq> a \<Longrightarrow> a \<noteq> 0 \<Longrightarrow> find_pair a b (u @ a # b # p) = Some (u, p)"
proof (induction u)
  case (Cons x u)
  then show ?case by (cases u) auto
qed simp

lemma class_name: "n \<in> set (map fst classes) \<Longrightarrow> c \<in> set n \<Longrightarrow> code c \<noteq> 0 \<and> code c \<noteq> 58"
  by (auto simp: classes_def)

lemma strncmp_prefix:
  "NUL \<notin> set n \<Longrightarrow> strncmp (map code n) (map code name) = 0 \<longleftrightarrow> (\<exists>z. name = n @ z)"
proof (induction n arbitrary: name)
  case (Cons c n)
  then show ?case by (cases name) (auto simp: code_eq_iff)
qed simp

lemma c_class_0: "NUL \<notin> set n \<Longrightarrow> c_class (map code n) name = 0 \<longleftrightarrow> name = n"
  using strncmp_prefix [of n name] by (auto simp: c_class_def Let_def)

lemma find_map_of: "find (\<lambda>(a, f). a = n) xs = map_option (Pair n) (map_of xs n)"
  by (induction xs) auto

lemma class_found:
  assumes n: "n \<in> set (map fst classes)"
  shows "\<exists>f. map_of classes n = Some f \<and> genclass (map code n) = Inr (map int (filter f [0..<NCHARS]) @ [OOBCH])"
proof -
  have "NUL \<notin> set n" using class_name [OF n, of NUL] by auto
  then have "find (\<lambda>(name, f). c_class (map code n) name = 0) classes = map_option (Pair n) (map_of classes n)"
    by (simp add: c_class_0 find_map_of)
  moreover obtain f where "map_of classes n = Some f" using n by (auto simp: map_of_eq_None_iff dest: weak_map_of_SomeI)
  ultimately show ?thesis by (simp add: genclass_def)
qed

lemma scan_set:
  assumes "next_char s = next_char s1" and "state s1 = SET" "members s1 = cs @ [OOBCH]" "cnt s1 = 0"
    and "list_all is_char cs" "ptr s1 = rest"
  shows "\<exists>s'. leads s cs s' \<and> state s' = NORMAL \<and> ptr s' = rest \<and> lastch s' = OOBCH"
proof -
  obtain s' where "leads s1 cs s'" "state s' = NORMAL \<and> lastch s' = OOBCH \<and> ptr s' = ptr s1"
    using set_run [of s1 "[]" cs] assms by auto
  with leads_trans [OF leads_skip [OF assms(1)]] assms(6) show ?thesis by fastforce
qed

lemma scan_class:
  assumes s: "state s = NORMAL" "ptr s = 91 # 58 # map code n @ 58 # 93 # rest"
    and n: "n \<in> set (map fst classes)"
  shows "\<exists>s'. leads s (item_chars (Class n)) s' \<and> state s' = NORMAL \<and> ptr s' = rest \<and> lastch s' = OOBCH"
proof -
  obtain f where f: "map_of classes n = Some f"
    "genclass (map code n) = Inr (map int (filter f [0..<NCHARS]) @ [OOBCH])"
    using class_found [OF n] by blast
  have "\<forall>x\<in>set (map code n). x \<noteq> 0 \<and> x \<noteq> 58"
    using class_name [OF n] by (simp del: code_literal)
  then have "find_pair 58 93 (map code n @ 58 # 93 # rest) = Some (map code n, rest)"
    by (rule find_pair_found) simp
  with s f have "next_char s = next_char (s\<lparr>state := SET,
      members := map int (filter f [0..<NCHARS]) @ [OOBCH], cnt := 0, ptr := rest\<rparr>)"
    by (simp add: next_char.simps [of s] next_normal_def bracket_def del: upt_Suc upt_rec_numeral)
  then show ?thesis
    by (rule scan_set [where rest = rest]) (auto simp: f(1) list_all_iff is_char_def)
qed

lemma scan_equiv:
  assumes s: "state s = NORMAL" "ptr s = 91 # 61 # code c # 61 # 93 # rest"
    and c: "c \<noteq> NUL" "c \<noteq> CHR 0x5C" "c \<noteq> CHR ''=''"
  shows "\<exists>s'. leads s [int (code c)] s' \<and> state s' = NORMAL \<and> ptr s' = rest \<and> lastch s' = OOBCH"
proof -
  have "find_pair 61 93 ([code c] @ 61 # 93 # rest) = Some ([code c], rest)"
    using c by (intro find_pair_found) auto
  with s c have "next_char s = next_char (s\<lparr>cnt := 0, state := SET,
      members := [int (code c), OOBCH], ptr := rest\<rparr>)"
    by (simp add: next_char.simps [of s] next_normal_def bracket_def genequiv_def take_char_def)
  then show ?thesis
    by (rule scan_set [where rest = rest]) (auto simp: is_char_def)
qed

lemma scan_escape:
  assumes s: "state s = NORMAL" "ptr s = 92 # q" and b: "backslash s = Inr (v, s\<lparr>ptr := rest\<rparr>)"
    and rest: "rest \<noteq> []" "hd rest \<noteq> 45"
  shows "\<exists>s'. leads s [v] s' \<and> state s' = NORMAL \<and> ptr s' = rest \<and> lastch s' = v"
proof -
  have "next_char s = Inr (v, True, s\<lparr>ptr := rest, lastch := v\<rparr>)"
    using assms
    by (simp add: next_char.simps [of s] next_normal_def next_single_def peek_hd del: peek_Inr)
  then show ?thesis using leads_step s(1) by fastforce
qed

lemma backslash_octal:
  assumes "ptr s = 92 # (48 + d1) # (48 + d2) # (48 + d3) # rest" "d1 < 4" "d2 < 8" "d3 < 8"
  shows "backslash s = Inr (int (64 * d1 + 8 * d2 + d3), s\<lparr>ptr := rest\<rparr>)"
proof -
  have "isdigit (48 + d1)" "isdigit (48 + d2)" "isdigit (48 + d3)"
    using assms by (simp_all add: isdigit_def)
  then have "backslash_loop 0 0 (ptr s) = Inr (3, int (64 * d1 + 8 * d2 + d3), 48 + d3, rest)"
    by (simp add: assms(1) backslash_loop.simps(2))
  moreover have "64 * d1 + 8 * d2 + d3 < 256" using assms by simp
  ultimately show ?thesis by (simp add: backslash_def)
qed

lemma backslash_escape:
  assumes "ptr s = 92 # code c # rest" "c \<noteq> NUL" "\<not> isdigit (code c)"
  shows "backslash s =
    Inr (case map_of escapes (code c) of Some v \<Rightarrow> v | None \<Rightarrow> int (code c), s\<lparr>ptr := rest\<rparr>)"
  using assms by (simp add: backslash_def backslash_loop.simps(2))

lemma scan_item:
  assumes "state s = NORMAL" "ptr s = map code (item_text it) @ rest" "item_ok it"
    and "rest \<noteq> []" "hd rest \<noteq> 45"
  shows "\<exists>s'. leads s (item_chars it) s' \<and> state s' = NORMAL \<and> ptr s' = rest \<and> lastch s' = item_last it"
proof (cases it)
  case (Char c)
  with assms scan_char [of s c rest] show ?thesis by simp
next
  case (Range a b)
  with assms scan_range [of s a b rest] show ?thesis by (simp del: upt_Suc)
next
  case (Class n)
  with assms scan_class [of s n rest] show ?thesis by simp
next
  case (Equiv c)
  with assms scan_equiv [of s c rest] show ?thesis by simp
next
  case (Octal d1 d2 d3)
  with assms backslash_octal [of s d1 d2 d3 rest] show ?thesis
    by (simp add: scan_escape)
next
  case (Escape c)
  with assms backslash_escape [of s c rest] show ?thesis
    by (simp add: scan_escape)
qed

text \<open>An item begins with another character than a hyphen, so it never ends a range.\<close>

lemma item_begin: "item_ok it \<Longrightarrow> \<exists>c p. item_text it = c # p \<and> c \<noteq> CHR ''-''"
  by (cases it) (auto simp: plain_char_def)

lemma items_begin:
  "list_all item_ok its \<Longrightarrow> \<exists>c p. map code (concat (map item_text its)) @ [0] = c # p \<and> c \<noteq> 45"
proof (cases its)
  case (Cons it its')
  assume "list_all item_ok its"
  with Cons item_begin [of it] show ?thesis by force
qed simp

definition last_ch :: "int \<Rightarrow> item list \<Rightarrow> int" where
  "last_ch l its = (if its = [] then l else item_last (last its))"

lemma scan_items:
  "state s = NORMAL \<Longrightarrow> ptr s = map code (concat (map item_text its)) @ [0] \<Longrightarrow>
     list_all item_ok its \<Longrightarrow>
     scans s (concat (map item_chars its)) (last_ch (lastch s) its)"
proof (induction its arbitrary: s)
  case Nil
  then have "next_char s = Inr (lastch s, False, s\<lparr>state := EOS\<rparr>)"
    by (simp add: next_char.simps [of s] next_normal_def)
  then show ?case by (simp add: last_ch_def scans.stop)
next
  case (Cons it its)
  let ?rest = "map code (concat (map item_text its)) @ [0]"
  obtain s' where s': "leads s (item_chars it) s'" "state s' = NORMAL" "ptr s' = ?rest"
    "lastch s' = item_last it"
    using scan_item [of s it ?rest] items_begin [of its] Cons.prems by auto
  with Cons.IH [of s'] Cons.prems(3)
  have "scans s' (concat (map item_chars its)) (last_ch (item_last it) its)" by simp
  with s'(1) have "scans s (item_chars it @ concat (map item_chars its)) (last_ch (item_last it) its)"
    by (simp add: leads_def)
  moreover have "last_ch (item_last it) its = last_ch (lastch s) (it # its)"
    by (simp add: last_ch_def)
  ultimately show ?case by simp
qed

lemma scans_text:
  "list_all item_ok its \<Longrightarrow>
     scans (str_create second (concat (map item_text its))) (concat (map item_chars its)) (last_ch OOBCH its)"
  using scan_items [of "str_create second (concat (map item_text its))" its]
  by (simp add: str_create_def)



section \<open>The tables\<close>

lemma scans_char: "scans s cs l \<Longrightarrow> scan_ok s \<Longrightarrow> list_all is_char cs"
  by (induction rule: scans.induct) (auto dest: next_char_ok)

definition marks :: "int list \<Rightarrow> int list \<Rightarrow> int list" where
  "marks cs t = foldl (\<lambda>t c. t[nat c := 1]) t cs"

lemma setup_loop_scans:
  "scans s cs l \<Longrightarrow> scan_ok s \<Longrightarrow> setup_loop s t = Some (Inr (marks cs t))"
proof (induction arbitrary: t rule: scans.induct)
  case (stop s l s')
  then show ?case by (simp add: setup_loop.simps [of s] marks_def)
next
  case (step s c s' cs l)
  with next_char_ok [OF step.hyps(1)] show ?case
    by (simp add: setup_loop.simps [of s] marks_def store_char)
qed

lemma marks_length [simp]: "length (marks cs t) = length t"
  by (induction cs arbitrary: t) (simp_all add: marks_def)

lemma marks_nth:
  "i < length t \<Longrightarrow> list_all is_char cs \<Longrightarrow> marks cs t ! i = (if int i \<in> set cs then 1 else t ! i)"
proof (induction cs arbitrary: t)
  case (Cons c cs)
  have "marks (c # cs) t = marks cs (t[nat c := 1])" by (simp add: marks_def)
  with Cons show ?case by (auto simp: nth_list_update is_char_def)
qed (simp add: marks_def)

text \<open>The characters that \<open>-c\<close> selects, and the table of \<open>setup\<close>.\<close>

definition selected :: "bool \<Rightarrow> int list \<Rightarrow> char \<Rightarrow> bool" where
  "selected cflag cs c \<longleftrightarrow> (int (code c) \<in> set cs) \<noteq> cflag"

lemma setup_chars_scans:
  assumes "scans (str_create second arg) cs l"
  shows "\<exists>t. setup_chars arg second cflag = Some (Inr t) \<and> length t = NCHARS \<and>
    (\<forall>i<NCHARS. t ! i = of_bool ((int i \<in> set cs) \<noteq> cflag))"
proof -
  have "list_all is_char cs" using scans_char [OF assms] by simp
  moreover have "setup_loop (str_create second arg) no_chars = Some (Inr (marks cs no_chars))"
    using setup_loop_scans [OF assms] by simp
  ultimately show ?thesis
    by (cases cflag) (auto simp: setup_chars_def marks_nth no_chars_def)
qed

section \<open>Deleting and squeezing\<close>

text \<open>Squeezing: a selected character that repeats the one before it in the input goes.\<close>

definition squeezed :: "(char \<Rightarrow> bool) \<Rightarrow> string \<Rightarrow> string" where
  "squeezed P inp =
     map snd (filter (\<lambda>(p, c). \<not> (P c \<and> p = Some c)) (zip (None # map Some inp) inp))"

definition squeezed_after :: "char option \<Rightarrow> (char \<Rightarrow> bool) \<Rightarrow> string \<Rightarrow> string" where
  "squeezed_after p P inp =
     map snd (filter (\<lambda>(p, c). \<not> (P c \<and> p = Some c)) (zip (p # map Some inp) inp))"

lemma squeezed_after_simps:
  "squeezed_after p P [] = []"
  "squeezed_after p P (c # inp) =
     (if P c \<and> p = Some c then squeezed_after p P inp else c # squeezed_after (Some c) P inp)"
  by (simp_all add: squeezed_after_def)

text \<open>The variable \<open>lastch\<close> of the loops: the last character written, which is the last one read.\<close>

definition prev_char :: "char option \<Rightarrow> int" where
  "prev_char p = (case p of None \<Rightarrow> OOBCH | Some c \<Rightarrow> int (code c))"

lemma prev_char_eq: "prev_char p = int (code c) \<longleftrightarrow> p = Some c"
proof -
  have "int (code c) \<noteq> OOBCH" using code_less [of c] by linarith
  then show ?thesis by (auto simp: prev_char_def code_eq_iff split: option.split)
qed

lemma prev_char_Some: "int (code c) = prev_char (Some c)" "prev_char p = prev_char (Some c) \<longleftrightarrow> p = Some c"
  using prev_char_eq [of p c] by (simp_all add: prev_char_def)

lemma squeeze_after:
  "\<forall>c. (t ! code c \<noteq> 0) = P c \<Longrightarrow> squeeze t (prev_char p) inp = squeezed_after p P inp"
  by (induction inp arbitrary: p)
    (auto simp: squeezed_after_simps prev_char_eq prev_char_Some)

lemma delete_squeeze_after:
  "\<forall>c. (t1 ! code c \<noteq> 0) = D c \<Longrightarrow> \<forall>c. (t2 ! code c \<noteq> 0) = P c \<Longrightarrow>
     delete_squeeze t1 t2 (prev_char p) inp = squeezed_after p P (filter (\<lambda>c. \<not> D c) inp)"
  by (induction inp arbitrary: p)
    (auto simp: squeezed_after_simps prev_char_eq prev_char_Some)

lemma delete_filter: "\<forall>c. (t ! code c \<noteq> 0) = D c \<Longrightarrow> delete t inp = filter (\<lambda>c. \<not> D c) inp"
  by (induction inp) auto

lemma squeezed_None: "squeezed P inp = squeezed_after None P inp"
  by (simp add: squeezed_def squeezed_after_def)

text \<open>
  C14: with \<open>-d\<close> the output is the input without the selected characters, with \<open>-s\<close> the input
  in which a selected character is dropped when it repeats the one before it, with both the
  squeezing by \<open>string2\<close> of what the deletion leaves.
\<close>

theorem tr_delete_squeeze:
  assumes "scans (str_create False arg1) cs1 l1" and "scans (str_create True arg2) cs2 l2"
  shows "tr cflag True False [arg1] inp =
      Some (Inr (filter (\<lambda>c. \<not> selected cflag cs1 c) inp)) \<and>
    tr cflag False True [arg1] inp = Some (Inr (squeezed (selected cflag cs1) inp)) \<and>
    tr cflag True True [arg1, arg2] inp =
      Some (Inr (squeezed (selected False cs2) (filter (\<lambda>c. \<not> selected cflag cs1 c) inp)))"
proof -
  obtain t1 where t1: "setup_chars arg1 False cflag = Some (Inr t1)"
    "\<forall>i<NCHARS. t1 ! i = of_bool ((int i \<in> set cs1) \<noteq> cflag)"
    using setup_chars_scans [OF assms(1)] by blast
  obtain t2 where t2: "setup_chars arg2 True False = Some (Inr t2)"
    "\<forall>i<NCHARS. t2 ! i = of_bool ((int i \<in> set cs2) \<noteq> False)"
    using setup_chars_scans [OF assms(2)] by blast
  have s: "\<forall>c. (t1 ! code c \<noteq> 0) = selected cflag cs1 c" "\<forall>c. (t2 ! code c \<noteq> 0) = selected False cs2 c"
    using t1(2) t2(2) by (auto simp: selected_def)
  have "squeeze t1 OOBCH inp = squeezed (selected cflag cs1) inp"
    using squeeze_after [OF s(1), of None] by (simp add: prev_char_def squeezed_None)
  moreover have "delete_squeeze t1 t2 OOBCH inp =
      squeezed (selected False cs2) (filter (\<lambda>c. \<not> selected cflag cs1 c) inp)"
    using delete_squeeze_after [OF s, of None] by (simp add: prev_char_def squeezed_None)
  ultimately show ?thesis
    using t1(1) t2(1) by (simp add: tr_def delete_filter [OF s(1)])
qed

theorem tr_delete_squeeze_witness:
  "\<exists>cs1 cs2.
     tr False True False [''a-c''] ''xaby'' =
       Some (Inr (filter (\<lambda>c. \<not> selected False cs1 c) ''xaby'')) \<and>
     tr False False True [''a-c''] ''xaby'' = Some (Inr (squeezed (selected False cs1) ''xaby'')) \<and>
     tr False True True [''a-c'', ''[:alpha:]''] ''xaby'' =
       Some (Inr (squeezed (selected False cs2) (filter (\<lambda>c. \<not> selected False cs1 c) ''xaby'')))"
proof -
  have "scans (str_create False ''a-c'') (concat (map item_chars [Range CHR ''a'' CHR ''c'']))
      (last_ch OOBCH [Range CHR ''a'' CHR ''c''])"
    using scans_text [of "[Range CHR ''a'' CHR ''c'']" False] by (simp add: plain_char_def del: upt_Suc)
  moreover have "scans (str_create True ''[:alpha:]'') (concat (map item_chars [Class ''alpha'']))
      (last_ch OOBCH [Class ''alpha''])"
    using scans_text [of "[Class ''alpha'']" True] by (simp add: classes_def del: item_chars.simps)
  ultimately show ?thesis
    using tr_delete_squeeze [of "''a-c''" _ _ "''[:alpha:]''" _ _ False "''xaby''"] by blast
qed

section \<open>Translating\<close>

text \<open>The values \<open>next\<close> delivers, past the end of the string too, where the last one repeats.\<close>

primrec pulls :: "str \<Rightarrow> int list \<Rightarrow> bool" where
  "pulls s [] = True"
| "pulls s (d # ds) = (\<exists>got s'. next_char s = Inr (d, got, s') \<and> pulls s' ds)"

lemma next_char_ended: "next_char s = Inr (l, False, s') \<Longrightarrow> next_char s' = Inr (l, False, s')"
proof (induction s rule: next_char.induct)
  case (1 s)
  show ?case
  proof (cases "state s")
    case EOS
    with 1 show ?thesis by (auto simp: next_char.simps [of s] next_char.simps [of s'])
  next
    case INFINITE
    with 1 show ?thesis by (simp add: next_char.simps [of s])
  next
    case NORMAL
    with "1.prems" obtain r s1 where n: "next_normal s = Inr (r, s1)"
      by (cases "next_normal s") (auto simp: next_char.simps [of s])
    show ?thesis
    proof (cases r)
      case None
      with n NORMAL "1.prems" have "next_char s1 = Inr (l, False, s')"
        by (simp add: next_char.simps [of s])
      with "1.IH"(1) [OF NORMAL n refl None] show ?thesis by simp
    next
      case (Some a)
      obtain ch p where p: "ptr s = ch # p"
        using n by (cases "ptr s") (auto simp: next_normal_def peek_def)
      have a: "a = (l, False)" "s1 = s'" using n NORMAL "1.prems" Some
        by (auto simp: next_char.simps [of s] split: prod.splits)
      have "\<not> (next_single ch s = Inr (Some (l, False), s'))"
        by (auto simp: next_single_def result_simps split: if_splits prod.splits)
      with next_normal_cases [OF n p] a Some have "s' = s\<lparr>state := EOS\<rparr>" "l = lastch s" by auto
      then show ?thesis by (simp add: next_char.simps)
    qed
  next
    case RANGE
    with "1.IH"(2) "1.prems" show ?thesis
      by (cases "cnt s = 0") (simp_all add: next_char.simps [of s])
  next
    case SEQUENCE
    with "1.IH"(3) "1.prems" show ?thesis
      by (cases "cnt s = 0") (simp_all add: next_char.simps [of s])
  next
    case SET
    with "1.IH"(4) [OF SET refl refl] "1.prems" show ?thesis
      by (cases "members s ! nat (cnt s) = OOBCH") (simp_all add: next_char.simps [of s] Let_def)
  qed
qed

lemma pulls_ended: "next_char s = Inr (l, False, s') \<Longrightarrow> pulls s (replicate n l)"
proof (induction n arbitrary: s)
  case (Suc n)
  with next_char_ended [OF Suc.prems] show ?case by auto
qed simp

lemma scans_pulls: "scans s cs l \<Longrightarrow> pulls s (cs @ replicate n l)"
  by (induction rule: scans.induct) (auto intro: pulls_ended)

lemma pulls_take: "pulls s ds \<Longrightarrow> pulls s (take n ds)"
  by (induction ds arbitrary: s n) (auto simp: take_Cons split: nat.split)

text \<open>The entries the matching loop makes, in its order: a later one replaces an earlier.\<close>

definition assign :: "(int \<times> int) list \<Rightarrow> int list \<Rightarrow> int list" where
  "assign ps t = foldl (\<lambda>t (c, d). t[nat c := d]) t ps"

lemma assign_simps [simp]: "assign [] t = t" "assign ((c, d) # ps) t = assign ps (t[nat c := d])"
  by (simp_all add: assign_def)

lemma assign_length [simp]: "length (assign ps t) = length t"
  by (induction ps arbitrary: t) auto

lemma assign_nth:
  "i < length t \<Longrightarrow> list_all is_char (map fst ps) \<Longrightarrow>
     assign ps t ! i = (case map_of (rev ps) (int i) of Some d \<Rightarrow> d | None \<Rightarrow> t ! i)"
proof (induction ps arbitrary: t)
  case (Cons p ps)
  obtain c d where p: "p = (c, d)" by (cases p)
  with Cons.prems have c: "is_char c" by simp
  from p Cons show ?case
    using c by (auto simp: map_add_def nth_list_update is_char_def split: option.split)
qed simp

definition marked :: "bool \<Rightarrow> int list \<Rightarrow> int list \<Rightarrow> int list" where
  "marked sflag ds t = (if sflag then marks ds t else t)"

lemma marked_simps: "marked sflag [] t = t"
  "marked sflag (d # ds) t = marked sflag ds (if sflag then t[nat d := 1] else t)"
  by (simp_all add: marked_def marks_def)

lemma set_translation_ok:
  "is_char ch \<Longrightarrow> (sflag \<longrightarrow> is_char d) \<Longrightarrow>
     set_translation sflag ch d (t1, t2) = Inr (t1[nat ch := d], if sflag then t2[nat d := 1] else t2)"
  by (simp add: set_translation_def store_char)

lemma match_loop_eq:
  "scans s1 cs l \<Longrightarrow> scan_ok s1 \<Longrightarrow> pulls s2 ds \<Longrightarrow> length ds = length cs \<Longrightarrow>
     (sflag \<longrightarrow> list_all is_char (take (length cs) (d # ds))) \<Longrightarrow>
     match_loop sflag s1 s2 d (t1, t2) =
       Some (Inr (assign (zip cs (d # ds)) t1, marked sflag (take (length cs) (d # ds)) t2))"
proof (induction arbitrary: s2 d ds t1 t2 rule: scans.induct)
  case (stop s l s')
  then show ?case by (simp add: match_loop.simps [of sflag s] marked_simps)
next
  case (step s c s' cs l)
  obtain e es where ds: "ds = e # es" using step.prems by (cases ds) auto
  with step.prems obtain got s2' where n2: "next_char s2 = Inr (e, got, s2')" "pulls s2' es" by auto
  note ok = next_char_ok [OF step.hyps(1) step.prems(1)]
  have "set_translation sflag c d (t1, t2) = Inr (t1[nat c := d], if sflag then t2[nat d := 1] else t2)"
    using step.prems ok by (intro set_translation_ok) auto
  with step.hyps n2 have "match_loop sflag s s2 d (t1, t2) =
      match_loop sflag s' s2' e (t1[nat c := d], if sflag then t2[nat d := 1] else t2)"
    by (simp add: match_loop.simps [of sflag s])
  with step.IH [of s2' es e] ok n2 step.prems ds show ?case by (simp add: marked_simps)
qed

lemma filter_update:
  "ch \<notin> set chs \<Longrightarrow> filter (\<lambda>c. t[ch := x] ! c \<noteq> 0) chs = filter (\<lambda>c. t ! c \<noteq> 0) chs"
  by (rule filter_cong) (metis nth_list_update_neq)+

lemma complement_loop_eq:
  "list_all (\<lambda>c. c < NCHARS) chs \<Longrightarrow> distinct chs \<Longrightarrow> length t1 = NCHARS \<Longrightarrow>
     sel = filter (\<lambda>c. t1 ! c \<noteq> 0) chs \<Longrightarrow> pulls s2 ds \<Longrightarrow> length ds = length sel \<Longrightarrow>
     (sflag \<longrightarrow> list_all is_char (take (length sel) (d # ds))) \<Longrightarrow>
     \<exists>r. complement_loop sflag s2 d chs (t1, t2) =
          Inr (r, marked sflag (take (length sel) (d # ds)) t2) \<and> length r = NCHARS \<and>
       (\<forall>i<NCHARS. r ! i =
          (case map_of (zip sel (d # ds)) i of
             Some x \<Rightarrow> x | None \<Rightarrow> if i \<in> set chs then int i else t1 ! i))"
proof (induction chs arbitrary: s2 d ds t1 t2 sel)
  case Nil
  then show ?case by (simp add: marked_simps)
next
  case (Cons ch chs)
  show ?case
  proof (cases "t1 ! ch = 0")
    case True
    let ?t1 = "t1[ch := int ch]"
    have sel: "sel = filter (\<lambda>c. ?t1 ! c \<noteq> 0) chs"
      using Cons.prems True by (simp add: filter_update)
    obtain r where r: "complement_loop sflag s2 d chs (?t1, t2) =
        Inr (r, marked sflag (take (length sel) (d # ds)) t2)" "length r = NCHARS"
      "\<forall>i<NCHARS. r ! i =
        (case map_of (zip sel (d # ds)) i of
           Some x \<Rightarrow> x | None \<Rightarrow> if i \<in> set chs then int i else ?t1 ! i)"
      using Cons.IH [of ?t1 sel s2 ds d t2] Cons.prems sel by auto
    with True Cons.prems show ?thesis
      by (intro exI [of _ r]) (auto simp: nth_list_update split: option.split)
  next
    case False
    then obtain sel' where sel: "sel = ch # sel'" "sel' = filter (\<lambda>c. t1 ! c \<noteq> 0) chs"
      using Cons.prems by simp
    then obtain e es where ds: "ds = e # es" using Cons.prems by (cases ds) auto
    with Cons.prems obtain got s2' where n2: "next_char s2 = Inr (e, got, s2')" "pulls s2' es" by auto
    let ?t1 = "t1[ch := d]" and ?t2 = "if sflag then t2[nat d := 1] else t2"
    have sel': "sel' = filter (\<lambda>c. ?t1 ! c \<noteq> 0) chs"
      using Cons.prems sel by (simp add: filter_update)
    have "set_translation sflag (int ch) d (t1, t2) = Inr (?t1, ?t2)"
      using Cons.prems False by (subst set_translation_ok) (auto simp: is_char_def)
    with n2 False have eq: "complement_loop sflag s2 d (ch # chs) (t1, t2) =
        complement_loop sflag s2' e chs (?t1, ?t2)" by simp
    obtain r where r: "complement_loop sflag s2' e chs (?t1, ?t2) =
        Inr (r, marked sflag (take (length sel') (e # es)) ?t2)" "length r = NCHARS"
      "\<forall>i<NCHARS. r ! i =
        (case map_of (zip sel' (e # es)) i of
           Some x \<Rightarrow> x | None \<Rightarrow> if i \<in> set chs then int i else ?t1 ! i)"
      using Cons.IH [of ?t1 sel' s2' es e ?t2] Cons.prems sel sel' ds n2 by auto
    have "map_of (zip sel' (e # es)) ch = None"
      using sel(2) Cons.prems(2) by (auto simp: map_of_eq_None_iff dest: set_zip_leftD)
    with r eq sel ds Cons.prems show ?thesis
      by (intro exI [of _ r]) (auto simp: nth_list_update marked_simps split: option.split)
  qed
qed

text \<open>The characters to translate, and what they become: \<open>string2\<close>, padded with its last value.\<close>

definition sources :: "bool \<Rightarrow> int list \<Rightarrow> int list" where
  "sources cflag cs =
     (if cflag then filter (\<lambda>c. c \<notin> set cs) (map int [0..<NCHARS]) else cs)"

definition targets :: "nat \<Rightarrow> int list \<Rightarrow> int \<Rightarrow> int list" where
  "targets n cs l = take n cs @ replicate (n - length cs) l"

definition translation :: "int list \<Rightarrow> int list \<Rightarrow> char \<Rightarrow> char" where
  "translation src dst c =
     (case map_of (rev (zip src dst)) (int (code c)) of Some d \<Rightarrow> putchar d | None \<Rightarrow> c)"

lemma targets_length: "length (targets n cs l) = n"
  by (simp add: targets_def)

lemma map_of_rev_distinct: "distinct (map fst ps) \<Longrightarrow> map_of (rev ps) = map_of ps"
  by (rule map_of_eqI) (auto simp: rev_map [symmetric] map_of_eq_Some_iff)

lemma map_of_zip_int: "map_of (zip (map int xs) ys) (int i) = map_of (zip xs ys) i"
  by (induction xs arbitrary: ys) (auto simp: zip_Cons1 split: list.split)

lemma translation_table:
  assumes "\<forall>i<NCHARS. t ! i = (case map_of (rev (zip src dst)) (int i) of Some d \<Rightarrow> d | None \<Rightarrow> int i)"
  shows "putchar (t ! code c) = translation src dst c"
  using assms by (auto simp: translation_def putchar_def split: option.split)

lemma translate_eq: "(\<And>c. putchar (t ! code c) = f c) \<Longrightarrow> translate t inp = map f inp"
  by (simp add: translate_def)

lemma putchar_inj: "is_char c \<Longrightarrow> is_char d \<Longrightarrow> putchar c = putchar d \<longleftrightarrow> c = d"
proof
  assume cd: "is_char c" "is_char d" and "putchar c = putchar d"
  then have "code (chr (nat (c mod 256))) = code (chr (nat (d mod 256)))" by (simp add: putchar_def)
  with cd show "c = d" by (auto simp: is_char_def nat_less_iff)
qed simp

text \<open>Squeezing while translating: \<open>lastch\<close> is the last translation.\<close>

lemma translate_squeeze_after:
  assumes t: "\<And>c. is_char (t1 ! code c)" "\<And>c. putchar (t1 ! code c) = f c"
    and m: "\<And>c. (t2 ! nat (t1 ! code c) \<noteq> 0) = P (f c)"
  shows "(p = None \<and> q = OOBCH \<or> is_char q \<and> p = Some (putchar q)) \<Longrightarrow>
    translate_squeeze t1 t2 q inp = Inr (squeezed_after p P (map f inp))"
proof (induction inp arbitrary: p q)
  case (Cons c inp)
  let ?d = "t1 ! code c"
  have "load t2 ?d = Inr (t2 ! nat ?d)" using t(1) [of c] by (simp add: load_def is_char_def)
  moreover have "q = ?d \<longleftrightarrow> p = Some (f c)"
    using Cons.prems t [of c] putchar_inj [of q ?d] by (auto simp: is_char_def)
  moreover have "translate_squeeze t1 t2 ?d inp = Inr (squeezed_after (Some (f c)) P (map f inp))"
    using Cons.IH [of "Some (f c)" ?d] t [of c] by simp
  moreover have "translate_squeeze t1 t2 q inp = Inr (squeezed_after p P (map f inp))"
    using Cons.IH Cons.prems by blast
  ultimately show ?case
    using m [of c] t(2) [of c] by (auto simp: squeezed_after_simps Let_def)
qed (simp add: squeezed_after_simps)

lemma zip_take_length: "zip xs (take (length xs) ys) = zip xs ys"
  by (induction xs arbitrary: ys) (auto simp: zip_Cons1 take_Suc split: list.split)

text \<open>Both ways to build the tables, from the characters of the two strings.\<close>

lemma tables_eq:
  assumes s1: "scans (str_create False a1) cs1 l1" and s2: "scans (str_create True a2) cs2 l2"
    and ne: "cs2 \<noteq> []" and src: "src = sources cflag cs1" and dst: "dst = targets (length src) cs2 l2"
    and ok: "sflag \<longrightarrow> list_all is_char dst"
  shows "\<exists>t. tables cflag sflag a1 a2 = Some (Inr (t, marked sflag dst no_chars)) \<and> length t = NCHARS \<and>
    (\<forall>i<NCHARS. t ! i = (case map_of (rev (zip src dst)) (int i) of Some d \<Rightarrow> d | None \<Rightarrow> int i))"
proof -
  obtain d cs where cs2: "cs2 = d # cs" using ne by (cases cs2) auto
  obtain s' where n2: "next_char (str_create True a2) = Inr (d, True, s')" "scans s' cs l2"
    using s2 cs2 by (auto elim: scans_ConsE)
  define n where "n = length src"
  define ds where "ds = targets n cs l2"
  have "ds = take n (cs @ replicate n l2)" by (simp add: ds_def targets_def take_replicate min_def)
  then have pulls: "pulls s' ds"
    by (simp only:) (rule pulls_take [OF scans_pulls [OF n2(2)]])
  have len: "length ds = n" by (simp add: ds_def targets_def)
  have dst_eq: "take n (d # ds) = dst"
    unfolding dst n_def [symmetric]
    by (cases n) (simp_all add: targets_def ds_def cs2 take_replicate min_def)
  have zip_eq: "zip src (d # ds) = zip src dst"
    unfolding dst_eq [symmetric] n_def by (simp only: zip_take_length)
  have ok': "sflag \<longrightarrow> list_all is_char (take n (d # ds))" using ok dst_eq by simp
  show ?thesis
  proof (cases cflag)
    case False
    then have cs1: "cs1 = src" by (simp add: src sources_def)
    have "list_all is_char src" using scans_char [OF s1] cs1 by simp
    then have "list_all is_char (map fst (zip src dst))"
      by (auto simp: list_all_iff dest: set_zip_leftD)
    moreover have "match_loop sflag (str_create False a1) s' d (map int [0..<NCHARS], no_chars) =
        Some (Inr (assign (zip src dst) (map int [0..<NCHARS]), marked sflag dst no_chars))"
      using match_loop_eq [OF s1 _ pulls, of sflag d "map int [0..<NCHARS]" no_chars]
        len ok' zip_eq dst_eq cs1 n_def by simp
    ultimately show ?thesis
      using n2(1) False
      by (intro exI [of _ "assign (zip src dst) (map int [0..<NCHARS])"])
        (simp add: tables_def assign_nth del: upt_Suc upt_rec_numeral split: option.split)
  next
    case True
    obtain t where t: "setup_chars a1 False True = Some (Inr t)" "length t = NCHARS"
      "\<forall>i<NCHARS. t ! i = of_bool ((int i \<in> set cs1) \<noteq> True)"
      using setup_chars_scans [OF s1, of True] by blast
    define sel where "sel = filter (\<lambda>c. t ! c \<noteq> 0) [0..<NCHARS]"
    have "sel = filter (\<lambda>c. int c \<notin> set cs1) [0..<NCHARS]"
      unfolding sel_def using t(3) by (intro filter_cong) auto
    then have sel: "src = map int sel"
      using True by (simp add: src sources_def filter_map comp_def)
    have "list_all (\<lambda>c. c < NCHARS) [0..<NCHARS]" by (simp add: list_all_iff)
    from complement_loop_eq [OF this distinct_upt t(2) sel_def pulls, of sflag d no_chars]
    obtain r where r: "complement_loop sflag s' d [0..<NCHARS] (t, no_chars) =
        Inr (r, marked sflag dst no_chars)" "length r = NCHARS"
      "\<forall>i<NCHARS. r ! i = (case map_of (zip sel (d # ds)) i of Some x \<Rightarrow> x | None \<Rightarrow> int i)"
      using len sel ok' dst_eq n_def by (auto simp del: upt_Suc upt_rec_numeral)
    have "distinct (map fst (zip src dst))"
      using sel by (simp add: map_fst_zip_take distinct_map sel_def)
    then have "map_of (rev (zip src dst)) (int i) = map_of (zip sel (d # ds)) i" for i
      using map_of_rev_distinct zip_eq map_of_zip_int [of sel "d # ds" i] sel by metis
    with r t(1) n2(1) True show ?thesis
      by (intro exI [of _ r]) (simp add: tables_def del: upt_Suc upt_rec_numeral)
  qed
qed



section \<open>Strings that do not end, and strings that end too early\<close>

lemma setup_loop_forever:
  assumes "setup_loop s t = Some r" and "next_char s = Inr (c, True, s)" and "is_char c" shows False
  using assms
proof (induction s t r rule: setup_loop.raw_induct)
  case (1 f s t r)
  then have "f s (t[nat c := 1]) = Some r" by (simp add: store_char)
  moreover have "setup_loop s (t[nat c := 1]) = Some r"
    using 1 by (simp add: setup_loop.simps [of s t] store_char)
  ultimately show ?case using 1 by blast
qed (rule assms(1))

text \<open>
  C33: a sequence without a count, which pads \<open>string2\<close> when translating, never ends: deleting
  and squeezing at once reads \<open>string2\<close> to its end, so \<open>tr -ds string1 '[x*]'\<close> does not return,
  whatever \<open>string1\<close> deletes and whatever the input.
\<close>

theorem tr_endless_sequence:
  assumes "x \<notin> set [NUL, CHR 0x5C, CHR '':'', CHR ''='']" and "setup_chars arg1 False cflag = Some (Inr t)"
  shows "tr cflag True True [arg1, ''['' @ [x] @ ''*]''] inp = None"
proof -
  let ?s = "str_create True (''['' @ [x] @ ''*]'')"
  let ?e = "?s\<lparr>ptr := [0], cnt := 0, lastch := int (code x), state := INFINITE\<rparr>"
  have x: "code x \<noteq> 58" "code x \<noteq> 61" "code x \<noteq> 92" "code x \<noteq> 0"
    using assms(1) code_eq_iff [of x "CHR '':''"] by auto
  have again: "next_char ?e = Inr (int (code x), True, ?e)" by (simp add: next_char.simps)
  have char: "is_char (int (code x))" by (simp add: is_char_def)
  have "next_char ?s = Inr (int (code x), True, ?e)"
    using x
    by (simp add: next_char.simps [of ?s] next_normal_def bracket_def strpbrk_def genseq_def
      take_char_def seq_count_def str_create_def next_char.simps Let_def)
  then have "setup_loop ?s no_chars = setup_loop ?e (no_chars[nat (int (code x)) := 1])"
    using char by (simp only: setup_loop.simps [of ?s] store_char sum.case prod.case not_True_eq_False if_False)
  moreover have "setup_loop ?e t = None" for t
    using setup_loop_forever [OF _ again char] by (cases "setup_loop ?e t") auto
  ultimately have "setup_chars (''['' @ [x] @ ''*]'') True False = None"
    by (simp add: setup_chars_def)
  with assms(2) show ?thesis by (simp add: tr_def)
qed

theorem tr_endless_sequence_witness: "tr False True True [''a'', ''[b*]''] ''xyz'' = None"
proof -
  have "scans (str_create False ''a'') [97] 97"
    using scans_text [of "[Char CHR ''a'']" False] by (simp add: plain_char_def last_ch_def)
  from setup_chars_scans [OF this, of False] obtain t where "setup_chars ''a'' False False = Some (Inr t)"
    by blast
  from tr_endless_sequence [OF _ this, of "CHR ''b''" "''xyz''"] show ?thesis by simp
qed

lemma match_loop_overrun:
  "scans s1 cs l \<Longrightarrow> scan_ok s1 \<Longrightarrow> pulls s2 ds \<Longrightarrow> length ds = length cs \<Longrightarrow>
     i < length cs \<Longrightarrow> \<not> is_char ((d # ds) ! i) \<Longrightarrow>
     match_loop True s1 s2 d t = Some (Inl StoreOverrun)"
proof (induction arbitrary: s2 d ds t i rule: scans.induct)
  case (step s c s' cs l)
  obtain e es where ds: "ds = e # es" using step.prems by (cases ds) auto
  with step.prems obtain got s2' where n2: "next_char s2 = Inr (e, got, s2')" "pulls s2' es" by auto
  note ok = next_char_ok [OF step.hyps(1) step.prems(1)]
  show ?case
  proof (cases "is_char d")
    case True
    then obtain j where "i = Suc j" using step.prems(5) by (cases i) auto
    with step.IH [of s2' es j e "((fst t)[nat c := d], (snd t)[nat d := 1])"] ok n2 step.prems ds True
    have "match_loop True s' s2' e ((fst t)[nat c := d], (snd t)[nat d := 1]) = Some (Inl StoreOverrun)"
      by simp
    moreover have "set_translation True c d t = Inr ((fst t)[nat c := d], (snd t)[nat d := 1])"
      using set_translation_ok [of c True d "fst t" "snd t"] ok True by simp
    ultimately show ?thesis
      using step.hyps n2 by (simp add: match_loop.simps [of True s])
  next
    case False
    then have "set_translation True c d t = Inl StoreOverrun"
      using ok by (simp add: set_translation_def store_char) (simp add: store_def is_char_def)
    with step.hyps show ?thesis by (simp add: match_loop.simps [of True s])
  qed
qed simp

text \<open>
  C34: when \<open>string2\<close> ends with a class, that is when its scanner ends with the marker \<open>OOBCH\<close>,
  and is shorter than \<open>string1\<close>, it is padded with the marker instead of its last character:
  the last character of \<open>string1\<close> becomes a NUL, and with \<open>-s\<close> the program stores past the end
  of the table \<open>string2\<close>, as for \<open>tr a-z '[:digit:]'\<close>.
\<close>

theorem tr_class_padding:
  assumes s1: "scans (str_create False arg1) cs1 l1" and s2: "scans (str_create True arg2) cs2 OOBCH"
    and ne: "cs2 \<noteq> []" and len: "length cs2 < length cs1"
  shows "tr False False True [arg1, arg2] inp = Some (Inl StoreOverrun) \<and>
    (int (code c) = last cs1 \<longrightarrow> tr False False False [arg1, arg2] [c] = Some (Inr [NUL]))"
proof (intro conjI impI)
  obtain d cs where cs2: "cs2 = d # cs" using ne by (cases cs2) auto
  obtain s' where n2: "next_char (str_create True arg2) = Inr (d, True, s')" "scans s' cs OOBCH"
    using s2 cs2 by (auto elim: scans_ConsE)
  define ds where "ds = cs @ replicate (length cs1 - length cs) OOBCH"
  have pulls: "pulls s' ds" using scans_pulls [OF n2(2)] by (simp add: ds_def)
  have "length ds = length cs1" "(d # ds) ! length cs2 = OOBCH"
    using len by (simp_all add: ds_def cs2 nth_append)
  with match_loop_overrun [OF s1 _ pulls, of "length cs2" d] len
  have "match_loop True (str_create False arg1) s' d t = Some (Inl StoreOverrun)" for t
    by (simp add: is_char_def)
  with n2(1) show "tr False False True [arg1, arg2] inp = Some (Inl StoreOverrun)"
    by (simp add: tr_def tables_def del: upt_Suc upt_rec_numeral)
next
  assume c: "int (code c) = last cs1"
  define dst where "dst = targets (length cs1) cs2 OOBCH"
  obtain t where t: "tables False False arg1 arg2 = Some (Inr (t, marked False dst no_chars))"
    "\<forall>i<NCHARS. t ! i = (case map_of (rev (zip cs1 dst)) (int i) of Some d \<Rightarrow> d | None \<Rightarrow> int i)"
    using tables_eq [OF s1 s2 ne, of cs1 False dst False] by (auto simp: sources_def dst_def)
  obtain xs x where cs1: "cs1 = xs @ [x]" using len by (cases cs1 rule: rev_cases) auto
  have "dst = targets (length xs) cs2 OOBCH @ [OOBCH]"
    using len by (simp add: dst_def cs1 targets_def Suc_diff_le replicate_append_same [symmetric])
  then have "zip cs1 dst = zip xs (targets (length xs) cs2 OOBCH) @ [(x, OOBCH)]"
    by (simp add: cs1 targets_length)
  then have "t ! code c = OOBCH" using t(2) c cs1 by simp
  with t(1) show "tr False False False [arg1, arg2] [c] = Some (Inr [NUL])"
    by (simp add: tr_def translate_def putchar_def chr_def char_of_def)
qed

theorem tr_class_padding_witness:
  "tr False False True [''ab'', ''[=x=]''] ''abc'' = Some (Inl StoreOverrun) \<and>
   tr False False False [''ab'', ''[=x=]''] ''b'' = Some (Inr [NUL])"
proof -
  have "scans (str_create False ''ab'') [97, 98] 98" "scans (str_create True ''[=x=]'') [120] OOBCH"
    using scans_text [of "[Char CHR ''a'', Char CHR ''b'']" False]
      scans_text [of "[Equiv CHR ''x'']" True]
    by (simp_all add: plain_char_def last_ch_def)
  from tr_class_padding [OF this, of "''abc''" "CHR ''b''"] show ?thesis by simp
qed

text \<open>
  Some strings make the scanner read past the terminating NUL: an opening bracket at the
  end, and the range from \<open>\000\<close> to the end of the string.
\<close>

theorem tr_reads_past_end:
  "tr cflag True False [''[''] inp = Some (Inl (Scan ReadOverrun)) \<and>
   tr cflag True False [CHR 0x5C # ''000-''] inp = Some (Inl (Scan ReadOverrun))"
proof -
  have "setup_chars ''['' False cflag = Some (Inl (Scan ReadOverrun))"
    by (simp add: setup_chars_def setup_loop.simps next_char.simps next_normal_def bracket_def
      str_create_def peek_def)
  moreover have "setup_chars (CHR 0x5C # ''000-'') False False = Some (Inl (Scan ReadOverrun))"
    by code_simp
  then have "setup_chars (CHR 0x5C # ''000-'') False cflag = Some (Inl (Scan ReadOverrun))"
    by (auto simp: setup_chars_def result_simps)
  ultimately show ?thesis by (simp add: tr_def)
qed

end
