(* ===== verification/Tsort.thy ===== *)
theory Tsort
  imports Prelude "HOL-Library.Multiset"
begin

text \<open>
  \<open>coreutils/tsort/tsort.c\<close>: the graph of the input pairs with its hash table of names, the
  removal of nodes without predecessors, and the search for a cycle when none is left. A
  \<open>NODE *\<close> is the index of the node in the list \<open>nodes\<close>, to which nodes are only added; the
  list linked by \<open>n_next\<close> and \<open>n_prevp\<close> is the list \<open>graph\<close> of such indices. Reference counts
  are integers. The chunks the elements of the hash table are allocated in, allocation
  failures and the output of \<open>-d\<close> are left out.
\<close>

section \<open>The graph\<close>

record node =
  n_name :: string
  n_arcs :: "nat list"
  n_refcnt :: int
  nf_mark :: bool
  nf_acyclic :: bool
  nf_nodest :: bool

record tstate =
  nodes :: "node list"
  graph :: "nat list"
  db :: "nat list list"
  cycle_buf :: "nat list option"
  longest_cycle :: "nat list"
  printed :: "string list"
  cycles :: "string list list"

datatype tsort_error = OddCount | NoCycle | BufOverrun | OutOfFuel

abbreviation HASH_BUCKET_COUNT :: nat where "HASH_BUCKET_COUNT \<equiv> 1024"

definition empty_graph :: tstate where
  "empty_graph =
     \<lparr>nodes = [], graph = [], db = replicate HASH_BUCKET_COUNT [], cycle_buf = None,
      longest_cycle = [], printed = [], cycles = []\<rparr>"

definition node :: "tstate \<Rightarrow> nat \<Rightarrow> node" where
  "node s i = nodes s ! i"

definition upd :: "nat \<Rightarrow> (node \<Rightarrow> node) \<Rightarrow> tstate \<Rightarrow> tstate" where
  "upd i f s = s\<lparr>nodes := (nodes s)[i := f (node s i)]\<rparr>"

subsection \<open>The table of names\<close>

text \<open>A \<open>char\<close> is signed, so a byte above 127 is extended with ones.\<close>

definition hash_key :: "string \<Rightarrow> 64 word" where
  "hash_key key = foldl (\<lambda>h c. (push_bit 5 h + h) XOR scast (of_char c :: 8 word)) 5381 key"

definition bucket :: "string \<Rightarrow> nat" where
  "bucket key = unat (hash_key key AND 1023)"

definition hash_find :: "tstate \<Rightarrow> string \<Rightarrow> nat option" where
  "hash_find s key = find (\<lambda>i. n_name (node s i) = key) (db s ! bucket key)"

definition hash_insert :: "string \<Rightarrow> nat \<Rightarrow> tstate \<Rightarrow> tstate" where
  "hash_insert key n s = s\<lparr>db := (db s)[bucket key := n # db s ! bucket key]\<rparr>"

definition new_node :: "string \<Rightarrow> node" where
  "new_node name =
     \<lparr>n_name = name, n_arcs = [], n_refcnt = 0, nf_mark = False, nf_acyclic = False,
      nf_nodest = False\<rparr>"

definition get_node :: "string \<Rightarrow> tstate \<Rightarrow> nat \<times> tstate" where
  "get_node name s =
     (case hash_find s name of
        Some n \<Rightarrow> (n, s)
      | None \<Rightarrow>
          let n = length (nodes s) in
          (n, hash_insert name n (s\<lparr>nodes := nodes s @ [new_node name], graph := n # graph s\<rparr>)))"

subsection \<open>Reading the pairs\<close>

definition add_arc :: "string \<Rightarrow> string \<Rightarrow> tstate \<Rightarrow> tstate" where
  "add_arc s1 s2 s =
     (case get_node s1 s of (n1, s) \<Rightarrow>
        if s1 = s2 then s
        else case get_node s2 s of (n2, s) \<Rightarrow>
          if n2 \<in> set (n_arcs (node s n1)) then s
          else
            upd n2 (\<lambda>n. n\<lparr>n_refcnt := n_refcnt n + 1\<rparr>)
              (upd n1 (\<lambda>n. n\<lparr>n_arcs := n_arcs n @ [n2]\<rparr>) s))"

text \<open>
  The words of the input. A word is a buffer that is read as a string, so it ends at a NUL of
  its own.
\<close>

abbreviation is_space :: "char \<Rightarrow> bool" where
  "is_space c \<equiv> isspace (code c)"

function words :: "string \<Rightarrow> string list" where
  "words inp =
     (case dropWhile is_space inp of
        [] \<Rightarrow> []
      | c # cs \<Rightarrow>
          cstr (c # takeWhile (\<lambda>c. \<not> is_space c) cs) # words (dropWhile (\<lambda>c. \<not> is_space c) cs))"
  by pat_completeness auto
termination
proof (relation "measure length")
  fix inp cs :: string and c
  assume "dropWhile is_space inp = c # cs"
  then have "length cs < length inp"
    using length_dropWhile_le [of is_space inp] by simp
  then show "(dropWhile (\<lambda>c. \<not> is_space c) cs, inp) \<in> measure length"
    using length_dropWhile_le [of "\<lambda>c. \<not> is_space c" cs] by simp
qed simp

declare words.simps [simp del]

fun build :: "bool \<Rightarrow> string list \<Rightarrow> tstate \<Rightarrow> tsort_error + tstate" where
  "build reverse [] s = Inr s"
| "build reverse [w] s = Inl OddCount"
| "build reverse (w0 # w1 # ws) s =
     build reverse ws (if reverse then add_arc w1 w0 s else add_arc w0 w1 s)"

section \<open>Sorting\<close>

text \<open>\<open>remove_node\<close>: print the node, give up its arcs, take it out of the list.\<close>

definition remove_node :: "nat \<Rightarrow> tstate \<Rightarrow> tstate" where
  "remove_node n s =
     (let s = s\<lparr>printed := printed s @ [n_name (node s n)]\<rparr>;
          s = fold (\<lambda>np. upd np (\<lambda>m. m\<lparr>n_refcnt := n_refcnt m - 1\<rparr>)) (n_arcs (node s n)) s;
          s = upd n (\<lambda>m. m\<lparr>n_arcs := []\<rparr>) s
      in s\<lparr>graph := remove1 n (graph s)\<rparr>)"

text \<open>One pass of the inner loop; \<open>next\<close> is read before the node is removed.\<close>

fun sweep :: "nat list \<Rightarrow> nat \<Rightarrow> tstate \<Rightarrow> nat \<times> tstate" where
  "sweep [] cnt s = (cnt, s)"
| "sweep (n # ns) cnt s =
     (if n_refcnt (node s n) = 0 then sweep ns (cnt + 1) (remove_node n s) else sweep ns cnt s)"

lemma upd_sel [simp]:
  "graph (upd i f s) = graph s" "db (upd i f s) = db s" "cycle_buf (upd i f s) = cycle_buf s"
  "longest_cycle (upd i f s) = longest_cycle s" "printed (upd i f s) = printed s"
  "cycles (upd i f s) = cycles s" "length (nodes (upd i f s)) = length (nodes s)"
  by (simp_all add: upd_def)

lemma fold_upd_sel [simp]:
  "graph (fold (\<lambda>i. upd i f) is s) = graph s" "db (fold (\<lambda>i. upd i f) is s) = db s"
  "cycle_buf (fold (\<lambda>i. upd i f) is s) = cycle_buf s"
  "longest_cycle (fold (\<lambda>i. upd i f) is s) = longest_cycle s"
  "printed (fold (\<lambda>i. upd i f) is s) = printed s" "cycles (fold (\<lambda>i. upd i f) is s) = cycles s"
  "length (nodes (fold (\<lambda>i. upd i f) is s)) = length (nodes s)"
  by (induction "is" arbitrary: s) simp_all

lemma remove_node_sel [simp]:
  "graph (remove_node n s) = remove1 n (graph s)" "db (remove_node n s) = db s"
  "cycle_buf (remove_node n s) = cycle_buf s" "longest_cycle (remove_node n s) = longest_cycle s"
  "printed (remove_node n s) = printed s @ [n_name (node s n)]" "cycles (remove_node n s) = cycles s"
  "length (nodes (remove_node n s)) = length (nodes s)"
  by (simp_all add: remove_node_def Let_def)

lemma sweep_graph:
  "mset ns \<subseteq># mset (graph s) \<Longrightarrow> sweep ns cnt s = (cnt', s') \<Longrightarrow>
     length (graph s') + cnt' = length (graph s) + cnt"
proof (induction ns arbitrary: cnt s)
  case (Cons n ns)
  have n: "n \<in> set (graph s)"
    using set_mset_mono [OF Cons.prems(1)] by auto
  show ?case
  proof (cases "n_refcnt (node s n) = 0")
    case True
    have "mset ns \<subseteq># mset (graph (remove_node n s))"
      using Cons.prems(1) by (simp add: insert_subset_eq_iff)
    with Cons True n show ?thesis
      using Cons.IH [of "remove_node n s" "cnt + 1"] length_pos_if_in_set [OF n]
      by (simp add: length_remove1)
  next
    case False
    have "mset ns \<subseteq># mset (graph s)"
      using Cons.prems(1) subset_mset.order_trans [of "mset ns" "mset (n # ns)"] by simp
    with Cons False show ?thesis by simp
  qed
qed simp

text \<open>The loop around it: until a pass removes nothing.\<close>

function sweeps :: "tstate \<Rightarrow> tstate" where
  "sweeps s =
     (case sweep (graph s) 0 s of (cnt, s') \<Rightarrow>
        if graph s' \<noteq> [] \<and> cnt \<noteq> 0 then sweeps s' else s')"
  by pat_completeness auto
termination
  by (relation "measure (\<lambda>s. length (graph s))") (auto dest!: sym [of _ "sweep _ _ _"] dest: sweep_graph [rotated])

declare sweeps.simps [simp del]

subsection \<open>The search for a cycle\<close>

definition flagged :: "node \<Rightarrow> bool" where
  "flagged n \<longleftrightarrow> nf_nodest n \<or> nf_mark n \<or> nf_acyclic n"

definition set_buf :: "nat \<Rightarrow> nat \<Rightarrow> tstate \<Rightarrow> tsort_error + tstate" where
  "set_buf depth np s =
     (case cycle_buf s of
        Some b \<Rightarrow>
          if depth < length b then Inr (s\<lparr>cycle_buf := Some (b[depth := np])\<rparr>) else Inl BufOverrun
      | None \<Rightarrow> Inl BufOverrun)"

definition copy_cycle :: "nat \<Rightarrow> tstate \<Rightarrow> tstate" where
  "copy_cycle len s =
     s\<lparr>longest_cycle := take len (the (cycle_buf s)) @ drop len (longest_cycle s)\<rparr>"

text \<open>
  \<open>find_cycle\<close> with its loop over the arcs; \<open>fuel\<close> bounds the depth of the recursion.
\<close>

fun find_cycle ::
    "bool \<Rightarrow> nat \<Rightarrow> nat \<Rightarrow> nat \<Rightarrow> nat \<Rightarrow> nat \<Rightarrow> tstate \<Rightarrow> tsort_error + nat \<times> tstate" and
  arcs_loop ::
    "bool \<Rightarrow> nat \<Rightarrow> nat list \<Rightarrow> nat \<Rightarrow> nat \<Rightarrow> nat \<Rightarrow> tstate \<Rightarrow> tsort_error + nat \<times> tstate"
where
  "find_cycle longest fuel frm to longest_len depth s =
     (if flagged (node s frm) then Inr (0, s)
      else
        rmap (\<lambda>(len, s). (len, upd frm (\<lambda>n. n\<lparr>nf_mark := False\<rparr>) s))
          (arcs_loop longest fuel (n_arcs (node s frm)) to longest_len depth
             (upd frm (\<lambda>n. n\<lparr>nf_mark := True\<rparr>) s)))"
| "arcs_loop longest fuel [] to longest_len depth s = Inr (longest_len, s)"
| "arcs_loop longest fuel (np # nps) to longest_len depth s =
     rbind (set_buf depth np s) (\<lambda>s.
       if np = to then
         if depth + 1 > longest_len
         then arcs_loop longest fuel nps to (depth + 1) depth (copy_cycle (depth + 1) s)
         else arcs_loop longest fuel nps to longest_len depth s
       else if flagged (node s np) then arcs_loop longest fuel nps to longest_len depth s
       else if fuel = 0 then Inl OutOfFuel
       else
         rbind (find_cycle longest (fuel - 1) np to longest_len (depth + 1) s) (\<lambda>(len, s).
           let s = (if len = 0 then upd np (\<lambda>n. n\<lparr>nf_nodest := True\<rparr>) s else s);
               longest_len = max len longest_len
           in if len > 0 \<and> \<not> longest then Inr (longest_len, s)
              else arcs_loop longest fuel nps to longest_len depth s))"

declare find_cycle.simps [simp del] arcs_loop.simps [simp del]

definition clear_cycle :: "tstate \<Rightarrow> tstate" where
  "clear_cycle s = fold (\<lambda>n. upd n (\<lambda>n. n\<lparr>nf_nodest := False\<rparr>)) (graph s) s"

text \<open>\<open>warnx\<close> of the nodes of the cycle.\<close>

definition report :: "bool \<Rightarrow> nat \<Rightarrow> tstate \<Rightarrow> tstate" where
  "report quiet cnt s =
     (if quiet then s
      else s\<lparr>cycles := cycles s @ [map (\<lambda>i. n_name (node s i)) (take cnt (longest_cycle s))]\<rparr>)"

fun search :: "bool \<Rightarrow> bool \<Rightarrow> nat \<Rightarrow> nat list \<Rightarrow> tstate \<Rightarrow> tsort_error + tstate" where
  "search longest quiet fuel [] s = Inl NoCycle"
| "search longest quiet fuel (n # ns) s =
     (if nf_acyclic (node s n) then search longest quiet fuel ns s
      else
        rbind (find_cycle longest fuel n n 0 0 s) (\<lambda>(cnt, s).
          if cnt \<noteq> 0 then Inr (clear_cycle (remove_node n (report quiet cnt s)))
          else search longest quiet fuel ns (clear_cycle (upd n (\<lambda>n. n\<lparr>nf_acyclic := True\<rparr>) s))))"

definition alloc_bufs :: "tstate \<Rightarrow> tstate" where
  "alloc_bufs s =
     (case cycle_buf s of
        Some _ \<Rightarrow> s
      | None \<Rightarrow>
          let cnt = length (graph s) in
          s\<lparr>cycle_buf := Some (replicate cnt 0), longest_cycle := replicate cnt 0\<rparr>)"

text \<open>The search keeps the list of the nodes, so each turn of the outer loop shortens it.\<close>

lemma set_buf_graph: "set_buf depth np s = Inr s' \<Longrightarrow> graph s' = graph s"
  by (auto simp: set_buf_def split: option.splits if_splits)

lemma find_cycle_graph:
  "find_cycle longest fuel frm to longest_len depth s = Inr (len, s') \<Longrightarrow> graph s' = graph s"
  "arcs_loop longest fuel nps to longest_len depth s = Inr (len, s') \<Longrightarrow> graph s' = graph s"
proof (induction longest fuel frm to longest_len depth s and longest fuel nps to longest_len depth s
    arbitrary: len s' and len s' rule: find_cycle_arcs_loop.induct)
  case (1 longest fuel frm to longest_len depth s)
  then show ?case
    by (auto simp: find_cycle.simps [of longest fuel frm] result_simps split: if_splits)
next
  case (2 longest fuel to longest_len depth s)
  then show ?case by (simp add: arcs_loop.simps)
next
  case (3 longest fuel np nps to longest_len depth s)
  from "3.prems" obtain s1 where b: "set_buf depth np s = Inr s1"
    by (auto simp: arcs_loop.simps result_simps)
  note g = set_buf_graph [OF b]
  consider (hit) "np = to" | (skip) "np \<noteq> to" "flagged (node s1 np)"
    | (rec) "np \<noteq> to" "\<not> flagged (node s1 np)" by blast
  then show ?case
  proof cases
    case hit
    with "3.prems" b "3.IH"(1,2) [OF b hit] g show ?thesis
      by (auto simp: arcs_loop.simps copy_cycle_def split: if_splits)
  next
    case skip
    with "3.prems" b "3.IH"(3) [OF b skip] g show ?thesis by (auto simp: arcs_loop.simps)
  next
    case rec
    with "3.prems" b obtain l s2 where
      f: "fuel \<noteq> 0" "find_cycle longest (fuel - 1) np to longest_len (depth + 1) s1 = Inr (l, s2)"
      by (auto simp: arcs_loop.simps result_simps split: if_splits)
    with "3.IH"(4) [OF b rec f(1)] g have "graph s2 = graph s" by simp
    with "3.prems" b rec f "3.IH"(5) [OF b rec f(1) f(2) refl refl refl] show ?thesis
      by (auto simp: arcs_loop.simps Let_def split: if_splits)
  qed
qed

lemma clear_cycle_graph [simp]: "graph (clear_cycle s) = graph s"
  by (simp add: clear_cycle_def)

lemma report_graph [simp]: "graph (report quiet cnt s) = graph s"
  by (simp add: report_def)

lemma search_graph:
  "search longest quiet fuel ns s = Inr s' \<Longrightarrow> set ns \<subseteq> set (graph s) \<Longrightarrow>
     length (graph s') < length (graph s)"
proof (induction ns arbitrary: s)
  case (Cons n ns)
  show ?case
  proof (cases "nf_acyclic (node s n)")
    case True
    with Cons show ?thesis by simp
  next
    case False
    with Cons.prems obtain cnt s1 where f: "find_cycle longest fuel n n 0 0 s = Inr (cnt, s1)"
      by (auto simp: result_simps)
    note g = find_cycle_graph(1) [OF f]
    show ?thesis
    proof (cases "cnt = 0")
      case True
      with Cons.prems False f g Cons.IH [of "clear_cycle (upd n (\<lambda>n. n\<lparr>nf_acyclic := True\<rparr>) s1)"]
      show ?thesis by simp
    next
      case nz: False
      have "n \<in> set (graph s)" using Cons.prems by simp
      with Cons.prems False f g nz length_pos_if_in_set [of n "graph s"] show ?thesis
        by (auto simp: length_remove1)
    qed
  qed
qed simp

lemma sweeps_graph: "length (graph (sweeps s)) \<le> length (graph s)"
proof (induction s rule: sweeps.induct)
  case (1 s)
  obtain cnt s' where w: "sweep (graph s) 0 s = (cnt, s')" by fastforce
  then have "length (graph s') + cnt = length (graph s)" using sweep_graph [of "graph s" s 0 cnt s'] by simp
  with "1.IH" [OF w [symmetric]] w show ?case by (subst sweeps.simps) auto
qed

lemma alloc_bufs_sel [simp]: "graph (alloc_bufs s) = graph s" "nodes (alloc_bufs s) = nodes s"
  by (simp_all add: alloc_bufs_def Let_def split: option.split)

function tsort :: "bool \<Rightarrow> bool \<Rightarrow> tstate \<Rightarrow> tsort_error + tstate" where
  "tsort longest quiet s =
     (if graph s = [] then Inr s
      else
        let s = sweeps s in
        if graph s = [] then Inr s
        else
          rbind (search longest quiet (length (nodes s)) (graph s) (alloc_bufs s))
            (tsort longest quiet))"
  by pat_completeness auto
termination
proof (relation "measure (\<lambda>(longest, quiet, s). length (graph s))")
  fix longest quiet s s1 s2
  assume "s1 = sweeps s"
    and "search longest quiet (length (nodes s1)) (graph s1) (alloc_bufs s1) = Inr s2"
  then have "length (graph s2) < length (graph s1)"
    using search_graph [of longest quiet _ "graph s1" "alloc_bufs s1" s2] by simp
  with \<open>s1 = sweeps s\<close> sweeps_graph [of s]
  show "((longest, quiet, s2), longest, quiet, s) \<in> measure (\<lambda>(longest, quiet, s). length (graph s))"
    by simp
qed simp

declare tsort.simps [simp del]

text \<open>\<open>main\<close> on the input: what is printed, and the cycles warned of.\<close>

definition tsort_main ::
  "bool \<Rightarrow> bool \<Rightarrow> bool \<Rightarrow> string \<Rightarrow> tsort_error + string list \<times> string list list" where
  "tsort_main longest quiet reverse inp =
     rbind (build reverse (words inp) empty_graph)
       (\<lambda>s. rmap (\<lambda>s. (printed s, cycles s)) (tsort longest quiet s))"

end
