(* ===== verification/TsortGraph.thy ===== *)
theory TsortGraph
  imports Tsort
begin

text \<open>
  What \<open>tsort\<close> keeps in its graph: the table of names as a lookup table, the reference counts
  as numbers of arcs, and the graph built from the input as the relation of its pairs.
\<close>

section \<open>The table of names\<close>

text \<open>
  The contract of a table that numbers keys: \<open>get\<close> gives a known key its number and enters an
  unknown one under a number of its own.
\<close>

locale numbering =
  fixes lookup :: "'s \<Rightarrow> 'k \<Rightarrow> nat option" and get :: "'k \<Rightarrow> 's \<Rightarrow> nat \<times> 's" and ok :: "'s \<Rightarrow> bool"
  assumes hit: "ok s \<Longrightarrow> lookup s k = Some n \<Longrightarrow> get k s = (n, s)"
    and fresh: "ok s \<Longrightarrow> lookup s k = None \<Longrightarrow> get k s = (n, s') \<Longrightarrow>
      ok s' \<and> lookup s' = (lookup s)(k \<mapsto> n) \<and> n \<notin> ran (lookup s)"
    and inj: "ok s \<Longrightarrow> lookup s k = Some n \<Longrightarrow> lookup s k' = Some n \<Longrightarrow> k = k'"
begin

lemma get_ok:
  assumes "ok s" and "get k s = (n, s')" shows "ok s' \<and> lookup s' = (lookup s)(k \<mapsto> n)"
proof (cases "lookup s k")
  case (Some m)
  with hit [OF assms(1) Some] assms show ?thesis by (simp add: fun_upd_idem)
next
  case None
  from fresh [OF assms(1) this assms(2)] show ?thesis by simp
qed

lemma get_dom: "ok s \<Longrightarrow> get k s = (n, s') \<Longrightarrow> dom (lookup s') = insert k (dom (lookup s))"
  using get_ok by simp

lemma get_again: "ok s \<Longrightarrow> get k s = (n, s') \<Longrightarrow> get k s' = (n, s')"
  using get_ok [of s k n s'] by (intro hit) simp_all

lemma get_two:
  assumes "ok s" "get k s = (n, s1)" "get k' s1 = (m, s2)"
  shows "n = m \<longleftrightarrow> k = k'"
proof -
  have 1: "ok s1" "lookup s1 k = Some n" using get_ok [OF assms(1,2)] by simp_all
  have 2: "ok s2" "lookup s2 k' = Some m" "lookup s2 = (lookup s1)(k' \<mapsto> m)"
    using get_ok [OF 1(1) assms(3)] by simp_all
  show ?thesis
  proof
    assume "n = m"
    with 1 2 show "k = k'" using inj [OF 2(1), of k n k'] by (cases "k = k'") auto
  next
    assume "k = k'"
    with 1 2 get_again [OF assms(1,2)] assms(3) show "n = m" by simp
  qed
qed

end

text \<open>A bucket holds the nodes whose name has its number, and no name is entered twice.\<close>

definition table_ok :: "tstate \<Rightarrow> bool" where
  "table_ok s \<longleftrightarrow>
     length (db s) = HASH_BUCKET_COUNT \<and>
     (\<forall>b<HASH_BUCKET_COUNT. set (db s ! b) = {i. i < length (nodes s) \<and> bucket (n_name (node s i)) = b}) \<and>
     inj_on (\<lambda>i. n_name (node s i)) {..<length (nodes s)}"

lemma bucket_less [simp]: "bucket key < HASH_BUCKET_COUNT"
proof -
  have "unat (hash_key key AND 1023) \<le> unat (1023 :: 64 word)"
    by (rule word_le_nat_alt [THEN iffD1]) (rule word_and_le1)
  then show ?thesis by (simp add: bucket_def)
qed

lemma hash_find_iff:
  assumes "table_ok s"
  shows "hash_find s key = Some i \<longleftrightarrow> i < length (nodes s) \<and> n_name (node s i) = key"
proof -
  have set: "set (db s ! bucket key) = {i. i < length (nodes s) \<and> bucket (n_name (node s i)) = bucket key}"
    using assms by (simp add: table_ok_def)
  have inj: "inj_on (\<lambda>i. n_name (node s i)) {..<length (nodes s)}" using assms by (simp add: table_ok_def)
  show ?thesis
  proof
    assume "hash_find s key = Some i"
    then have "i \<in> set (db s ! bucket key)" "n_name (node s i) = key"
      by (auto simp: hash_find_def find_Some_iff)
    with set show "i < length (nodes s) \<and> n_name (node s i) = key" by auto
  next
    assume i: "i < length (nodes s) \<and> n_name (node s i) = key"
    with set have "i \<in> set (db s ! bucket key)" by auto
    with i have "hash_find s key \<noteq> None" by (auto simp: hash_find_def find_None_iff)
    then obtain j where j: "hash_find s key = Some j" by auto
    then have "j \<in> set (db s ! bucket key)" "n_name (node s j) = key"
      by (auto simp: hash_find_def find_Some_iff)
    with set i inj have "j = i" by (auto simp: inj_on_def)
    with j show "hash_find s key = Some i" by simp
  qed
qed

lemma hash_find_None:
  "table_ok s \<Longrightarrow> hash_find s key = None \<longleftrightarrow> (\<forall>i<length (nodes s). n_name (node s i) \<noteq> key)"
  using hash_find_iff [of s key] by (metis not_None_eq)

text \<open>The state after \<open>get_node\<close> has made a node.\<close>

definition with_node :: "string \<Rightarrow> tstate \<Rightarrow> tstate" where
  "with_node name s =
     hash_insert name (length (nodes s)) (s\<lparr>nodes := nodes s @ [new_node name], graph := length (nodes s) # graph s\<rparr>)"

lemma get_node_fresh: "hash_find s name = None \<Longrightarrow> get_node name s = (length (nodes s), with_node name s)"
  by (simp add: get_node_def with_node_def Let_def)

lemma with_node_sel [simp]:
  "nodes (with_node name s) = nodes s @ [new_node name]"
  "graph (with_node name s) = length (nodes s) # graph s"
  "db (with_node name s) = (db s)[bucket name := length (nodes s) # db s ! bucket name]"
  by (simp_all add: with_node_def hash_insert_def)

lemma node_with_node [simp]:
  "i < length (nodes s) \<Longrightarrow> node (with_node name s) i = node s i"
  "node (with_node name s) (length (nodes s)) = new_node name"
  by (simp_all add: node_def nth_append)

lemma with_node_table:
  assumes t: "table_ok s" and n: "hash_find s name = None"
  shows "table_ok (with_node name s)"
proof -
  have none: "\<forall>i<length (nodes s). n_name (node s i) \<noteq> name" using n hash_find_None [OF t] by simp
  have new: "n_name (new_node name) = name" by (simp add: new_node_def)
  have "inj_on (\<lambda>i. n_name (node (with_node name s) i)) {..<Suc (length (nodes s))}"
    using t none new
    by (auto simp: table_ok_def inj_on_def less_Suc_eq) blast
  moreover have "set (db (with_node name s) ! b) =
      {i. i < Suc (length (nodes s)) \<and> bucket (n_name (node (with_node name s) i)) = b}"
    if "b < HASH_BUCKET_COUNT" for b
    using t that new
    by (auto simp: table_ok_def nth_list_update less_Suc_eq split: if_splits)
  ultimately show ?thesis using t by (simp add: table_ok_def)
qed

interpretation names: numbering hash_find get_node table_ok
proof
  fix s k n
  assume "table_ok s" "hash_find s k = Some n"
  then show "get_node k s = (n, s)" by (simp add: get_node_def)
next
  fix s k n s'
  assume t: "table_ok s" and none: "hash_find s k = None" and "get_node k s = (n, s')"
  then have s': "n = length (nodes s)" "s' = with_node k s" by (simp_all add: get_node_fresh)
  have t': "table_ok s'" using with_node_table [OF t none] s' by simp
  have "hash_find s' k' = ((hash_find s)(k \<mapsto> n)) k'" for k'
  proof (cases "k' = k")
    case True
    have "hash_find s' k = Some n"
      using hash_find_iff [OF t', of k n] s' by (simp add: new_node_def)
    with True show ?thesis by simp
  next
    case False
    have "hash_find s' k' = Some i \<longleftrightarrow> hash_find s k' = Some i" for i
      using hash_find_iff [OF t', of k' i] hash_find_iff [OF t, of k' i] False s'
      by (auto simp: less_Suc_eq new_node_def)
    with False show ?thesis by (metis fun_upd_apply not_None_eq)
  qed
  moreover have "n \<notin> ran (hash_find s)"
    using hash_find_iff [OF t] s' by (auto simp: ran_def)
  ultimately show "table_ok s' \<and> hash_find s' = (hash_find s)(k \<mapsto> n) \<and> n \<notin> ran (hash_find s)"
    using t' by auto
next
  fix s k n k'
  assume "table_ok s" "hash_find s k = Some n" "hash_find s k' = Some n"
  then show "k = k'" using hash_find_iff by auto
qed

section \<open>The arcs\<close>

definition arcs :: "tstate \<Rightarrow> nat \<Rightarrow> nat list" where
  "arcs s i = n_arcs (node s i)"

definition edges :: "tstate \<Rightarrow> (nat \<times> nat) set" where
  "edges s = {(i, j). i < length (nodes s) \<and> j \<in> set (arcs s i)}"

definition preds :: "tstate \<Rightarrow> nat \<Rightarrow> nat set" where
  "preds s i = {j. j < length (nodes s) \<and> i \<in> set (arcs s j)}"

text \<open>
  The list holds nodes of the store once each, arcs lead to other nodes, a node outside the
  list has none, and a reference count is the number of arcs to the node.
\<close>

definition node_ok :: "tstate \<Rightarrow> nat \<Rightarrow> bool" where
  "node_ok s i \<longleftrightarrow>
     set (arcs s i) \<subseteq> {..<length (nodes s)} - {i} \<and> distinct (arcs s i) \<and>
     (i \<notin> set (graph s) \<longrightarrow> arcs s i = []) \<and> n_refcnt (node s i) = int (card (preds s i))"

definition graph_ok :: "tstate \<Rightarrow> bool" where
  "graph_ok s \<longleftrightarrow>
     distinct (graph s) \<and> set (graph s) \<subseteq> {..<length (nodes s)} \<and>
     (\<forall>i<length (nodes s). node_ok s i)"

lemma graph_okD:
  assumes "graph_ok s"
  shows "distinct (graph s)" "n \<in> set (graph s) \<Longrightarrow> n < length (nodes s)"
    and "i < length (nodes s) \<Longrightarrow> j \<in> set (arcs s i) \<Longrightarrow> j < length (nodes s) \<and> j \<noteq> i"
    and "i < length (nodes s) \<Longrightarrow> distinct (arcs s i)"
    and "i < length (nodes s) \<Longrightarrow> j \<in> set (arcs s i) \<Longrightarrow> i \<in> set (graph s)"
    and "i < length (nodes s) \<Longrightarrow> n_refcnt (node s i) = int (card (preds s i))"
  using assms by (auto simp: graph_ok_def node_ok_def)

lemma finite_preds [simp]: "finite (preds s i)"
  by (simp add: preds_def)

lemma node_upd [simp]:
  "i < length (nodes s) \<Longrightarrow> node (upd i f s) j = (if j = i then f (node s i) else node s j)"
  by (auto simp: upd_def node_def)

lemma node_other [simp]:
  "node (s\<lparr>printed := x\<rparr>) = node s" "node (s\<lparr>graph := g\<rparr>) = node s"
  "node (s\<lparr>cycles := y\<rparr>) = node s" "node (s\<lparr>cycle_buf := b\<rparr>) = node s"
  "node (s\<lparr>longest_cycle := l\<rparr>) = node s"
  by (simp_all add: node_def fun_eq_iff)

lemma arcs_other [simp]:
  "arcs (s\<lparr>printed := x\<rparr>) = arcs s" "arcs (s\<lparr>graph := g\<rparr>) = arcs s"
  "arcs (s\<lparr>cycles := y\<rparr>) = arcs s" "arcs (s\<lparr>cycle_buf := b\<rparr>) = arcs s"
  "arcs (s\<lparr>longest_cycle := l\<rparr>) = arcs s"
  by (simp_all add: arcs_def fun_eq_iff)

lemma node_fold_upd:
  "distinct is \<Longrightarrow> set is \<subseteq> {..<length (nodes s)} \<Longrightarrow>
     node (fold (\<lambda>i. upd i f) is s) j = (if j \<in> set is then f (node s j) else node s j)"
  by (induction "is" arbitrary: s) auto

lemma node_remove_node:
  assumes "graph_ok s" "n \<in> set (graph s)"
  shows "node (remove_node n s) j =
    (if j = n then node s n\<lparr>n_arcs := []\<rparr>
     else if j \<in> set (arcs s n) then node s j\<lparr>n_refcnt := n_refcnt (node s j) - 1\<rparr> else node s j)"
proof -
  have n: "n < length (nodes s)" and d: "distinct (arcs s n)"
    and a: "set (arcs s n) \<subseteq> {..<length (nodes s)}" "n \<notin> set (arcs s n)"
    using graph_okD(2) [OF assms] graph_okD(3,4) [OF assms(1)] by blast+
  show ?thesis
    using n d a
    by (simp add: remove_node_def Let_def node_fold_upd arcs_def [symmetric])
qed

lemma arcs_remove_node:
  "graph_ok s \<Longrightarrow> n \<in> set (graph s) \<Longrightarrow> arcs (remove_node n s) j = (if j = n then [] else arcs s j)"
  by (simp add: arcs_def node_remove_node)

lemma remove_node_flags:
  "graph_ok s \<Longrightarrow> n \<in> set (graph s) \<Longrightarrow> n_name (node (remove_node n s) j) = n_name (node s j)"
  "graph_ok s \<Longrightarrow> n \<in> set (graph s) \<Longrightarrow> nf_mark (node (remove_node n s) j) = nf_mark (node s j)"
  "graph_ok s \<Longrightarrow> n \<in> set (graph s) \<Longrightarrow> nf_acyclic (node (remove_node n s) j) = nf_acyclic (node s j)"
  "graph_ok s \<Longrightarrow> n \<in> set (graph s) \<Longrightarrow> nf_nodest (node (remove_node n s) j) = nf_nodest (node s j)"
  by (simp_all add: node_remove_node)

lemma preds_remove_node:
  "graph_ok s \<Longrightarrow> n \<in> set (graph s) \<Longrightarrow> preds (remove_node n s) i = preds s i - {n}"
  by (auto simp: preds_def arcs_remove_node)

lemma graph_ok_remove_node:
  assumes w: "graph_ok s" and n: "n \<in> set (graph s)" shows "graph_ok (remove_node n s)"
proof -
  have n': "n < length (nodes s)" using graph_okD(2) [OF w n] .
  have count: "n_refcnt (node (remove_node n s) i) = int (card (preds (remove_node n s) i))"
    if i: "i < length (nodes s)" for i
  proof (cases "n \<in> preds s i")
    case True
    then have "i \<in> set (arcs s n)" "i \<noteq> n" using graph_okD(3) [OF w n'] by (auto simp: preds_def)
    moreover have "0 < card (preds s i)" using True by (auto simp: card_gt_0_iff)
    ultimately show ?thesis
      using graph_okD(6) [OF w i] True w n
      by (simp add: node_remove_node preds_remove_node card_Diff_singleton of_nat_diff)
  next
    case False
    then have "i \<notin> set (arcs s n)" using n' by (auto simp: preds_def)
    with graph_okD(6) [OF w i] False w n show ?thesis
      by (auto simp: node_remove_node preds_remove_node)
  qed
  have "node_ok (remove_node n s) i" if i: "i < length (nodes s)" for i
  proof -
    have "node_ok s i" using w i by (simp add: graph_ok_def)
    with count [OF i] w n show ?thesis by (auto simp: node_ok_def arcs_remove_node)
  qed
  moreover have "set (remove1 n (graph s)) \<subseteq> {..<length (nodes s)}"
    using w set_remove1_subset [of n "graph s"] by (auto simp: graph_ok_def)
  ultimately show ?thesis using w by (simp add: graph_ok_def)
qed

section \<open>Building the graph\<close>

definition name_of :: "tstate \<Rightarrow> nat \<Rightarrow> string" where
  "name_of s i = n_name (node s i)"

definition named_edges :: "tstate \<Rightarrow> (string \<times> string) set" where
  "named_edges s = (\<lambda>(i, j). (name_of s i, name_of s j)) ` edges s"

definition names_in :: "tstate \<Rightarrow> string set" where
  "names_in s = name_of s ` {..<length (nodes s)}"

text \<open>While the graph is built every node is in the list and no node has a flag.\<close>

definition built :: "tstate \<Rightarrow> bool" where
  "built s \<longleftrightarrow>
     table_ok s \<and> graph_ok s \<and> set (graph s) = {..<length (nodes s)} \<and>
     (\<forall>i<length (nodes s). \<not> flagged (node s i)) \<and> printed s = [] \<and> cycles s = [] \<and> cycle_buf s = None"

lemma built_empty: "built empty_graph"
  by (simp add: built_def table_ok_def graph_ok_def empty_graph_def)

lemma names_in_dom: "table_ok s \<Longrightarrow> names_in s = dom (hash_find s)"
  by (auto simp: names_in_def name_of_def hash_find_iff dom_def image_iff)

lemma built_get_node:
  assumes b: "built s" and g: "get_node k s = (n, s')"
  shows "built s' \<and> n < length (nodes s') \<and> name_of s' n = k \<and> names_in s' = insert k (names_in s) \<and>
    named_edges s' = named_edges s \<and> edges s' = edges s \<and>
    (\<forall>i<length (nodes s). node s' i = node s i) \<and> length (nodes s) \<le> length (nodes s')"
proof -
  have t: "table_ok s" using b by (simp add: built_def)
  have t': "table_ok s'" and dom: "names_in s' = insert k (names_in s)"
    using names.get_ok [OF t g] names.get_dom [OF t g] names_in_dom t by auto
  have "hash_find s' k = Some n" using names.get_ok [OF t g] by simp
  then have n: "n < length (nodes s') \<and> name_of s' n = k"
    using hash_find_iff [OF t'] by (simp add: name_of_def)
  show ?thesis
  proof (cases "hash_find s k")
    case (Some m)
    with names.hit [OF t Some] g b n dom show ?thesis by simp
  next
    case None
    with g have s': "s' = with_node k s" by (simp add: get_node_fresh)
    let ?N = "length (nodes s)"
    have arcs: "arcs s' i = arcs s i" if "i < ?N" for i using that s' by (simp add: arcs_def)
    have new: "arcs s' ?N = []" using s' by (simp add: arcs_def new_node_def)
    have w: "graph_ok s" "set (graph s) = {..<?N}" using b by (simp_all add: built_def)
    have preds: "preds s' i = preds s i" if "i < ?N" for i
      using that s' arcs new by (auto simp: preds_def less_Suc_eq)
    have preds_new: "preds s' ?N = {}"
      using arcs new graph_okD(3) [OF w(1)] s' by (fastforce simp: preds_def less_Suc_eq)
    have edges: "edges s' = edges s"
      using arcs new s' by (auto simp: edges_def less_Suc_eq)
    have "node_ok s' i" if "i < ?N" for i
    proof -
      have "node_ok s i" using w that by (simp add: graph_ok_def)
      with that arcs [OF that] preds [OF that] s' w(2) show ?thesis
        by (auto simp: node_ok_def)
    qed
    moreover have "node_ok s' ?N"
      using new preds_new s' by (simp add: node_ok_def new_node_def)
    moreover have "distinct (graph s')" "set (graph s') \<subseteq> {..<length (nodes s')}"
      using w graph_okD(1) [OF w(1)] by (simp_all add: s' lessThan_Suc)
    ultimately have "graph_ok s'"
      by (simp add: graph_ok_def s' less_Suc_eq)
    moreover have "set (graph s') = {..<length (nodes s')}" by (simp add: w(2) s' lessThan_Suc)
    moreover have "\<forall>i<length (nodes s'). \<not> flagged (node s' i)"
      using b s' by (auto simp: built_def less_Suc_eq flagged_def new_node_def)
    moreover have "printed s' = []" "cycles s' = []" "cycle_buf s' = None"
      using b s' by (simp_all add: built_def with_node_def hash_insert_def)
    moreover have "named_edges s' = named_edges s"
      unfolding named_edges_def edges
      using graph_okD(3) [OF w(1)] s' by (intro image_cong) (auto simp: edges_def name_of_def)
    ultimately show ?thesis using t' n dom edges s' by (simp add: built_def)
  qed
qed

lemma table_ok_upd:
  assumes "\<And>m. n_name (f m) = n_name m" and "i < length (nodes s)" and "table_ok s"
  shows "table_ok (upd i f s)"
proof -
  have "n_name (node (upd i f s) j) = n_name (node s j)" for j using assms by simp
  with assms(3) show ?thesis by (simp add: table_ok_def del: node_upd)
qed

text \<open>Adding an arc: to the arcs of one node and the count of another.\<close>

definition link :: "nat \<Rightarrow> nat \<Rightarrow> tstate \<Rightarrow> tstate" where
  "link n1 n2 s =
     upd n2 (\<lambda>n. n\<lparr>n_refcnt := n_refcnt n + 1\<rparr>) (upd n1 (\<lambda>n. n\<lparr>n_arcs := n_arcs n @ [n2]\<rparr>) s)"

lemma built_link:
  assumes b: "built s" and n: "n1 < length (nodes s)" "n2 < length (nodes s)" "n1 \<noteq> n2"
    and new: "n2 \<notin> set (arcs s n1)"
  shows "built (link n1 n2 s) \<and> edges (link n1 n2 s) = insert (n1, n2) (edges s) \<and>
    name_of (link n1 n2 s) = name_of s \<and> length (nodes (link n1 n2 s)) = length (nodes s)"
proof -
  let ?s = "link n1 n2 s"
  have node: "node ?s i = (if i = n1 then node s n1\<lparr>n_arcs := arcs s n1 @ [n2]\<rparr>
      else if i = n2 then node s n2\<lparr>n_refcnt := n_refcnt (node s n2) + 1\<rparr> else node s i)" for i
    using n by (simp add: link_def arcs_def)
  have arcs: "arcs ?s i = (if i = n1 then arcs s n1 @ [n2] else arcs s i)" for i
    using n by (simp add: arcs_def node)
  have len: "length (nodes ?s) = length (nodes s)" and graph: "graph ?s = graph s"
    by (simp_all add: link_def)
  have w: "graph_ok s" "set (graph s) = {..<length (nodes s)}" using b by (simp_all add: built_def)
  have preds: "preds ?s i = (if i = n2 then insert n1 (preds s n2) else preds s i)" for i
    using n by (auto simp: preds_def arcs len)
  have "n1 \<notin> preds s n2" using new by (simp add: preds_def)
  then have card: "card (preds ?s i) = (if i = n2 then card (preds s n2) + 1 else card (preds s i))" for i
    by (simp add: preds)
  have ok: "node_ok ?s i" if "i < length (nodes s)" for i
  proof -
    have "node_ok s i" using w that by (simp add: graph_ok_def)
    with n new w that show ?thesis by (auto simp: node_ok_def arcs node card len graph)
  qed
  have "edges ?s = insert (n1, n2) (edges s)" using n by (auto simp: edges_def arcs len split: if_splits)
  moreover have "graph_ok ?s" using w ok by (simp add: graph_ok_def len graph)
  moreover have "table_ok ?s" using b n by (auto simp: link_def built_def intro!: table_ok_upd)
  moreover have "name_of ?s = name_of s" by (simp add: name_of_def fun_eq_iff node)
  moreover have "\<forall>i<length (nodes s). \<not> flagged (node ?s i)"
    using b by (simp add: built_def flagged_def node)
  moreover have "printed ?s = []" "cycles ?s = []" "cycle_buf ?s = None"
    using b by (simp_all add: built_def link_def)
  ultimately show ?thesis using w by (simp add: built_def len graph)
qed

lemma built_add_arc:
  assumes b: "built s"
  shows "built (add_arc a c s) \<and> names_in (add_arc a c s) = {a, c} \<union> names_in s \<and>
    named_edges (add_arc a c s) = named_edges s \<union> (if a = c then {} else {(a, c)})"
proof -
  obtain n1 s1 where g1: "get_node a s = (n1, s1)" by fastforce
  note b1 = built_get_node [OF b g1]
  show ?thesis
  proof (cases "a = c")
    case True
    with g1 b1 show ?thesis by (simp add: add_arc_def)
  next
    case False
    obtain n2 s2 where g2: "get_node c s1 = (n2, s2)" by fastforce
    have b2: "built s2 \<and> n2 < length (nodes s2) \<and> name_of s2 n2 = c \<and>
        names_in s2 = insert c (names_in s1) \<and> named_edges s2 = named_edges s1 \<and>
        (\<forall>i<length (nodes s1). node s2 i = node s1 i) \<and> length (nodes s1) \<le> length (nodes s2)"
      using built_get_node [OF _ g2] b1 by blast
    have n1: "n1 < length (nodes s2)" "name_of s2 n1 = a" using b1 b2 by (auto simp: name_of_def)
    have ne: "n1 \<noteq> n2" using n1 b2 False by auto
    show ?thesis
    proof (cases "n2 \<in> set (arcs s2 n1)")
      case True
      then have "(n1, n2) \<in> edges s2" using n1 by (simp add: edges_def)
      then have "(name_of s2 n1, name_of s2 n2) \<in> named_edges s2"
        unfolding named_edges_def by (rule image_eqI [rotated]) simp
      then have "(a, c) \<in> named_edges s" using n1 b2 b1 by simp
      moreover have "add_arc a c s = s2"
        using g1 g2 False True by (simp add: add_arc_def arcs_def)
      ultimately show ?thesis using b1 b2 False by (simp add: insert_commute insert_absorb)
    next
      case new: False
      note l = built_link [OF _ n1(1) _ ne new]
      have "named_edges (link n1 n2 s2) = insert (a, c) (named_edges s2)"
        using l b2 n1 by (simp add: named_edges_def)
      moreover have "names_in (link n1 n2 s2) = names_in s2"
        using l b2 by (simp add: names_in_def)
      moreover have "add_arc a c s = link n1 n2 s2"
        using g1 g2 False new by (simp add: add_arc_def arcs_def link_def)
      moreover have "built (link n1 n2 s2)" using l b2 by blast
      ultimately show ?thesis using b1 b2 False by (simp add: insert_commute)
    qed
  qed
qed

text \<open>The pairs of a list of words, and the graph they make.\<close>

fun pairs :: "string list \<Rightarrow> (string \<times> string) set" where
  "pairs (w0 # w1 # ws) = insert (w0, w1) (pairs ws)"
| "pairs ws = {}"

definition oriented :: "bool \<Rightarrow> (string \<times> string) set \<Rightarrow> (string \<times> string) set" where
  "oriented reverse ps = (if reverse then ps\<inverse> else ps)"

lemma build_built:
  "built s \<Longrightarrow> even (length ws) \<Longrightarrow>
     \<exists>s'. build reverse ws s = Inr s' \<and> built s' \<and> names_in s' = set ws \<union> names_in s \<and>
       named_edges s' = named_edges s \<union> (oriented reverse (pairs ws) - Id)"
proof (induction reverse ws s rule: build.induct)
  case (3 reverse w0 w1 ws s)
  let ?s = "if reverse then add_arc w1 w0 s else add_arc w0 w1 s"
  have "built ?s \<and> names_in ?s = {w0, w1} \<union> names_in s \<and>
      named_edges ?s = named_edges s \<union> (oriented reverse {(w0, w1)} - Id)"
    using built_add_arc [OF "3.prems"(1)] by (auto simp: oriented_def)
  with "3.IH" "3.prems"(2) show ?case by (auto simp: oriented_def)
qed (auto simp: oriented_def)

lemma build_odd: "odd (length ws) \<Longrightarrow> build reverse ws s = Inl OddCount"
  by (induction reverse ws s rule: build.induct) auto

end
