(* ===== verification/TsortSearch.thy ===== *)
theory TsortSearch
  imports TsortGraph
begin

text \<open>
  The search for a cycle: \<open>find_cycle\<close> returns within its fuel and its buffers, what it returns
  is the length of a cycle through the node it started at, and 0 says that there is none.
\<close>

section \<open>Walks\<close>

primrec walk :: "tstate \<Rightarrow> nat \<Rightarrow> nat list \<Rightarrow> bool" where
  "walk s x [] = True"
| "walk s x (y # p) = ((x, y) \<in> edges s \<and> walk s y p)"

lemma walk_snoc: "walk s x (p @ [y]) \<longleftrightarrow> walk s x p \<and> (last (x # p), y) \<in> edges s"
  by (induction p arbitrary: x) auto

lemma walk_trancl: "walk s x p \<Longrightarrow> p \<noteq> [] \<Longrightarrow> (x, last p) \<in> (edges s)\<^sup>+"
proof (induction p arbitrary: x)
  case (Cons y p)
  then show ?case by (cases "p = []") (auto intro: trancl_into_trancl2)
qed simp

text \<open>The cycle recorded, when there is one: a walk from \<open>dest\<close> back to it.\<close>

definition cycle_ok :: "tstate \<Rightarrow> nat \<Rightarrow> nat \<Rightarrow> bool" where
  "cycle_ok s dest len \<longleftrightarrow>
     len = 0 \<or>
     len \<le> length (longest_cycle s) \<and> walk s dest (take len (longest_cycle s)) \<and>
     last (dest # take len (longest_cycle s)) = dest"

section \<open>What the search changes\<close>

text \<open>Only \<open>NF_NODEST\<close> flags, which are set, and the buffers, the first \<open>d\<close> entries kept.\<close>

definition only_nodest :: "node \<Rightarrow> node \<Rightarrow> bool" where
  "only_nodest m m' \<longleftrightarrow>
     m'\<lparr>nf_nodest := True\<rparr> = m\<lparr>nf_nodest := True\<rparr> \<and> (nf_nodest m \<longrightarrow> nf_nodest m')"

definition same_lists :: "tstate \<Rightarrow> tstate \<Rightarrow> bool" where
  "same_lists s s' \<longleftrightarrow>
     graph s' = graph s \<and> printed s' = printed s \<and> cycles s' = cycles s \<and> db s' = db s \<and>
     length (nodes s') = length (nodes s) \<and> length (longest_cycle s') = length (longest_cycle s)"

definition same_buf :: "nat \<Rightarrow> nat list option \<Rightarrow> nat list option \<Rightarrow> bool" where
  "same_buf d x x' \<longleftrightarrow>
     x \<noteq> None \<and> x' \<noteq> None \<and> length (the x') = length (the x) \<and> take d (the x') = take d (the x)"

definition explored :: "nat \<Rightarrow> tstate \<Rightarrow> tstate \<Rightarrow> bool" where
  "explored d s s' \<longleftrightarrow>
     same_lists s s' \<and> (\<forall>i<length (nodes s). only_nodest (node s i) (node s' i)) \<and>
     same_buf d (cycle_buf s) (cycle_buf s')"

lemma only_nodestD:
  assumes "only_nodest m m'"
  shows "n_arcs m' = n_arcs m" "nf_mark m' = nf_mark m" "nf_acyclic m' = nf_acyclic m"
    "n_refcnt m' = n_refcnt m" "n_name m' = n_name m" "nf_nodest m \<Longrightarrow> nf_nodest m'"
proof -
  have e: "m'\<lparr>nf_nodest := True\<rparr> = m\<lparr>nf_nodest := True\<rparr>" and i: "nf_nodest m \<longrightarrow> nf_nodest m'"
    using assms by (simp_all add: only_nodest_def)
  show "n_arcs m' = n_arcs m" using arg_cong [OF e, of n_arcs] by simp
  show "nf_mark m' = nf_mark m" using arg_cong [OF e, of nf_mark] by simp
  show "nf_acyclic m' = nf_acyclic m" using arg_cong [OF e, of nf_acyclic] by simp
  show "n_refcnt m' = n_refcnt m" using arg_cong [OF e, of n_refcnt] by simp
  show "n_name m' = n_name m" using arg_cong [OF e, of n_name] by simp
  show "nf_nodest m \<Longrightarrow> nf_nodest m'" using i by simp
qed

lemma only_nodest_simps [simp]: "only_nodest m m" "only_nodest m (m\<lparr>nf_nodest := True\<rparr>)"
  by (simp_all add: only_nodest_def)

lemma only_nodest_trans: "only_nodest m m' \<Longrightarrow> only_nodest m' m'' \<Longrightarrow> only_nodest m m''"
  by (simp add: only_nodest_def)

lemma only_nodest_mark:
  "only_nodest (m\<lparr>nf_mark := True\<rparr>) m' \<Longrightarrow> \<not> nf_mark m \<Longrightarrow> only_nodest m (m'\<lparr>nf_mark := False\<rparr>)"
  by (cases m; cases m') (simp add: only_nodest_def)

lemma exploredD:
  assumes "explored d s s'"
  shows "graph s' = graph s" "length (nodes s') = length (nodes s)"
    and "i < length (nodes s) \<Longrightarrow> arcs s' i = arcs s i"
    and "i < length (nodes s) \<Longrightarrow> nf_mark (node s' i) = nf_mark (node s i)"
    and "i < length (nodes s) \<Longrightarrow> nf_acyclic (node s' i) = nf_acyclic (node s i)"
    and "i < length (nodes s) \<Longrightarrow> nf_nodest (node s i) \<Longrightarrow> nf_nodest (node s' i)"
    and "i < length (nodes s) \<Longrightarrow> n_refcnt (node s' i) = n_refcnt (node s i)"
    and "i < length (nodes s) \<Longrightarrow> n_name (node s' i) = n_name (node s i)"
proof -
  show "graph s' = graph s" "length (nodes s') = length (nodes s)"
    using assms by (simp_all add: explored_def same_lists_def)
  assume "i < length (nodes s)"
  then have o: "only_nodest (node s i) (node s' i)" using assms by (simp add: explored_def)
  show "arcs s' i = arcs s i" "nf_mark (node s' i) = nf_mark (node s i)"
    "nf_acyclic (node s' i) = nf_acyclic (node s i)" "n_refcnt (node s' i) = n_refcnt (node s i)"
    "n_name (node s' i) = n_name (node s i)" "nf_nodest (node s i) \<Longrightarrow> nf_nodest (node s' i)"
    using only_nodestD [OF o] by (simp_all add: arcs_def)
qed

lemma explored_trans:
  assumes "explored d s s'" and "explored d s' s''" shows "explored d s s''"
proof -
  have "only_nodest (node s i) (node s'' i)" if "i < length (nodes s)" for i
    using assms that only_nodest_trans [of "node s i" "node s' i" "node s'' i"]
    by (simp add: explored_def same_lists_def)
  with assms show ?thesis by (simp add: explored_def same_lists_def same_buf_def)
qed

lemma explored_refl: "cycle_buf s = Some b \<Longrightarrow> explored d s s"
  by (simp add: explored_def same_lists_def same_buf_def)

lemma same_buf_less: "same_buf d x x' \<Longrightarrow> e \<le> d \<Longrightarrow> same_buf e x x'"
  unfolding same_buf_def by (metis min.absorb1 take_take)

lemma explored_less: "explored d s s' \<Longrightarrow> e \<le> d \<Longrightarrow> explored e s s'"
  using same_buf_less [of d "cycle_buf s" "cycle_buf s'" e] by (simp add: explored_def)

lemma explored_arcs: "explored d s s' \<Longrightarrow> i < length (nodes s) \<Longrightarrow> arcs s' i = arcs s i"
  by (rule exploredD(3))

lemma explored_edges: "explored d s s' \<Longrightarrow> edges s' = edges s"
  using exploredD(2,3) [of d s s'] by (auto simp: edges_def)

lemma walk_cong: "edges s' = edges s \<Longrightarrow> walk s' x p = walk s x p"
  by (induction p arbitrary: x) auto

lemma explored_preds: "explored d s s' \<Longrightarrow> preds s' i = preds s i"
  using exploredD(2,3) [of d s s'] by (auto simp: preds_def)

lemma explored_graph_ok: "explored d s s' \<Longrightarrow> graph_ok s \<Longrightarrow> graph_ok s'"
  using exploredD(1,2,3,7) [of d s s'] explored_preds [of d s s']
  by (simp add: graph_ok_def node_ok_def)

lemma graph_ok_upd:
  assumes "\<And>m. n_arcs (f m) = n_arcs m" "\<And>m. n_refcnt (f m) = n_refcnt m" and "i < length (nodes s)"
  shows "graph_ok (upd i f s) = graph_ok s" "arcs (upd i f s) = arcs s" "edges (upd i f s) = edges s"
proof -
  have n: "n_arcs (node (upd i f s) j) = n_arcs (node s j)"
    "n_refcnt (node (upd i f s) j) = n_refcnt (node s j)" for j
    using assms by simp_all
  show a: "arcs (upd i f s) = arcs s" by (simp add: arcs_def fun_eq_iff n del: node_upd)
  have "preds (upd i f s) j = preds s j" for j by (simp add: preds_def a)
  then show "graph_ok (upd i f s) = graph_ok s"
    by (simp add: graph_ok_def node_ok_def a n del: node_upd)
  show "edges (upd i f s) = edges s" by (simp add: edges_def a)
qed

text \<open>The steps of the search as explorations.\<close>

lemma explored_nodest:
  "cycle_buf s = Some b \<Longrightarrow> i < length (nodes s) \<Longrightarrow> explored d s (upd i (\<lambda>n. n\<lparr>nf_nodest := True\<rparr>) s)"
  by (simp add: explored_def same_lists_def same_buf_def)

lemma explored_set_buf: "set_buf d np s = Inr s' \<Longrightarrow> explored d s s'"
  by (auto simp: set_buf_def explored_def same_lists_def same_buf_def split: option.splits if_splits)

lemma explored_copy:
  "cycle_buf s = Some b \<Longrightarrow> n \<le> length b \<Longrightarrow> length (longest_cycle s) = length b \<Longrightarrow>
     explored d s (copy_cycle n s)"
  by (simp add: copy_cycle_def explored_def same_lists_def same_buf_def)

lemma explored_unmark:
  assumes "explored d (upd i (\<lambda>n. n\<lparr>nf_mark := True\<rparr>) s) s'" "i < length (nodes s)" "\<not> nf_mark (node s i)"
  shows "explored d s (upd i (\<lambda>n. n\<lparr>nf_mark := False\<rparr>) s')"
proof -
  have "only_nodest (node s j) (node (upd i (\<lambda>n. n\<lparr>nf_mark := False\<rparr>) s') j)"
    if j: "j < length (nodes s)" for j
  proof -
    have "only_nodest (if j = i then node s i\<lparr>nf_mark := True\<rparr> else node s j) (node s' j)"
      "length (nodes s') = length (nodes s)"
      using assms j by (simp_all add: explored_def same_lists_def)
    with assms(2,3) show ?thesis by (auto simp: only_nodest_mark)
  qed
  with assms(1) show ?thesis by (simp add: explored_def same_lists_def del: node_upd)
qed

section \<open>What the search needs\<close>

definition ready :: "tstate \<Rightarrow> nat \<Rightarrow> nat \<Rightarrow> nat \<Rightarrow> nat \<Rightarrow> bool" where
  "ready s dest depth frm len \<longleftrightarrow>
     graph_ok s \<and> frm < length (nodes s) \<and> cycle_ok s dest len \<and>
     (\<exists>b. cycle_buf s = Some b \<and> length (graph s) \<le> length b \<and> depth \<le> length b \<and>
       length (longest_cycle s) = length b \<and> walk s dest (take depth b) \<and>
       last (dest # take depth b) = frm)"

lemma ready_explored:
  assumes r: "ready s dest depth frm len" and e: "explored d s s'" and "depth \<le> d"
    and c: "cycle_ok s' dest len'"
  shows "ready s' dest depth frm len'"
proof -
  obtain b where b: "cycle_buf s = Some b" "length (graph s) \<le> length b" "depth \<le> length b"
    "length (longest_cycle s) = length b" "walk s dest (take depth b)" "last (dest # take depth b) = frm"
    using r by (auto simp: ready_def)
  obtain b' where b': "cycle_buf s' = Some b'" "length b' = length b" "take depth b' = take depth b"
    using explored_less [OF e \<open>depth \<le> d\<close>] b(1) by (auto simp: explored_def same_buf_def)
  have "length (longest_cycle s') = length b" using e b(4) by (simp add: explored_def same_lists_def)
  with b b' r c show ?thesis
    using explored_graph_ok [OF e] exploredD(1,2) [OF e] walk_cong [OF explored_edges [OF e]]
    by (simp add: ready_def del: last.simps)
qed

lemma cycle_ok_cong:
  assumes "longest_cycle s' = longest_cycle s" "edges s' = edges s"
  shows "cycle_ok s' dest len = cycle_ok s dest len"
  by (simp add: cycle_ok_def assms(1) walk_cong [OF assms(2)])

text \<open>Nodes that were given up, and why: no arc to \<open>dest\<close>, and none to a node still open.\<close>

definition dead_end :: "nat set \<Rightarrow> nat \<Rightarrow> tstate \<Rightarrow> nat \<Rightarrow> bool" where
  "dead_end M dest s j \<longleftrightarrow> j \<noteq> dest \<and> (j \<in> M \<or> nf_nodest (node s j) \<or> nf_acyclic (node s j))"

definition closed_from :: "nat set \<Rightarrow> nat \<Rightarrow> tstate \<Rightarrow> tstate \<Rightarrow> bool" where
  "closed_from M dest s s' \<longleftrightarrow>
     (\<forall>i<length (nodes s). nf_nodest (node s' i) \<and> \<not> nf_nodest (node s i) \<longrightarrow>
        (\<forall>j\<in>set (arcs s i). dead_end M dest s' j))"

definition marked :: "tstate \<Rightarrow> nat set" where
  "marked s = {i. i < length (nodes s) \<and> nf_mark (node s i)}"

lemma finite_marked [simp]: "finite (marked s)"
  by (simp add: marked_def)

lemma explored_marked: "explored d s s' \<Longrightarrow> marked s' = marked s"
  using exploredD(2,4) [of d s s'] by (auto simp: marked_def)

lemma dead_end_explored:
  "dead_end M dest s j \<Longrightarrow> explored d s s' \<Longrightarrow> j < length (nodes s) \<Longrightarrow> dead_end M dest s' j"
  using exploredD(5,6) [of d s s' j] by (auto simp: dead_end_def)

lemma closed_trans:
  assumes "closed_from M dest s s'" "closed_from M dest s' s''" "explored d s s'" "explored d' s' s''"
    "graph_ok s"
  shows "closed_from M dest s s''"
  unfolding closed_from_def
proof (intro allI impI ballI)
  fix i j
  assume i: "i < length (nodes s)" "nf_nodest (node s'' i) \<and> \<not> nf_nodest (node s i)" and j: "j \<in> set (arcs s i)"
  note jl = graph_okD(3) [OF assms(5) i(1) j]
  show "dead_end M dest s'' j"
  proof (cases "nf_nodest (node s' i)")
    case True
    with assms(1) i j have "dead_end M dest s' j" by (simp add: closed_from_def)
    then show ?thesis using dead_end_explored [OF _ assms(4)] exploredD(2) [OF assms(3)] jl by simp
  next
    case False
    then show ?thesis
      using assms(2) i j exploredD(2) [OF assms(3)] exploredD(3) [OF assms(3) i(1)]
      by (simp add: closed_from_def)
  qed
qed

lemma closed_refl: "(\<And>i. nf_nodest (node s' i) = nf_nodest (node s i)) \<Longrightarrow> closed_from M dest s s'"
  by (simp add: closed_from_def)

section \<open>The steps of the loop\<close>

lemma ready_buf:
  assumes r: "ready s dest depth frm len" and np: "np \<in> set (arcs s frm)" and d: "depth < length (graph s)"
  obtains s1 where "set_buf depth np s = Inr s1" "explored depth s s1" "node s1 = node s"
    "ready s1 dest (depth + 1) np len" "ready s1 dest depth frm len" "nodes s1 = nodes s"
proof -
  obtain b where b: "cycle_buf s = Some b" "length (graph s) \<le> length b"
    "length (longest_cycle s) = length b" "walk s dest (take depth b)" "last (dest # take depth b) = frm"
    using r by (auto simp: ready_def)
  have g: "graph_ok s" "frm < length (nodes s)" and c: "cycle_ok s dest len"
    using r by (simp_all add: ready_def)
  have dl: "depth < length b" using b(2) d by simp
  let ?s = "s\<lparr>cycle_buf := Some (b[depth := np])\<rparr>"
  have s: "set_buf depth np s = Inr ?s" using b dl by (simp add: set_buf_def)
  note e = explored_set_buf [OF s]
  have c': "cycle_ok ?s dest len"
    using c cycle_ok_cong [of ?s s, OF _ explored_edges [OF e]] by simp
  have np': "(frm, np) \<in> edges s" "np < length (nodes s)"
    using g np graph_okD(3) [OF g np] by (auto simp: edges_def)
  have t: "take (depth + 1) (b[depth := np]) = take depth b @ [np]"
    using dl by (simp add: take_Suc_conv_app_nth)
  have "walk s dest (take depth b @ [np])" using b(4,5) np'(1) by (simp add: walk_snoc del: last.simps)
  then have "ready ?s dest (depth + 1) np len"
    using b dl g np' t c' explored_graph_ok [OF e g(1)] walk_cong [OF explored_edges [OF e]]
    by (simp add: ready_def del: last.simps) simp
  moreover have "ready ?s dest depth frm len" using ready_explored [OF r e _ c'] by simp
  ultimately show ?thesis using that [OF s e] by simp
qed

lemma ready_copy:
  assumes r: "ready s dest (depth + 1) dest len"
  shows "explored (depth + 1) s (copy_cycle (depth + 1) s)"
    "cycle_ok (copy_cycle (depth + 1) s) dest (depth + 1)"
proof -
  obtain b where b: "cycle_buf s = Some b" "depth + 1 \<le> length b"
    "length (longest_cycle s) = length b" "walk s dest (take (depth + 1) b)"
    "last (dest # take (depth + 1) b) = dest"
    using r by (auto simp: ready_def)
  show e: "explored (depth + 1) s (copy_cycle (depth + 1) s)" by (rule explored_copy) (use b in simp_all)
  have "take (depth + 1) (longest_cycle (copy_cycle (depth + 1) s)) = take (depth + 1) b"
    "length (longest_cycle (copy_cycle (depth + 1) s)) = length b"
    using b by (simp_all add: copy_cycle_def)
  then show "cycle_ok (copy_cycle (depth + 1) s) dest (depth + 1)"
    using b walk_cong [OF explored_edges [OF e]] by (simp add: cycle_ok_def)
qed

definition search_post ::
  "nat \<Rightarrow> nat set \<Rightarrow> nat \<Rightarrow> nat \<Rightarrow> nat list \<Rightarrow> tstate \<Rightarrow> tsort_error + nat \<times> tstate \<Rightarrow> bool" where
  "search_post d M dest len nps s res \<longleftrightarrow>
     (\<exists>len' s'. res = Inr (len', s') \<and> explored d s s' \<and> len \<le> len' \<and> cycle_ok s' dest len' \<and>
        (len' = 0 \<longrightarrow> closed_from M dest s s' \<and> (\<forall>j\<in>set nps. dead_end M dest s' j)))"

lemma post_step:
  assumes e: "explored d s s1" and g: "graph_ok s" and np: "np < length (nodes s)" and "len \<le> len1"
    and c: "len1 = 0 \<Longrightarrow> closed_from M dest s s1 \<and> dead_end M dest s1 np"
    and p: "search_post d M dest len1 nps s1 res"
  shows "search_post d M dest len (np # nps) s res"
proof -
  obtain len' s' where r: "res = Inr (len', s')" "explored d s1 s'" "len1 \<le> len'" "cycle_ok s' dest len'"
    "len' = 0 \<longrightarrow> closed_from M dest s1 s' \<and> (\<forall>j\<in>set nps. dead_end M dest s' j)"
    using p by (auto simp: search_post_def)
  have "closed_from M dest s s' \<and> (\<forall>j\<in>set (np # nps). dead_end M dest s' j)" if "len' = 0"
  proof -
    have l: "len1 = 0" using r(3) that by simp
    have "closed_from M dest s s'" using closed_trans [OF _ _ e r(2) g] c [OF l] r(5) that by blast
    moreover have "dead_end M dest s' np"
      using dead_end_explored [OF _ r(2)] c [OF l] np exploredD(2) [OF e] by simp
    ultimately show ?thesis using r(5) that by simp
  qed
  then show ?thesis
    using r explored_trans [OF e r(2)] \<open>len \<le> len1\<close> by (simp add: search_post_def)
qed

text \<open>A node whose own search found nothing is given up.\<close>

lemma closed_given_up:
  assumes c: "closed_from (insert np M) dest s s'" and d: "\<forall>j\<in>set (arcs s np). dead_end (insert np M) dest s' j"
    and e: "explored d s s'" and g: "graph_ok s" and np: "np < length (nodes s)"
  shows "closed_from M dest s (upd np (\<lambda>n. n\<lparr>nf_nodest := True\<rparr>) s')"
proof -
  have np': "np < length (nodes s')" using exploredD(2) [OF e] np by simp
  have "dead_end M dest (upd np (\<lambda>n. n\<lparr>nf_nodest := True\<rparr>) s') j" if "dead_end (insert np M) dest s' j" for j
    using that np' by (auto simp: dead_end_def)
  moreover have "i = np \<or> nf_nodest (node s' i)"
    if "nf_nodest (node (upd np (\<lambda>n. n\<lparr>nf_nodest := True\<rparr>) s') i)" for i
    using that np' by (auto split: if_splits)
  ultimately show ?thesis using c d unfolding closed_from_def by blast
qed

lemma ready_mark:
  assumes r: "ready s dest depth frm len"
  shows "ready (upd frm (\<lambda>n. n\<lparr>nf_mark := b\<rparr>) s) dest depth frm len"
proof -
  have f: "frm < length (nodes s)" using r by (simp add: ready_def)
  note g = graph_ok_upd [of "\<lambda>n. n\<lparr>nf_mark := b\<rparr>", OF _ _ f, simplified]
  show ?thesis
    using r walk_cong [OF g(3)] cycle_ok_cong [OF _ g(3)] g(1)
    by (simp add: ready_def del: last.simps)
qed

text \<open>From the search of the loop to the search of the node: the mark is taken back.\<close>

lemma post_unmark:
  assumes p: "search_post d M dest len (arcs s frm) (upd frm (\<lambda>n. n\<lparr>nf_mark := True\<rparr>) s) res"
    and f: "frm < length (nodes s)" "\<not> nf_mark (node s frm)"
  shows "search_post d M dest len (arcs s frm) s
    (rmap (\<lambda>(len, s). (len, upd frm (\<lambda>n. n\<lparr>nf_mark := False\<rparr>) s)) res)"
proof -
  let ?s = "upd frm (\<lambda>n. n\<lparr>nf_mark := True\<rparr>) s"
  obtain len' s' where r: "res = Inr (len', s')" "explored d ?s s'" "len \<le> len'" "cycle_ok s' dest len'"
    "len' = 0 \<longrightarrow> closed_from M dest ?s s' \<and> (\<forall>j\<in>set (arcs s frm). dead_end M dest s' j)"
    using p by (auto simp: search_post_def)
  let ?s' = "upd frm (\<lambda>n. n\<lparr>nf_mark := False\<rparr>) s'"
  have f': "frm < length (nodes s')" using exploredD(2) [OF r(2)] f by simp
  have "cycle_ok ?s' dest len'"
    using r(4) cycle_ok_cong [of ?s' s', OF _ graph_ok_upd(3) [OF _ _ f']] by simp
  moreover have "dead_end M dest ?s' j = dead_end M dest s' j" for j
    using f' by (simp add: dead_end_def)
  moreover have "nf_nodest (node ?s' i) = nf_nodest (node s' i)" "nf_nodest (node ?s i) = nf_nodest (node s i)"
    "arcs ?s i = arcs s i" for i
    using f f' by (simp_all add: arcs_def)
  ultimately have "closed_from M dest s ?s' = closed_from M dest ?s s'"
    by (simp add: closed_from_def del: node_upd)
  moreover have "explored d s ?s'" by (rule explored_unmark [OF r(2) f])
  ultimately show ?thesis
    using r \<open>cycle_ok ?s' dest len'\<close> \<open>\<And>j. dead_end M dest ?s' j = dead_end M dest s' j\<close>
    by (simp add: search_post_def result_simps del: node_upd)
qed

text \<open>What the loop does with the result of the search of \<open>np\<close>.\<close>

lemma give_up:
  assumes p: "search_post (depth + 1) (insert np M) dest llen (arcs s np) s (Inr (len1, s'))"
    and g: "graph_ok s" "np < length (nodes s)" and ne: "np \<noteq> dest"
    and s3: "s3 = (if len1 = 0 then upd np (\<lambda>n. n\<lparr>nf_nodest := True\<rparr>) s' else s')"
  shows "explored (depth + 1) s s3" "cycle_ok s3 dest len1"
    "len1 = 0 \<Longrightarrow> closed_from M dest s s3 \<and> dead_end M dest s3 np"
proof -
  let ?u = "upd np (\<lambda>n. n\<lparr>nf_nodest := True\<rparr>) s'"
  have e: "explored (depth + 1) s s'" and c: "cycle_ok s' dest len1"
    and z: "len1 = 0 \<longrightarrow> closed_from (insert np M) dest s s' \<and>
         (\<forall>j\<in>set (arcs s np). dead_end (insert np M) dest s' j)"
    using p by (auto simp: search_post_def)
  have np: "np < length (nodes s')" using exploredD(2) [OF e] g(2) by simp
  obtain b where "cycle_buf s' = Some b" using e by (auto simp: explored_def same_buf_def)
  then show "explored (depth + 1) s s3" using explored_trans [OF e explored_nodest] np e s3 by simp
  have "cycle_ok ?u dest len1 = cycle_ok s' dest len1"
    by (rule cycle_ok_cong) (simp_all add: graph_ok_upd(3) [OF _ _ np])
  then show "cycle_ok s3 dest len1" using c by (simp only: s3 split: if_split) simp
  assume "len1 = 0"
  moreover from this have "closed_from M dest s ?u" using closed_given_up [OF _ _ e g] z by blast
  ultimately show "closed_from M dest s s3 \<and> dead_end M dest s3 np"
    using ne np s3 by (simp add: dead_end_def)
qed

lemma search_correct:
  "ready s dest depth frm llen \<Longrightarrow> \<not> flagged (node s frm) \<Longrightarrow> marked s \<subseteq> set (graph s) \<Longrightarrow>
     card (marked s) = depth \<Longrightarrow> length (nodes s) \<le> fuel + depth + 1 \<Longrightarrow>
     search_post depth (insert frm (marked s)) dest llen (arcs s frm) s
       (find_cycle longest fuel frm dest llen depth s)"
  "ready s dest depth frm llen \<Longrightarrow> set nps \<subseteq> set (arcs s frm) \<Longrightarrow>
     nps \<noteq> [] \<longrightarrow> marked s \<subseteq> set (graph s) \<and> card (marked s) = depth + 1 \<and>
       length (nodes s) \<le> fuel + depth + 1 \<Longrightarrow>
     search_post depth (marked s) dest llen nps s (arcs_loop longest fuel nps dest llen depth s)"
proof (induction longest fuel frm dest llen depth s and longest fuel nps dest llen depth s
    arbitrary: and frm rule: find_cycle_arcs_loop.induct)
  case (1 longest fuel frm dest llen depth s)
  let ?s = "upd frm (\<lambda>n. n\<lparr>nf_mark := True\<rparr>) s"
  have f: "frm < length (nodes s)" "graph_ok s" using "1.prems"(1) by (simp_all add: ready_def)
  have m: "marked ?s = insert frm (marked s)" using f by (auto simp: marked_def)
  have nm: "\<not> nf_mark (node s frm)" using "1.prems"(2) by (simp add: flagged_def)
  then have "frm \<notin> marked s" by (simp add: marked_def)
  then have c: "card (marked ?s) = depth + 1" using m "1.prems"(4) by simp
  have "arcs s frm \<noteq> [] \<longrightarrow> frm \<in> set (graph s)"
    using f graph_okD(5) [OF f(2) f(1)] by (cases "arcs s frm") auto
  then have "search_post depth (marked ?s) dest llen (arcs s frm) ?s
      (arcs_loop longest fuel (arcs s frm) dest llen depth ?s)"
    using "1.IH" [OF "1.prems"(2), of frm, folded arcs_def] ready_mark [OF "1.prems"(1)] m c f "1.prems"(3,5)
    by (simp add: arcs_def)
  from post_unmark [OF this f(1) nm] show ?case
    using "1.prems"(2) m by (simp add: find_cycle.simps arcs_def)
next
  case (2 longest fuel dest llen depth s)
  then show ?case
    using explored_refl by (auto simp: arcs_loop.simps search_post_def ready_def closed_refl)
next
  case (3 longest fuel np nps dest llen depth s)
  note r = "3.prems"(1)
  have m: "marked s \<subseteq> set (graph s)" "card (marked s) = depth + 1" "length (nodes s) \<le> fuel + depth + 1"
    using "3.prems"(3) by simp_all
  have f: "frm < length (nodes s)" "graph_ok s" using r by (simp_all add: ready_def)
  have np: "np \<in> set (arcs s frm)" using "3.prems"(2) by simp
  have npl: "np < length (nodes s)" using graph_okD(3) [OF f(2) f(1) np] by simp
  have "card (marked s) \<le> card (set (graph s))" using m(1) by (intro card_mono) simp_all
  then have "depth < length (graph s)" using m(2) card_length [of "graph s"] by simp
  from ready_buf [OF r np this] obtain s1 where s1: "set_buf depth np s = Inr s1"
    "explored depth s s1" "node s1 = node s" "ready s1 dest (depth + 1) np llen"
    "ready s1 dest depth frm llen" "nodes s1 = nodes s" .
  have rest: "set nps \<subseteq> set (arcs s2 frm)" "marked s2 = marked s"
    "nps \<noteq> [] \<longrightarrow> marked s2 \<subseteq> set (graph s2) \<and> card (marked s2) = depth + 1 \<and>
       length (nodes s2) \<le> fuel + depth + 1" if "explored depth s s2" for s2
    using "3.prems"(2) m exploredD(1,2) [OF that] explored_arcs [OF that f(1)] explored_marked [OF that]
    by auto
  have c1: "closed_from (marked s) dest s s1" by (rule closed_refl) (simp add: s1(3))
  note fin = post_step [OF _ f(2) npl]
  consider (longer) "np = dest" "depth + 1 > llen" | (shorter) "np = dest" "\<not> depth + 1 > llen"
    | (skip) "np \<noteq> dest" "flagged (node s1 np)" | (rec) "np \<noteq> dest" "\<not> flagged (node s1 np)" by blast
  then show ?case
  proof cases
    case longer
    let ?s2 = "copy_cycle (depth + 1) s1"
    have cp: "explored (depth + 1) s1 ?s2" "cycle_ok ?s2 dest (depth + 1)"
      using ready_copy s1(4) longer(1) by blast+
    have e: "explored depth s ?s2" using explored_trans [OF s1(2) explored_less [OF cp(1)]] by simp
    have "search_post depth (marked s) dest (depth + 1) nps ?s2
        (arcs_loop longest fuel nps dest (depth + 1) depth ?s2)"
      using "3.IH"(1) [OF s1(1) longer, of frm] ready_explored [OF s1(5) cp(1) _ cp(2)] rest [OF e] by simp
    from fin [OF e _ _ this, of llen] show ?thesis
      using longer s1(1) by (simp add: arcs_loop.simps)
  next
    case shorter
    have "search_post depth (marked s) dest llen nps s1 (arcs_loop longest fuel nps dest llen depth s1)"
      using "3.IH"(2) [OF s1(1) shorter, of frm] s1(5) rest [OF s1(2)] by simp
    from fin [OF s1(2) _ _ this, of llen] show ?thesis
      using shorter s1(1) by (simp add: arcs_loop.simps)
  next
    case skip
    have "dead_end (marked s) dest s1 np"
      using skip npl s1(3) by (auto simp: dead_end_def flagged_def marked_def)
    moreover have "search_post depth (marked s) dest llen nps s1 (arcs_loop longest fuel nps dest llen depth s1)"
      using "3.IH"(3) [OF s1(1) skip, of frm] s1(5) rest [OF s1(2)] by simp
    ultimately show ?thesis
      using fin [OF s1(2), of llen llen] c1 skip s1(1) by (simp add: arcs_loop.simps)
  next
    case rec
    have nm: "np \<notin> marked s" using rec(2) s1(3) by (simp add: marked_def flagged_def)
    have "card (insert np (marked s)) \<le> card {..<length (nodes s)}"
      using npl by (intro card_mono) (auto simp: marked_def)
    then have fuel: "fuel \<noteq> 0" using nm m(2,3) by simp
    have ms1: "marked s1 = marked s" by (rule rest(2) [OF s1(2)])
    have "search_post (depth + 1) (insert np (marked s)) dest llen (arcs s1 np) s1
        (find_cycle longest (fuel - 1) np dest llen (depth + 1) s1)"
      using "3.IH"(4) [OF s1(1) rec fuel s1(4) rec(2)] m fuel ms1 exploredD(1,2) [OF s1(2)] by simp
    then obtain len1 s2 where s2: "find_cycle longest (fuel - 1) np dest llen (depth + 1) s1 = Inr (len1, s2)"
      "llen \<le> len1" "search_post (depth + 1) (insert np (marked s)) dest llen (arcs s1 np) s1 (Inr (len1, s2))"
      by (auto simp: search_post_def)
    define s3 where "s3 = (if len1 = 0 then upd np (\<lambda>n. n\<lparr>nf_nodest := True\<rparr>) s2 else s2)"
    have g1: "graph_ok s1" "np < length (nodes s1)" using s1(4) by (simp_all add: ready_def)
    note gu = give_up [OF s2(3) g1 rec(1) s3_def]
    have e: "explored depth s s3" using explored_trans [OF s1(2) explored_less [OF gu(1)]] by simp
    have cl: "closed_from (marked s) dest s s3 \<and> dead_end (marked s) dest s3 np" if "len1 = 0"
      using gu(3) [OF that] s1(3,6) by (simp add: closed_from_def arcs_def)
    show ?thesis
    proof (cases "len1 > 0 \<and> \<not> longest")
      case True
      then have "arcs_loop longest fuel (np # nps) dest llen depth s = Inr (len1, s3)"
        using s1(1) rec fuel s2(1,2) s3_def by (simp add: arcs_loop.simps Let_def)
      then show ?thesis using True s2(2) gu(2) e by (simp add: search_post_def)
    next
      case False
      then have run: "arcs_loop longest fuel (np # nps) dest llen depth s =
          arcs_loop longest fuel nps dest len1 depth s3"
        using s1(1) rec fuel s2(1,2) by (auto simp: arcs_loop.simps(2) Let_def max_def s3_def)
      have r3: "ready s3 dest depth frm len1" using ready_explored [OF s1(5) gu(1) _ gu(2)] by simp
      have "search_post depth (marked s) dest len1 nps s3 (arcs_loop longest fuel nps dest len1 depth s3)"
        using "3.IH"(5) [OF s1(1) rec fuel s2(1) refl refl refl, of frm] False s2(2) r3 rest [OF e]
        by (simp add: max_def s3_def)
      then show ?thesis unfolding run using fin [OF e s2(2)] cl by blast
    qed
  qed
qed

end
