(* ===== verification/TsortOrder.thy ===== *)
theory TsortOrder
  imports TsortSearch
begin

text \<open>
  What \<open>tsort\<close> prints: every name once, a name after all names that have to precede it unless
  it lies on a cycle, and each cycle warned of is one.
\<close>

section \<open>The result of the search of a node\<close>

text \<open>Between searches no node is marked, and the nodes found to lie on no cycle lie on none.\<close>

definition idle :: "tstate \<Rightarrow> bool" where
  "idle s \<longleftrightarrow>
     graph_ok s \<and> (\<forall>i<length (nodes s). \<not> nf_mark (node s i)) \<and>
     (\<forall>i<length (nodes s). nf_acyclic (node s i) \<longrightarrow> (i, i) \<notin> (edges s)\<^sup>+)"

definition clean :: "tstate \<Rightarrow> bool" where
  "clean s \<longleftrightarrow> (\<forall>i\<in>set (graph s). \<not> nf_nodest (node s i))"

definition bufs_ok :: "tstate \<Rightarrow> bool" where
  "bufs_ok s \<longleftrightarrow>
     (\<forall>b. cycle_buf s = Some b \<longrightarrow>
        length (graph s) \<le> length b \<and> length (longest_cycle s) = length b)"

lemma closed_no_cycle:
  assumes i: "idle s" "clean s" and n: "n < length (nodes s)" and e: "explored d s s'"
    and c: "closed_from {n} n s s'" "\<forall>j\<in>set (arcs s n). dead_end {n} n s' j"
  shows "(n, n) \<notin> (edges s)\<^sup>+"
proof -
  have "(j, n) \<in> (edges s)\<^sup>+ \<longrightarrow> dead_end {n} n s' j" if "(n, j) \<in> (edges s)\<^sup>+" for j
    using that
  proof (induction rule: trancl_induct)
    case (base y)
    then show ?case using c(2) by (simp add: edges_def)
  next
    case (step y z)
    show ?case
    proof
      assume "(z, n) \<in> (edges s)\<^sup>+"
      then have yn: "(y, n) \<in> (edges s)\<^sup>+" using step.hyps(2) by (rule trancl_into_trancl2 [rotated])
      with step have d: "dead_end {n} n s' y" by blast
      have y: "y < length (nodes s)" "z \<in> set (arcs s y)" using step.hyps(2) by (simp_all add: edges_def)
      have "(y, y) \<in> (edges s)\<^sup>+" using yn step.hyps(1) by (rule trancl_trans)
      then have "\<not> nf_acyclic (node s' y)" using i(1) y(1) exploredD(5) [OF e y(1)] by (auto simp: idle_def)
      then have "nf_nodest (node s' y)" using d by (auto simp: dead_end_def)
      moreover have "\<not> nf_nodest (node s y)"
        using i graph_okD(5) [OF _ y] by (auto simp: idle_def clean_def)
      ultimately show "dead_end {n} n s' z" using c(1) y by (auto simp: closed_from_def)
    qed
  qed
  then show ?thesis by (auto simp: dead_end_def)
qed

lemma find_cycle_root:
  assumes i: "idle s" "clean s" and n: "n \<in> set (graph s)" "\<not> nf_acyclic (node s n)"
    and b: "bufs_ok s" "cycle_buf s \<noteq> None"
  obtains cnt s' where "find_cycle longest (length (nodes s)) n n 0 0 s = Inr (cnt, s')"
    "explored 0 s s'" "cycle_ok s' n cnt" "cnt = 0 \<Longrightarrow> (n, n) \<notin> (edges s)\<^sup>+"
proof -
  have g: "graph_ok s" using i by (simp add: idle_def)
  have nl: "n < length (nodes s)" by (rule graph_okD(2) [OF g n(1)])
  have m: "marked s = {}" using i by (simp add: marked_def idle_def)
  have "\<not> flagged (node s n)" using i n nl by (simp add: flagged_def idle_def clean_def)
  moreover have "ready s n 0 n 0" using g nl b by (auto simp: ready_def cycle_ok_def bufs_ok_def)
  ultimately have "search_post 0 {n} n 0 (arcs s n) s
      (find_cycle longest (length (nodes s)) n n 0 0 s)"
    using search_correct(1) [of s n 0 n 0 "length (nodes s)" longest] m by simp
  then obtain cnt s' where r: "find_cycle longest (length (nodes s)) n n 0 0 s = Inr (cnt, s')"
    "explored 0 s s'" "cycle_ok s' n cnt"
    "cnt = 0 \<longrightarrow> closed_from {n} n s s' \<and> (\<forall>j\<in>set (arcs s n). dead_end {n} n s' j)"
    by (auto simp: search_post_def)
  show ?thesis using that [OF r(1-3)] closed_no_cycle [OF i nl r(2)] r(4) by blast
qed

text \<open>When every node of the list has a predecessor there is a cycle through one of them.\<close>

lemma all_preds_cycle:
  assumes g: "graph_ok s" and ne: "graph s \<noteq> []" and r: "\<forall>i\<in>set (graph s). n_refcnt (node s i) \<noteq> 0"
  shows "\<exists>i\<in>set (graph s). (i, i) \<in> (edges s)\<^sup>+"
proof (rule ccontr)
  assume no: "\<not> ?thesis"
  have sub: "edges s \<subseteq> set (graph s) \<times> {..<length (nodes s)}"
    using graph_okD(3,5) [OF g] by (auto simp: edges_def)
  then have "finite (edges s)" by (rule finite_subset) simp
  moreover have "(x, x) \<notin> (edges s)\<^sup>+" for x
  proof
    assume x: "(x, x) \<in> (edges s)\<^sup>+"
    then obtain y where "(x, y) \<in> edges s" by (auto dest: tranclD)
    then have "x \<in> set (graph s)" using sub by auto
    with x no show False by blast
  qed
  then have "acyclic (edges s)" by (simp add: acyclic_def)
  ultimately have "wf (edges s)" by (simp add: finite_acyclic_wf)
  then obtain z where z: "z \<in> set (graph s)" "\<And>y. (y, z) \<in> edges s \<Longrightarrow> y \<notin> set (graph s)"
    using ne by (metis wfE_min list.set_intros(1) neq_Nil_conv)
  have "preds s z = {}"
    using z(2) sub by (auto simp: preds_def edges_def)
  then show False using graph_okD(6) [OF g graph_okD(2) [OF g z(1)]] r z(1) by simp
qed

section \<open>The state between the steps\<close>

definition before :: "'a list \<Rightarrow> 'a \<Rightarrow> 'a \<Rightarrow> bool" where
  "before xs a b \<longleftrightarrow> (\<exists>ys zs. xs = ys @ b # zs \<and> a \<in> set ys)"

lemma before_append: "before xs a b \<Longrightarrow> before (xs @ ys) a b"
  unfolding before_def by force

lemma before_last: "a \<in> set xs \<Longrightarrow> before (xs @ [b]) a b"
  unfolding before_def by auto

lemma before_map: "before xs a b \<Longrightarrow> before (map f xs) (f a) (f b)"
  unfolding before_def by force

text \<open>A list of nodes that respects the arcs \<open>E\<close> where they form no cycle.\<close>

definition ordered :: "('a \<times> 'a) set \<Rightarrow> 'a list \<Rightarrow> bool" where
  "ordered E xs \<longleftrightarrow> (\<forall>a b. (a, b) \<in> E \<longrightarrow> b \<in> set xs \<longrightarrow> before xs a b \<or> (b, b) \<in> E\<^sup>+)"

lemma ordered_snoc:
  assumes "ordered E xs" and "(\<forall>a. (a, b) \<in> E \<longrightarrow> a \<in> set xs) \<or> (b, b) \<in> E\<^sup>+"
  shows "ordered E (xs @ [b])"
  unfolding ordered_def
proof (intro allI impI disjCI)
  fix x y
  assume xy: "(x, y) \<in> E" "y \<in> set (xs @ [b])" "(y, y) \<notin> E\<^sup>+"
  show "before (xs @ [b]) x y"
  proof (cases "y \<in> set xs")
    case True
    with assms(1) xy have "before xs x y" by (auto simp: ordered_def)
    then show ?thesis by (rule before_append)
  next
    case False
    with xy have "y = b" by simp
    with assms(2) xy show ?thesis using before_last [of x xs b] by blast
  qed
qed

text \<open>A list of names that is a cycle of the relation.\<close>

definition is_cycle :: "('a \<times> 'a) set \<Rightarrow> 'a list \<Rightarrow> bool" where
  "is_cycle R c \<longleftrightarrow> c \<noteq> [] \<and> successively (\<lambda>a b. (a, b) \<in> R) (last c # c)"

text \<open>
  The state between two steps, for the arcs \<open>E\<close> and the names \<open>nm\<close> of the graph that was read:
  the nodes printed and the nodes of the list are all nodes, those of the list have their arcs.
\<close>

definition sorting :: "(nat \<times> nat) set \<Rightarrow> (nat \<Rightarrow> string) \<Rightarrow> nat \<Rightarrow> tstate \<Rightarrow> bool" where
  "sorting E nm N s \<longleftrightarrow>
     idle s \<and> bufs_ok s \<and> E \<subseteq> {..<N} \<times> {..<N} \<and> length (nodes s) = N \<and> (\<forall>i<N. name_of s i = nm i) \<and>
     edges s = {(i, j). (i, j) \<in> E \<and> i \<in> set (graph s)} \<and>
     (\<exists>order. printed s = map nm order \<and> distinct (order @ graph s) \<and>
        set (order @ graph s) = {..<N} \<and> ordered E order) \<and>
     (\<forall>c\<in>set (cycles s). is_cycle ((\<lambda>(i, j). (nm i, nm j)) ` E) c)"

lemma sortingD:
  assumes "sorting E nm N s"
  shows "idle s" "graph_ok s" "bufs_ok s" "length (nodes s) = N" "i < N \<Longrightarrow> name_of s i = nm i"
    "edges s = {(i, j). (i, j) \<in> E \<and> i \<in> set (graph s)}" "E \<subseteq> {..<N} \<times> {..<N}"
    "\<exists>order. printed s = map nm order \<and> distinct (order @ graph s) \<and>
        set (order @ graph s) = {..<N} \<and> ordered E order"
    "c \<in> set (cycles s) \<Longrightarrow> is_cycle ((\<lambda>(i, j). (nm i, nm j)) ` E) c"
  using assms unfolding sorting_def idle_def by blast+

lemma edges_remove_node:
  "graph_ok s \<Longrightarrow> n \<in> set (graph s) \<Longrightarrow> edges (remove_node n s) = {(i, j). (i, j) \<in> edges s \<and> i \<noteq> n}"
  by (auto simp: edges_def arcs_remove_node split: if_splits)

lemma idle_remove_node:
  assumes i: "idle s" and n: "n \<in> set (graph s)" shows "idle (remove_node n s)"
proof -
  have g: "graph_ok s" using i by (simp add: idle_def)
  have "(edges (remove_node n s))\<^sup>+ \<subseteq> (edges s)\<^sup>+"
    by (rule trancl_mono_subset) (auto simp: edges_remove_node [OF g n])
  then show ?thesis
    using i graph_ok_remove_node [OF g n] remove_node_flags [OF g n] by (auto simp: idle_def)
qed

lemma sorting_remove_node:
  assumes s: "sorting E nm N s" and n: "n \<in> set (graph s)"
    and c: "n_refcnt (node s n) = 0 \<or> (n, n) \<in> (edges s)\<^sup>+"
  shows "sorting E nm N (remove_node n s)"
proof -
  have i: "idle s" and g: "graph_ok s" and e: "edges s = {(i, j). (i, j) \<in> E \<and> i \<in> set (graph s)}"
    and N: "length (nodes s) = N" and nm: "\<forall>i<N. name_of s i = nm i"
    using sortingD [OF s] by simp_all
  obtain order where o: "printed s = map nm order" "distinct (order @ graph s)"
    "set (order @ graph s) = {..<N}" "ordered E order" using sortingD(8) [OF s] by blast
  have nl: "n < N" using graph_okD(2) [OF g n] N by simp
  have "(\<forall>a. (a, n) \<in> E \<longrightarrow> a \<in> set order) \<or> (n, n) \<in> E\<^sup>+"
    using c
  proof
    assume "n_refcnt (node s n) = 0"
    then have "preds s n = {}" using graph_okD(6) [OF g] nl N by simp
    then have "(a, n) \<notin> edges s" for a by (auto simp: edges_def preds_def)
    then have "a \<notin> set (graph s)" if "(a, n) \<in> E" for a using e that by auto
    moreover have "a \<in> set order \<union> set (graph s)" if "(a, n) \<in> E" for a
      using s that o(3) by (auto simp: sorting_def)
    ultimately show ?thesis by blast
  next
    assume "(n, n) \<in> (edges s)\<^sup>+"
    moreover have "(edges s)\<^sup>+ \<subseteq> E\<^sup>+" by (rule trancl_mono_subset) (auto simp: e)
    ultimately show ?thesis by blast
  qed
  then have "ordered E (order @ [n])" using o(4) by (intro ordered_snoc)
  moreover have "printed (remove_node n s) = map nm (order @ [n])"
    using o(1) nm nl by (simp add: name_of_def)
  moreover have "distinct ((order @ [n]) @ remove1 n (graph s))"
    using o(2) n by (auto simp: distinct_remove1)
  moreover have "set ((order @ [n]) @ remove1 n (graph s)) = {..<N}"
    using o(2,3) n by (auto simp: set_remove1_eq)
  moreover have "bufs_ok (remove_node n s)"
    using s length_remove1 [of n "graph s"] by (auto simp: sorting_def bufs_ok_def split: option.splits)
  moreover have "edges (remove_node n s) = {(i, j). (i, j) \<in> E \<and> i \<in> set (remove1 n (graph s))}"
    using o(2) by (auto simp: edges_remove_node [OF g n] e set_remove1_eq)
  ultimately show ?thesis
    using s idle_remove_node [OF i n] remove_node_flags(1) [OF g n]
    by (auto simp: sorting_def name_of_def)
qed

text \<open>What keeps it: whatever leaves the arcs, the counts, the names and the marks.\<close>

lemma sorting_cong:
  assumes s: "sorting E nm N s"
    and same: "graph s' = graph s" "printed s' = printed s" "length (nodes s') = length (nodes s)"
    and node: "\<And>i. i < N \<Longrightarrow> arcs s' i = arcs s i \<and> n_refcnt (node s' i) = n_refcnt (node s i) \<and>
        n_name (node s' i) = n_name (node s i) \<and> nf_mark (node s' i) = nf_mark (node s i)"
    and a: "\<And>i. i < N \<Longrightarrow> nf_acyclic (node s' i) \<Longrightarrow> nf_acyclic (node s i) \<or> (i, i) \<notin> (edges s)\<^sup>+"
    and b: "bufs_ok s'" and c: "\<And>c. c \<in> set (cycles s') \<Longrightarrow>
        c \<in> set (cycles s) \<or> is_cycle ((\<lambda>(i, j). (nm i, nm j)) ` E) c"
  shows "sorting E nm N s'"
proof -
  note d = sortingD [OF s]
  have e: "edges s' = edges s" using node same d(4) by (auto simp: edges_def)
  have p: "preds s' i = preds s i" for i using node same d(4) by (auto simp: preds_def)
  have "graph_ok s'" using d(2,4) node same p by (auto simp: graph_ok_def node_ok_def)
  moreover have "(i, i) \<notin> (edges s)\<^sup>+" if "i < N" "nf_acyclic (node s' i)" for i
    using a [OF that] d(1,4) that by (auto simp: idle_def)
  ultimately have "idle s'" using d(1,4) node same e by (simp add: idle_def)
  moreover have "\<forall>c\<in>set (cycles s'). is_cycle ((\<lambda>(i, j). (nm i, nm j)) ` E) c"
    using c d(9) by blast
  moreover have "\<forall>i<N. name_of s' i = nm i" using d(5) node by (simp add: name_of_def)
  ultimately show ?thesis
    using d(4,6,7,8) b e same by (simp add: sorting_def)
qed

lemma sorting_explored:
  assumes s: "sorting E nm N s" and e: "explored d s s'" shows "sorting E nm N s'"
proof (rule sorting_cong [OF s])
  note d = exploredD [OF e]
  have N: "length (nodes s) = N" using sortingD(4) [OF s] .
  show "graph s' = graph s" "length (nodes s') = length (nodes s)" using d by simp_all
  show "printed s' = printed s" using e by (simp add: explored_def same_lists_def)
  show "arcs s' i = arcs s i \<and> n_refcnt (node s' i) = n_refcnt (node s i) \<and>
        n_name (node s' i) = n_name (node s i) \<and> nf_mark (node s' i) = nf_mark (node s i)" if "i < N" for i
    using d that N by simp
  show "nf_acyclic (node s i) \<or> (i, i) \<notin> (edges s)\<^sup>+" if "i < N" "nf_acyclic (node s' i)" for i
    using d that N by simp
  show "bufs_ok s'" using sortingD(3) [OF s] e
    by (auto simp: bufs_ok_def explored_def same_lists_def same_buf_def split: option.splits)
  show "c \<in> set (cycles s) \<or> is_cycle ((\<lambda>(i, j). (nm i, nm j)) ` E) c" if "c \<in> set (cycles s')" for c
    using e that by (simp add: explored_def same_lists_def)
qed

lemma report_sel [simp]:
  "node (report quiet cnt s) = node s" "arcs (report quiet cnt s) = arcs s"
  "printed (report quiet cnt s) = printed s" "cycle_buf (report quiet cnt s) = cycle_buf s"
  "longest_cycle (report quiet cnt s) = longest_cycle s"
  "length (nodes (report quiet cnt s)) = length (nodes s)" "edges (report quiet cnt s) = edges s"
  by (simp_all add: report_def edges_def)

lemma cycle_ok_trancl: "cycle_ok s n cnt \<Longrightarrow> cnt \<noteq> 0 \<Longrightarrow> (n, n) \<in> (edges s)\<^sup>+"
  using walk_trancl [of s n "take cnt (longest_cycle s)"]
  by (cases "longest_cycle s = []") (auto simp: cycle_ok_def)

lemma sorting_report:
  assumes s: "sorting E nm N s" and c: "cycle_ok s n cnt" "cnt \<noteq> 0"
  shows "sorting E nm N (report quiet cnt s)"
proof (rule sorting_cong [OF s])
  let ?c = "map (\<lambda>i. n_name (node s i)) (take cnt (longest_cycle s))"
  let ?R = "(\<lambda>(i, j). (nm i, nm j)) ` E"
  note d = sortingD [OF s]
  have w: "walk s n p \<Longrightarrow> successively (\<lambda>a b. (a, b) \<in> ?R) (map (\<lambda>i. n_name (node s i)) (n # p))"
    for n p
  proof (induction p arbitrary: n)
    case (Cons m p)
    then have "(n, m) \<in> E" using d(6) by simp
    moreover from this have "n_name (node s n) = nm n" "n_name (node s m) = nm m"
      using d(5,7) by (auto simp: name_of_def)
    ultimately show ?case using Cons by force
  qed simp
  have "last ?c = n_name (node s n)"
    using c by (cases "take cnt (longest_cycle s) = []") (auto simp: cycle_ok_def last_map)
  then have "is_cycle ?R ?c"
    using c w [of n "take cnt (longest_cycle s)"] by (auto simp: cycle_ok_def is_cycle_def)
  then show "c \<in> set (cycles s) \<or> is_cycle ?R c" if "c \<in> set (cycles (report quiet cnt s))" for c
    using that by (auto simp: report_def split: if_splits)
  show "bufs_ok (report quiet cnt s)" using d(3) by (simp add: bufs_ok_def)
qed simp_all

lemma node_clear_cycle:
  assumes "graph_ok s"
  shows "node (clear_cycle s) j =
     (if j \<in> set (graph s) then node s j\<lparr>nf_nodest := False\<rparr> else node s j)"
proof -
  have "distinct (graph s)" "set (graph s) \<subseteq> {..<length (nodes s)}"
    using assms by (simp_all add: graph_ok_def)
  from node_fold_upd [OF this] show ?thesis by (simp only: clear_cycle_def)
qed

lemma clear_cycle_sel [simp]:
  "cycle_buf (clear_cycle s) = cycle_buf s" "longest_cycle (clear_cycle s) = longest_cycle s"
  "printed (clear_cycle s) = printed s" "cycles (clear_cycle s) = cycles s"
  "length (nodes (clear_cycle s)) = length (nodes s)"
  by (simp_all add: clear_cycle_def)

lemma sorting_clear_cycle:
  assumes s: "sorting E nm N s" shows "sorting E nm N (clear_cycle s)" "clean (clear_cycle s)"
proof -
  note d = sortingD [OF s]
  show "sorting E nm N (clear_cycle s)"
  proof (rule sorting_cong [OF s])
    show "bufs_ok (clear_cycle s)" using d(3) by (simp add: bufs_ok_def)
  qed (simp_all add: node_clear_cycle [OF d(2)] arcs_def split: if_splits)
  show "clean (clear_cycle s)" by (simp add: clean_def node_clear_cycle [OF d(2)])
qed

lemma sorting_acyclic:
  assumes s: "sorting E nm N s" and n: "n < N" "(n, n) \<notin> (edges s)\<^sup>+"
  shows "sorting E nm N (upd n (\<lambda>n. n\<lparr>nf_acyclic := True\<rparr>) s)"
proof -
  note d = sortingD [OF s]
  have n': "n < length (nodes s)" using n(1) d(4) by simp
  show ?thesis
    by (rule sorting_cong [OF s]) (use n' n(2) d(3) in \<open>auto simp: arcs_def bufs_ok_def split: if_splits\<close>)
qed

lemma search_sorting:
  assumes "sorting E nm N s" "clean s" "cycle_buf s \<noteq> None" "set ns \<subseteq> set (graph s)"
    and "\<exists>i\<in>set ns. (i, i) \<in> (edges s)\<^sup>+"
  shows "\<exists>s'. search longest quiet N ns s = Inr s' \<and> sorting E nm N s' \<and> clean s'"
  using assms
proof (induction ns arbitrary: s)
  case (Cons n ns)
  note d = sortingD [OF Cons.prems(1)]
  have n: "n \<in> set (graph s)" "n < N" using Cons.prems(4) graph_okD(2) [OF d(2)] d(4) by auto
  show ?case
  proof (cases "nf_acyclic (node s n)")
    case True
    then have "(n, n) \<notin> (edges s)\<^sup>+" using d(1,4) n by (auto simp: idle_def)
    with Cons True show ?thesis by simp
  next
    case False
    from find_cycle_root [OF d(1) Cons.prems(2) n(1) False d(3) Cons.prems(3), of longest]
    obtain cnt s1 where f: "find_cycle longest N n n 0 0 s = Inr (cnt, s1)" "explored 0 s s1"
      "cycle_ok s1 n cnt" "cnt = 0 \<Longrightarrow> (n, n) \<notin> (edges s)\<^sup>+" unfolding d(4) by blast
    have s1: "sorting E nm N s1" and e1: "edges s1 = edges s"
      using sorting_explored [OF Cons.prems(1) f(2)] explored_edges [OF f(2)] by simp_all
    have g1: "graph s1 = graph s" "cycle_buf s1 \<noteq> None"
      using f(2) by (simp_all add: explored_def same_lists_def same_buf_def)
    show ?thesis
    proof (cases "cnt = 0")
      case True
      let ?s2 = "clear_cycle (upd n (\<lambda>n. n\<lparr>nf_acyclic := True\<rparr>) s1)"
      have nc: "(n, n) \<notin> (edges s)\<^sup>+" using f(4) True by simp
      have s2: "sorting E nm N ?s2" "clean ?s2"
        using sorting_clear_cycle [OF sorting_acyclic [OF s1 n(2)]] nc e1 by simp_all
      have "edges ?s2 = edges s" using sortingD(6) [OF s2(1)] d(6) g1 by simp
      moreover have "\<exists>i\<in>set ns. (i, i) \<in> (edges s)\<^sup>+" using Cons.prems(5) nc by auto
      ultimately show ?thesis
        using Cons.IH [OF s2] Cons.prems(4) g1 False f(1) True by simp
    next
      case nz: False
      have "sorting E nm N (remove_node n (report quiet cnt s1))"
        using sorting_remove_node [OF sorting_report [OF s1 f(3) nz]] n(1) g1 cycle_ok_trancl [OF f(3) nz]
        by simp
      then show ?thesis using sorting_clear_cycle f(1) False nz by simp
    qed
  qed
qed simp

lemma clean_remove_node: "graph_ok s \<Longrightarrow> n \<in> set (graph s) \<Longrightarrow> clean s \<Longrightarrow> clean (remove_node n s)"
  using set_remove1_subset [of n "graph s"] by (auto simp: clean_def remove_node_flags)

lemma sweep_sorting:
  "sorting E nm N s \<Longrightarrow> clean s \<Longrightarrow> set ns \<subseteq> set (graph s) \<Longrightarrow> distinct ns \<Longrightarrow>
     sweep ns cnt s = (cnt', s') \<Longrightarrow>
     sorting E nm N s' \<and> clean s' \<and> cnt \<le> cnt' \<and>
       (cnt' = cnt \<longrightarrow> s' = s \<and> (\<forall>n\<in>set ns. n_refcnt (node s n) \<noteq> 0))"
proof (induction ns arbitrary: cnt s)
  case (Cons n ns)
  show ?case
  proof (cases "n_refcnt (node s n) = 0")
    case True
    have n: "n \<in> set (graph s)" using Cons.prems(3) by simp
    have "sorting E nm N (remove_node n s)" "clean (remove_node n s)"
      using sorting_remove_node [OF Cons.prems(1) n] True
        clean_remove_node [OF sortingD(2) [OF Cons.prems(1)] n Cons.prems(2)] by simp_all
    moreover have "set ns \<subseteq> set (remove1 n (graph s))"
      using Cons.prems(3,4) by (auto intro: in_set_remove1 [THEN iffD2])
    ultimately show ?thesis
      using Cons.IH [of "remove_node n s" "cnt + 1"] Cons.prems(4,5) True by auto
  next
    case False
    with Cons.IH [of s cnt] Cons.prems show ?thesis by auto
  qed
qed auto

lemma sweeps_sorting:
  assumes "sorting E nm N s" "clean s"
  shows "sorting E nm N (sweeps s)" "clean (sweeps s)" "\<forall>n\<in>set (graph (sweeps s)). n_refcnt (node (sweeps s) n) \<noteq> 0"
  using assms
proof (atomize (full), induction s rule: sweeps.induct)
  case (1 s)
  obtain cnt s' where w: "sweep (graph s) 0 s = (cnt, s')" by fastforce
  have "distinct (graph s)" using graph_okD(1) sortingD(2) 1(2) by blast
  note p = sweep_sorting [OF _ _ subset_refl this w]
  show ?case
  proof (cases "graph s' \<noteq> [] \<and> cnt \<noteq> 0")
    case True
    then show ?thesis
      using "1.IH" [OF w [symmetric]] p w "1.prems" by (subst (1 2 3 4) sweeps.simps) simp
  next
    case False
    then show ?thesis using p w "1.prems" by (subst (1 2 3 4) sweeps.simps) auto
  qed
qed

text \<open>The whole loop: it ends, with every node printed.\<close>

lemma alloc_bufs_sel' [simp]:
  "printed (alloc_bufs s) = printed s" "cycles (alloc_bufs s) = cycles s"
  "node (alloc_bufs s) = node s" "cycle_buf (alloc_bufs s) \<noteq> None"
  by (auto simp: alloc_bufs_def Let_def node_def fun_eq_iff split: option.split)

lemma sorting_alloc_bufs:
  assumes s: "sorting E nm N s" and c: "clean s"
  shows "sorting E nm N (alloc_bufs s)" "clean (alloc_bufs s)"
proof -
  show "sorting E nm N (alloc_bufs s)"
  proof (rule sorting_cong [OF s])
    show "bufs_ok (alloc_bufs s)" using sortingD(3) [OF s]
      by (auto simp: bufs_ok_def alloc_bufs_def Let_def split: option.splits)
  qed (simp_all add: arcs_def)
  show "clean (alloc_bufs s)" using c by (simp add: clean_def)
qed

lemma tsort_sorting:
  "sorting E nm N s \<Longrightarrow> clean s \<Longrightarrow>
     \<exists>s'. tsort longest quiet s = Inr s' \<and> sorting E nm N s' \<and> graph s' = []"
proof (induction longest quiet s rule: tsort.induct)
  case (1 longest quiet s)
  show ?case
  proof (cases "graph s = [] \<or> graph (sweeps s) = []")
    case True
    then show ?thesis using 1(2,3) sweeps_sorting(1) [OF 1(2,3)] by (auto simp: tsort.simps [of longest quiet s])
  next
    case False
    let ?s1 = "alloc_bufs (sweeps s)"
    note w = sweeps_sorting [OF 1(2,3)]
    note a = sorting_alloc_bufs [OF w(1,2)]
    have "\<exists>i\<in>set (graph ?s1). (i, i) \<in> (edges ?s1)\<^sup>+"
      using all_preds_cycle [OF sortingD(2) [OF a(1)]] w(3) False by simp
    then have "\<exists>s2. search longest quiet N (graph (sweeps s)) ?s1 = Inr s2 \<and> sorting E nm N s2 \<and> clean s2"
      by (intro search_sorting [OF a]) simp_all
    then obtain s2 where s2: "search longest quiet N (graph (sweeps s)) ?s1 = Inr s2"
      "sorting E nm N s2" "clean s2" by blast
    have N: "length (nodes (sweeps s)) = N" by (rule sortingD(4) [OF w(1)])
    show ?thesis
      using "1.IH" [OF _ refl _ s2(1) [folded N] s2(2,3)] False s2(1) N
      by (simp add: tsort.simps [of longest quiet s] Let_def)
  qed
qed

lemma built_sorting:
  assumes b: "built s"
  shows "sorting (edges s) (name_of s) (length (nodes s)) s" "clean s"
proof -
  have g: "graph_ok s" "set (graph s) = {..<length (nodes s)}" using b by (simp_all add: built_def)
  have f: "\<not> nf_mark (node s i)" "\<not> nf_nodest (node s i)" "\<not> nf_acyclic (node s i)"
    if "i < length (nodes s)" for i
    using b that by (simp_all add: built_def flagged_def)
  have "idle s" using g f by (simp add: idle_def)
  moreover have "edges s \<subseteq> {..<length (nodes s)} \<times> {..<length (nodes s)}"
    using graph_okD(3) [OF g(1)] by (auto simp: edges_def)
  moreover have "edges s = {(i, j). (i, j) \<in> edges s \<and> i \<in> set (graph s)}"
    using g(2) by (auto simp: edges_def)
  moreover have "printed s = map (name_of s) [] \<and> distinct ([] @ graph s) \<and>
      set ([] @ graph s) = {..<length (nodes s)} \<and> ordered (edges s) []"
    using b graph_okD(1) [OF g(1)] by (simp add: built_def ordered_def)
  ultimately show "sorting (edges s) (name_of s) (length (nodes s)) s"
    using b unfolding sorting_def by (intro conjI) (auto simp: built_def bufs_ok_def)
  show "clean s" using f g(2) by (simp add: clean_def)
qed

section \<open>From nodes to names\<close>

lemma trancl_image: "(a, b) \<in> R\<^sup>+ \<Longrightarrow> (f a, f b) \<in> ((\<lambda>(i, j). (f i, f j)) ` R)\<^sup>+"
proof (induction rule: trancl_induct)
  case (base y)
  then show ?case by force
next
  case (step y z)
  then have "(f y, f z) \<in> (\<lambda>(i, j). (f i, f j)) ` R" by force
  with step.IH show ?case by (rule trancl_into_trancl)
qed

lemma ordered_map:
  assumes o: "ordered E xs" and i: "inj_on f D" and d: "E \<subseteq> D \<times> D" "set xs \<subseteq> D"
  shows "ordered ((\<lambda>(i, j). (f i, f j)) ` E) (map f xs)"
  unfolding ordered_def
proof (intro allI impI disjCI)
  fix a b
  let ?R = "(\<lambda>(i, j). (f i, f j)) ` E"
  assume ab: "(a, b) \<in> ?R" "b \<in> set (map f xs)" "(b, b) \<notin> ?R\<^sup>+"
  then obtain i j where ij: "(i, j) \<in> E" "a = f i" "b = f j" by auto
  then have "j \<in> set xs" using ab(2) i d by (auto dest: inj_onD)
  moreover have "(j, j) \<notin> E\<^sup>+" using trancl_image ij ab(3) by metis
  ultimately have "before xs i j" using o ij by (auto simp: ordered_def)
  then show "before (map f xs) a b" using before_map ij by metis
qed

lemma tsort_main_even:
  assumes "even (length (words inp))"
  obtains out cs where "tsort_main longest quiet reverse inp = Inr (out, cs)"
    "distinct out" "set out = set (words inp)"
    "ordered (oriented reverse (pairs (words inp)) - Id) out"
    "\<forall>c\<in>set cs. is_cycle (oriented reverse (pairs (words inp)) - Id) c"
proof -
  let ?R = "oriented reverse (pairs (words inp)) - Id"
  obtain s where s: "build reverse (words inp) empty_graph = Inr s" "built s"
    "names_in s = set (words inp)" "named_edges s = ?R"
    using build_built [OF built_empty assms, of reverse]
    by (auto simp: names_in_def named_edges_def edges_def empty_graph_def)
  let ?N = "length (nodes s)"
  note b = built_sorting [OF s(2)]
  obtain s' where s': "tsort longest quiet s = Inr s'" "sorting (edges s) (name_of s) ?N s'" "graph s' = []"
    using tsort_sorting [OF b] by blast
  obtain order where o: "printed s' = map (name_of s) order" "distinct order"
    "set order = {..<?N}" "ordered (edges s) order"
    using sortingD(8) [OF s'(2)] s'(3) by auto
  have inj: "inj_on (name_of s) {..<?N}"
    using s(2) by (simp add: built_def table_ok_def name_of_def [abs_def])
  have R: "(\<lambda>(i, j). (name_of s i, name_of s j)) ` edges s = ?R" using s(4) by (simp add: named_edges_def)
  show ?thesis
  proof (rule that [of "printed s'" "cycles s'"])
    show "tsort_main longest quiet reverse inp = Inr (printed s', cycles s')"
      by (simp add: tsort_main_def s(1) s'(1))
    show "distinct (printed s')" using o inj by (simp add: distinct_map)
    show "set (printed s') = set (words inp)" using o s(3) by (simp add: names_in_def)
    show "ordered ?R (printed s')"
      using ordered_map [OF o(4) inj sortingD(7) [OF b(1)]] o(1,3) R by simp
    show "\<forall>c\<in>set (cycles s'). is_cycle ?R c" using sortingD(9) [OF s'(2)] R by simp
  qed
qed

lemma pairs_words: "(a, b) \<in> pairs ws \<Longrightarrow> a \<in> set ws \<and> b \<in> set ws"
  by (induction ws rule: pairs.induct) auto

lemma oriented_words: "(a, b) \<in> oriented reverse (pairs ws) - Id \<Longrightarrow> b \<in> set ws"
  by (auto simp: oriented_def dest: pairs_words split: if_splits)

lemma is_cycle_trancl: "is_cycle R c \<Longrightarrow> \<exists>a. (a, a) \<in> R\<^sup>+"
proof -
  have w: "successively (\<lambda>a b. (a, b) \<in> R) (a # p) \<Longrightarrow> p \<noteq> [] \<Longrightarrow> (a, last p) \<in> R\<^sup>+" for a p
  proof (induction p arbitrary: a)
    case (Cons b p)
    then show ?case by (cases "p = []") (auto intro: trancl_into_trancl2)
  qed simp
  assume "is_cycle R c"
  then show ?thesis using w [of "last c" c] by (auto simp: is_cycle_def)
qed

section \<open>Properties\<close>

lemma words_three: "words ''a b b c'' = [''a'', ''b'', ''b'', ''c'']"
  by code_simp

lemma words_two: "words ''a b b a'' = [''a'', ''b'', ''b'', ''a'']"
  by code_simp

text \<open>
  C19: for an even number of words \<open>tsort\<close> always ends with success, prints every name once, and
  prints a name after each name that has to precede it, unless the name lies on a cycle of the
  pairs.
\<close>

theorem tsort_topological:
  assumes "even (length (words inp))" and "R = oriented reverse (pairs (words inp)) - Id"
  shows "\<exists>out cs. tsort_main longest quiet reverse inp = Inr (out, cs) \<and>
    distinct out \<and> set out = set (words inp) \<and>
    (\<forall>a b. (a, b) \<in> R \<longrightarrow> before out a b \<or> (b, b) \<in> R\<^sup>+)"
proof -
  obtain out cs where "tsort_main longest quiet reverse inp = Inr (out, cs)" "distinct out"
    "set out = set (words inp)" "ordered R out"
    using tsort_main_even [OF assms(1), of longest quiet reverse, folded assms(2)] by metis
  moreover have "b \<in> set (words inp)" if "(a, b) \<in> R" for a b
    using that oriented_words [of a b reverse "words inp"] assms(2) by simp
  ultimately show ?thesis by (auto simp: ordered_def)
qed

theorem tsort_topological_witness:
  "\<exists>out cs. tsort_main False True False ''a b b a'' = Inr (out, cs) \<and>
    distinct out \<and> set out = {''a'', ''b''} \<and>
    (\<forall>a b. (a, b) \<in> {(''a'', ''b''), (''b'', ''a'')} \<longrightarrow>
       before out a b \<or> (b, b) \<in> {(''a'', ''b''), (''b'', ''a'')}\<^sup>+)"
proof -
  have "{(''a'', ''b''), (''b'', ''a'')} = oriented False (pairs (words ''a b b a'')) - Id"
    by (auto simp: words_two oriented_def)
  from tsort_topological [OF _ this, of False True] show ?thesis by (simp add: words_two insert_commute)
qed

text \<open>
  When the pairs have no cycle the output is a topological order of them and no cycle is
  warned of.
\<close>

theorem tsort_acyclic:
  assumes "even (length (words inp))" and "R = oriented reverse (pairs (words inp)) - Id"
    and "\<forall>a. (a, a) \<notin> R\<^sup>+"
  shows "\<exists>out. tsort_main longest quiet reverse inp = Inr (out, []) \<and>
    distinct out \<and> set out = set (words inp) \<and> (\<forall>a b. (a, b) \<in> R \<longrightarrow> before out a b)"
proof -
  obtain out cs where t: "tsort_main longest quiet reverse inp = Inr (out, cs)" "distinct out"
    "set out = set (words inp)" "ordered R out" "\<forall>c\<in>set cs. is_cycle R c"
    using tsort_main_even [OF assms(1), of longest quiet reverse, folded assms(2)] by metis
  have "cs = []" using t(5) is_cycle_trancl assms(3) by (cases cs) auto
  moreover have "\<forall>a b. (a, b) \<in> R \<longrightarrow> before out a b"
  proof (intro allI impI)
    fix a b
    assume ab: "(a, b) \<in> R"
    then have "b \<in> set out" using t(3) assms(2) oriented_words [of a b reverse "words inp"] by simp
    with ab t(4) assms(3) show "before out a b" by (auto simp: ordered_def)
  qed
  ultimately show ?thesis using t by auto
qed

theorem tsort_acyclic_witness:
  "\<exists>out. tsort_main True False False ''a b b c'' = Inr (out, []) \<and>
    distinct out \<and> set out = {''a'', ''b'', ''c''} \<and>
    (\<forall>a b. (a, b) \<in> {(''a'', ''b''), (''b'', ''c'')} \<longrightarrow> before out a b)"
proof -
  let ?R = "{(''a'', ''b''), (''b'', ''c'')}"
  have R: "?R = oriented False (pairs (words ''a b b c'')) - Id"
    by (auto simp: words_three oriented_def)
  have "\<forall>a. (a, a) \<notin> ?R\<^sup>+" by (auto simp: trancl_insert rtrancl_insert)
  from tsort_acyclic [OF _ R this, of True False] show ?thesis by (simp add: words_three insert_commute)
qed

text \<open>C20: every cycle that is warned of is a cycle of the pairs.\<close>

theorem tsort_warns_cycles:
  assumes "even (length (words inp))" and "R = oriented reverse (pairs (words inp)) - Id"
  shows "\<exists>out cs. tsort_main longest quiet reverse inp = Inr (out, cs) \<and>
    list_all (\<lambda>c. c \<noteq> [] \<and> successively (\<lambda>a b. (a, b) \<in> R) (last c # c)) cs"
  using tsort_main_even [OF assms(1), of longest quiet reverse, folded assms(2)]
  by (metis (mono_tags, lifting) is_cycle_def list_all_iff)

theorem tsort_warns_cycles_witness:
  "\<exists>out cs. tsort_main False False False ''a b b a'' = Inr (out, cs) \<and>
    list_all (\<lambda>c. c \<noteq> [] \<and> successively (\<lambda>a b. (a, b) \<in> {(''a'', ''b''), (''b'', ''a'')}) (last c # c)) cs"
  by (rule tsort_warns_cycles [of "''a b b a''" _ False]) (auto simp: words_two oriented_def)

text \<open>An odd number of words is an error, before anything is printed.\<close>

theorem tsort_odd:
  "odd (length (words inp)) \<Longrightarrow> tsort_main longest quiet reverse inp = Inl OddCount"
  by (simp add: tsort_main_def build_odd)

theorem tsort_odd_witness: "tsort_main False False True ''a b c'' = Inl OddCount"
proof (rule tsort_odd)
  have "words ''a b c'' = [''a'', ''b'', ''c'']" by code_simp
  then show "odd (length (words ''a b c''))" by simp
qed

end
