(* ===== verification/Lzw.thy ===== *)
theory Lzw
  imports Prelude
begin

text \<open>
  \<open>archive/compress/zopen.c\<close>: a stream that compresses what is written to it and decompresses
  what is read from it, with codes of 9 to \<open>maxbits\<close> bits. A file is the list of its bytes: the
  bytes written so far, or those not read yet. Write errors of the file, allocation failures
  and the count of the codes kept for debugging are left out; counts are natural numbers. The
  tables that reading lays over those of writing are fields of their own.
\<close>

type_synonym byte = "8 word"

abbreviation (input) BITS :: nat where "BITS \<equiv> 16"
abbreviation (input) HSIZE :: nat where "HSIZE \<equiv> 69001"
abbreviation (input) INIT_BITS :: nat where "INIT_BITS \<equiv> 9"
abbreviation (input) BIT_MASK :: byte where "BIT_MASK \<equiv> 0x1f"
abbreviation (input) BLOCK_MASK :: byte where "BLOCK_MASK \<equiv> 0x80"
abbreviation (input) CHECK_GAP :: nat where "CHECK_GAP \<equiv> 10000"
abbreviation (input) FIRST :: nat where "FIRST \<equiv> 257"
abbreviation (input) CLEAR :: nat where "CLEAR \<equiv> 256"

definition MAXCODE :: "nat \<Rightarrow> nat" where
  "MAXCODE bits = 2 ^ bits - 1"

definition magic_header :: "byte list" where
  "magic_header = [0x1f, 0x9d]"

datatype zphase = S_START | S_MIDDLE | S_EOF

text \<open>\<open>EINVAL\<close> is the only \<open>errno\<close>; \<open>Underflow\<close> is a read below the output stack.\<close>

datatype zerror = EINVAL | Underflow

text \<open>
  An empty slot of the hash table, -1 in the code, is \<open>None\<close>; \<open>oldcode\<close> is \<open>None\<close> for -1. The
  top of the output stack is the head of \<open>zs_stack\<close>.
\<close>

record zstate =
  fp_out :: "byte list"
  fp_in :: "byte list"
  zs_mode :: char
  zs_state :: zphase
  zs_n_bits :: nat
  zs_maxbits :: nat
  zs_maxcode :: nat
  zs_maxmaxcode :: nat
  zs_htab :: "nat \<Rightarrow> nat option"
  zs_codetab :: "nat \<Rightarrow> nat"
  zs_free_ent :: nat
  zs_block_compress :: byte
  zs_clear_flg :: bool
  zs_ratio :: nat
  zs_checkpoint :: nat
  zs_offset :: nat
  zs_in_count :: nat
  zs_bytes_out :: nat
  zs_buf :: "byte list"
  zs_ent :: nat
  zs_stack :: "byte list"
  zs_finchar :: byte
  zs_oldcode :: "nat option"
  zs_incode :: nat
  zs_roffset :: nat
  zs_size :: int
  zs_gbuf :: "byte list"
  tab_prefix :: "nat \<Rightarrow> nat"
  tab_suffix :: "nat \<Rightarrow> byte"

section \<open>Opening\<close>

definition zopen :: "string \<Rightarrow> nat \<Rightarrow> byte list \<Rightarrow> zerror + zstate" where
  "zopen mode bits file =
     (if mode \<noteq> ''r'' \<and> mode \<noteq> ''w'' \<or> bits > BITS then Inl EINVAL
      else
        let maxb = (if bits \<noteq> 0 then bits else BITS) in
        Inr \<lparr>fp_out = [], fp_in = file, zs_mode = hd mode, zs_state = S_START, zs_n_bits = 0,
          zs_maxbits = maxb, zs_maxcode = 0, zs_maxmaxcode = 2 ^ maxb,
          zs_htab = (\<lambda>i. Some 0), zs_codetab = (\<lambda>i. 0), zs_free_ent = 0,
          zs_block_compress = BLOCK_MASK, zs_clear_flg = False, zs_ratio = 0,
          zs_checkpoint = CHECK_GAP, zs_offset = 0, zs_in_count = 1, zs_bytes_out = 0,
          zs_buf = replicate BITS 0, zs_ent = 0, zs_stack = [], zs_finchar = 0,
          zs_oldcode = Some 0, zs_incode = 0, zs_roffset = 0, zs_size = 0, zs_gbuf = replicate BITS 0,
          tab_prefix = (\<lambda>i. 0), tab_suffix = (\<lambda>i. 0)\<rparr>)"

section \<open>Writing codes\<close>

definition lmask :: "byte list" where
  "lmask = [0xff, 0xfe, 0xfc, 0xf8, 0xf0, 0xe0, 0xc0, 0x80, 0x00]"

definition rmask :: "byte list" where
  "rmask = [0x00, 0x01, 0x03, 0x07, 0x0f, 0x1f, 0x3f, 0x7f, 0xff]"

text \<open>The code into the buffer, \<open>n\<close> bits from bit \<open>off\<close> on, low bits first.\<close>

definition put_code :: "nat \<Rightarrow> nat \<Rightarrow> nat \<Rightarrow> byte list \<Rightarrow> byte list" where
  "put_code n off ocode buf =
     (let i = off div 8; r = off mod 8;
          buf = buf[i := (buf ! i AND rmask ! r) OR (word_of_nat (push_bit r ocode) AND lmask ! r)];
          i = i + 1;
          bits = int n - (8 - int r);
          ocode = drop_bit (8 - r) ocode;
          (buf, i, ocode, bits) =
            (if bits \<ge> 8 then (buf[i := word_of_nat ocode], i + 1, drop_bit 8 ocode, bits - 8)
             else (buf, i, ocode, bits))
      in if bits \<noteq> 0 then buf[i := word_of_nat ocode] else buf)"

definition flush :: "nat \<Rightarrow> zstate \<Rightarrow> zstate" where
  "flush k zs = zs\<lparr>fp_out := fp_out zs @ take k (zs_buf zs), zs_bytes_out := zs_bytes_out zs + k\<rparr>"

text \<open>One more bit for each code; \<open>getcode\<close> has the same lines.\<close>

definition more_bits :: "zstate \<Rightarrow> zstate" where
  "more_bits zs =
     (let n = zs_n_bits zs + 1 in
      zs\<lparr>zs_n_bits := n, zs_maxcode := (if n = zs_maxbits zs then zs_maxmaxcode zs else MAXCODE n)\<rparr>)"

definition clear_bits :: "zstate \<Rightarrow> zstate" where
  "clear_bits zs = zs\<lparr>zs_n_bits := INIT_BITS, zs_maxcode := MAXCODE INIT_BITS, zs_clear_flg := False\<rparr>"

text \<open>\<open>None\<close> is the code -1, the end.\<close>

definition output_code :: "nat option \<Rightarrow> zstate \<Rightarrow> zstate" where
  "output_code ocode zs =
     (case ocode of
        Some c \<Rightarrow>
          let zs = zs\<lparr>zs_buf := put_code (zs_n_bits zs) (zs_offset zs) c (zs_buf zs),
                      zs_offset := zs_offset zs + zs_n_bits zs\<rparr>;
              zs = (if zs_offset zs = zs_n_bits zs * 8
                    then (flush (zs_n_bits zs) zs)\<lparr>zs_offset := 0\<rparr> else zs)
          in if zs_free_ent zs > zs_maxcode zs \<or> zs_clear_flg zs
             then
               let zs = (if zs_offset zs > 0 then flush (zs_n_bits zs) zs else zs)\<lparr>zs_offset := 0\<rparr>
               in if zs_clear_flg zs then clear_bits zs else more_bits zs
             else zs
      | None \<Rightarrow>
          (if zs_offset zs > 0 then flush ((zs_offset zs + 7) div 8) zs else zs)\<lparr>zs_offset := 0\<rparr>)"

section \<open>Compression\<close>

text \<open>
  The probes of the hash table from slot \<open>i\<close> on, to the slot of \<open>fcode\<close> or an empty one.
\<close>

partial_function (option) probe ::
  "(nat \<Rightarrow> nat option) \<Rightarrow> nat \<Rightarrow> nat \<Rightarrow> nat \<Rightarrow> nat option"
where
  "probe tab fcode disp i =
     (if tab i = Some fcode \<or> tab i = None then Some i
      else probe tab fcode disp (if i < disp then i + HSIZE - disp else i - disp))"

definition cl_block :: "zstate \<Rightarrow> zstate" where
  "cl_block zs =
     (let zs = zs\<lparr>zs_checkpoint := zs_in_count zs + CHECK_GAP\<rparr>;
          rat = (if zs_in_count zs > 0x007fffff
                 then (let r = zs_bytes_out zs div 256 in
                       if r = 0 then 0x7fffffff else zs_in_count zs div r)
                 else zs_in_count zs * 256 div zs_bytes_out zs)
      in if rat > zs_ratio zs then zs\<lparr>zs_ratio := rat\<rparr>
         else output_code (Some CLEAR)
           (zs\<lparr>zs_ratio := 0, zs_htab := (\<lambda>i. None), zs_free_ent := FIRST, zs_clear_flg := True\<rparr>))"

text \<open>
  One character. The shift of the first probe is 8, since \<open>hsize\<close> is at least 65536 and the loop
  that lowers it for smaller tables does nothing.
\<close>

definition zwrite_char :: "byte \<Rightarrow> zstate \<Rightarrow> zstate option" where
  "zwrite_char ch zs =
     (let c = unat ch;
          zs = zs\<lparr>zs_in_count := zs_in_count zs + 1\<rparr>;
          fcode = push_bit (zs_maxbits zs) c + zs_ent zs;
          i = push_bit 8 c XOR zs_ent zs;
          disp = (if i = 0 then 1 else HSIZE - i)
      in Option.bind (probe (zs_htab zs) fcode disp i) (\<lambda>i.
           Some
             (if zs_htab zs i = Some fcode then zs\<lparr>zs_ent := zs_codetab zs i\<rparr>
              else
                let zs = (output_code (Some (zs_ent zs)) zs)\<lparr>zs_ent := c\<rparr> in
                if zs_free_ent zs < zs_maxmaxcode zs
                then zs\<lparr>zs_codetab := (zs_codetab zs)(i := zs_free_ent zs),
                        zs_free_ent := zs_free_ent zs + 1, zs_htab := (zs_htab zs)(i := Some fcode)\<rparr>
                else if zs_in_count zs \<ge> zs_checkpoint zs \<and> zs_block_compress zs \<noteq> 0
                then cl_block zs
                else zs)))"

primrec zwrite_loop :: "byte list \<Rightarrow> zstate \<Rightarrow> zstate option" where
  "zwrite_loop [] zs = Some zs"
| "zwrite_loop (c # cs) zs = Option.bind (zwrite_char c zs) (zwrite_loop cs)"

definition zwrite_start :: "byte \<Rightarrow> zstate \<Rightarrow> zstate" where
  "zwrite_start c zs =
     zs\<lparr>zs_state := S_MIDDLE, zs_maxmaxcode := 2 ^ zs_maxbits zs,
        fp_out := fp_out zs @ magic_header @ [word_of_nat (zs_maxbits zs) OR zs_block_compress zs],
        zs_offset := 0, zs_bytes_out := 3, zs_clear_flg := False, zs_ratio := 0, zs_in_count := 1,
        zs_checkpoint := CHECK_GAP, zs_n_bits := INIT_BITS, zs_maxcode := MAXCODE INIT_BITS,
        zs_free_ent := (if zs_block_compress zs \<noteq> 0 then FIRST else 256),
        zs_ent := unat c, zs_htab := (\<lambda>i. None)\<rparr>"

definition zwrite :: "byte list \<Rightarrow> zstate \<Rightarrow> zstate option" where
  "zwrite wbp zs =
     (case wbp of
        [] \<Rightarrow> Some zs
      | c # cs \<Rightarrow>
          if zs_state zs = S_MIDDLE then zwrite_loop wbp zs else zwrite_loop cs (zwrite_start c zs))"

definition zclose :: "zstate \<Rightarrow> byte list" where
  "zclose zs =
     (if zs_mode zs = CHR ''w'' then fp_out (output_code None (output_code (Some (zs_ent zs)) zs)) else fp_out zs)"

section \<open>Reading codes\<close>

text \<open>
  A byte of \<open>gbuf\<close>. For the last of eight codes of 16 bits the byte behind its end is read;
  the mask of its bits is 0 then.
\<close>

definition gbyte :: "byte list \<Rightarrow> nat \<Rightarrow> nat" where
  "gbyte gb i = (if i < length gb then unat (gb ! i) else 0)"

text \<open>The \<open>n\<close> bits from bit \<open>off\<close> on.\<close>

definition get_code :: "nat \<Rightarrow> nat \<Rightarrow> byte list \<Rightarrow> nat" where
  "get_code n off gb =
     (let i = off div 8; r = off mod 8;
          gcode = drop_bit r (gbyte gb i); i = i + 1;
          bits = n - (8 - r); r = 8 - r;
          (gcode, i, r, bits) =
            (if bits \<ge> 8 then (gcode OR push_bit r (gbyte gb i), i + 1, r + 8, bits - 8)
             else (gcode, i, r, bits))
      in gcode OR push_bit r (gbyte gb i AND unat (rmask ! bits)))"

definition new_width :: "zstate \<Rightarrow> zstate" where
  "new_width zs =
     (let zs = (if zs_free_ent zs > zs_maxcode zs then more_bits zs else zs)
      in if zs_clear_flg zs then clear_bits zs else zs)"

text \<open>The next buffer, after a change of the width; \<open>False\<close> at the end of the file.\<close>

definition refill :: "zstate \<Rightarrow> bool \<times> zstate" where
  "refill zs =
     (let zs = new_width zs;
          n = zs_n_bits zs;
          got = take n (fp_in zs);
          zs = zs\<lparr>zs_gbuf := got @ drop (length got) (zs_gbuf zs), fp_in := drop n (fp_in zs),
                  zs_size := int (length got)\<rparr>
      in if got = [] then (False, zs)
         else (True, zs\<lparr>zs_roffset := 0, zs_size := 8 * int (length got) - (int n - 1)\<rparr>))"

definition getcode :: "zstate \<Rightarrow> nat option \<times> zstate" where
  "getcode zs =
     (case (if zs_clear_flg zs \<or> int (zs_roffset zs) \<ge> zs_size zs \<or> zs_free_ent zs > zs_maxcode zs
            then refill zs else (True, zs)) of
        (False, zs) \<Rightarrow> (None, zs)
      | (True, zs) \<Rightarrow>
          (Some (get_code (zs_n_bits zs) (zs_roffset zs) (zs_gbuf zs)),
           zs\<lparr>zs_roffset := zs_roffset zs + zs_n_bits zs\<rparr>))"

section \<open>Decompression\<close>

text \<open>The characters of a code, pushed on the stack from the last one to the second.\<close>

partial_function (option) unwind ::
  "(nat \<Rightarrow> nat) \<Rightarrow> (nat \<Rightarrow> byte) \<Rightarrow> nat \<Rightarrow> byte list \<Rightarrow> (nat \<times> byte list) option"
where
  "unwind prefix suffix c st =
     (if c \<ge> 256 then unwind prefix suffix (prefix c) (suffix c # st) else Some (c, st))"

text \<open>
  From the stack to the reader, at most \<open>count\<close> characters: the count left, the characters and
  the stack left.
\<close>

fun put_out :: "nat \<Rightarrow> byte list \<Rightarrow> nat \<times> byte list \<times> byte list" where
  "put_out count [] = (count, [], [])"
| "put_out 0 (x # st) = (0, [], x # st)"
| "put_out (Suc count) (x # st) = (case put_out count st of (n, out, st) \<Rightarrow> (n, x # out, st))"

definition new_entry :: "zstate \<Rightarrow> zstate" where
  "new_entry zs =
     (let c = zs_free_ent zs in
      case zs_oldcode zs of
        Some old \<Rightarrow>
          if c < zs_maxmaxcode zs
          then zs\<lparr>tab_prefix := (tab_prefix zs)(c := old), tab_suffix := (tab_suffix zs)(c := zs_finchar zs),
                  zs_free_ent := c + 1\<rparr>
          else zs
      | None \<Rightarrow> zs)"

definition read_clear :: "zstate \<Rightarrow> zstate" where
  "read_clear zs =
     zs\<lparr>tab_prefix := (\<lambda>i. if i < 256 then 0 else tab_prefix zs i), zs_clear_flg := True,
        zs_free_ent := FIRST, zs_oldcode := None\<rparr>"

text \<open>
  The loop of \<open>zread\<close>, entered at the next code or, with \<open>middle\<close>, where the characters of a
  code are put out; the reader gets the characters or an error.
\<close>

partial_function (option) zread_loop ::
  "bool \<Rightarrow> nat \<Rightarrow> zstate \<Rightarrow> ((zerror + byte list) \<times> zstate) option"
where
  "zread_loop middle count zs =
     (if middle then
        if zs_stack zs = [] then Some (if count = 0 then Inr [] else Inl Underflow, zs)
        else
          (case put_out count (zs_stack zs) of (count, out, st) \<Rightarrow>
             if st \<noteq> [] then Some (Inr out, zs\<lparr>zs_stack := st\<rparr>)
             else
               Option.bind
                 (zread_loop False count
                   ((new_entry (zs\<lparr>zs_stack := []\<rparr>))\<lparr>zs_oldcode := Some (zs_incode zs)\<rparr>))
                 (\<lambda>(r, zs). Some (rmap (\<lambda>more. out @ more) r, zs)))
      else
        (case getcode zs of
           (None, zs) \<Rightarrow> Some (Inr [], zs\<lparr>zs_state := S_EOF\<rparr>)
         | (Some c, zs) \<Rightarrow>
             if c = CLEAR \<and> zs_block_compress zs \<noteq> 0 then zread_loop False count (read_clear zs)
             else if c \<ge> zs_free_ent zs \<and> (c > zs_free_ent zs \<or> zs_oldcode zs = None)
             then Some (Inl EINVAL, zs\<lparr>zs_incode := c\<rparr>)
             else
               Option.bind
                 (if c \<ge> zs_free_ent zs
                  then unwind (tab_prefix zs) (tab_suffix zs) (the (zs_oldcode zs)) (zs_finchar zs # zs_stack zs)
                  else unwind (tab_prefix zs) (tab_suffix zs) c (zs_stack zs))
                 (\<lambda>(k, st).
                    zread_loop True count
                      (zs\<lparr>zs_incode := c, zs_finchar := tab_suffix zs k, zs_stack := tab_suffix zs k # st\<rparr>))))"

declare probe.simps [code] unwind.simps [code] zread_loop.simps [code]

text \<open>The header, and the state before the first code.\<close>

definition zread_start :: "zstate \<Rightarrow> zerror + zstate" where
  "zread_start zs =
     (let header = take 3 (fp_in zs);
          zs = zs\<lparr>zs_state := S_MIDDLE, fp_in := drop 3 (fp_in zs)\<rparr>
      in if length header \<noteq> 3 \<or> take 2 header \<noteq> magic_header then Inl EINVAL
         else
           let maxb = unat (header ! 2 AND BIT_MASK);
               zs = zs\<lparr>zs_block_compress := header ! 2 AND BLOCK_MASK, zs_maxbits := maxb,
                       zs_maxmaxcode := 2 ^ maxb\<rparr>
           in if maxb > BITS \<or> maxb < 12 then Inl EINVAL
              else
                Inr (zs\<lparr>zs_n_bits := INIT_BITS, zs_maxcode := MAXCODE INIT_BITS,
                  tab_prefix := (\<lambda>i. if i < 256 then 0 else tab_prefix zs i),
                  tab_suffix := (\<lambda>i. if i < 256 then word_of_nat i else tab_suffix zs i),
                  zs_free_ent := (if zs_block_compress zs \<noteq> 0 then FIRST else 256),
                  zs_oldcode := None, zs_stack := []\<rparr>))"

definition zread :: "nat \<Rightarrow> zstate \<Rightarrow> ((zerror + byte list) \<times> zstate) option" where
  "zread num zs =
     (if num = 0 then Some (Inr [], zs)
      else
        case zs_state zs of
          S_START \<Rightarrow>
            (case zread_start zs of
               Inl e \<Rightarrow> Some (Inl e, zs\<lparr>zs_state := S_MIDDLE\<rparr>)
             | Inr zs \<Rightarrow> zread_loop False num zs)
        | S_MIDDLE \<Rightarrow> zread_loop True num zs
        | S_EOF \<Rightarrow> Some (Inr [], zs))"

section \<open>A file compressed and decompressed\<close>

text \<open>
  The calls of \<open>compress.c\<close>: a file is written in chunks of any sizes, and read in requests of
  any sizes until one fails.
\<close>

primrec zwrites :: "byte list list \<Rightarrow> zstate \<Rightarrow> zstate option" where
  "zwrites [] zs = Some zs"
| "zwrites (w # ws) zs = Option.bind (zwrite w zs) (zwrites ws)"

definition compress :: "nat \<Rightarrow> byte list list \<Rightarrow> (zerror + byte list) option" where
  "compress bits chunks =
     (case zopen ''w'' bits [] of
        Inl e \<Rightarrow> Some (Inl e)
      | Inr zs \<Rightarrow> Option.bind (zwrites chunks zs) (\<lambda>zs. Some (Inr (zclose zs))))"

primrec zreads :: "nat list \<Rightarrow> zstate \<Rightarrow> (zerror + byte list) option" where
  "zreads [] zs = Some (Inr [])"
| "zreads (n # ns) zs =
     Option.bind (zread n zs) (\<lambda>(r, zs).
       case r of
         Inl e \<Rightarrow> Some (Inl e)
       | Inr out \<Rightarrow> Option.bind (zreads ns zs) (\<lambda>r. Some (rmap (\<lambda>more. out @ more) r)))"

definition decompress :: "byte list \<Rightarrow> nat list \<Rightarrow> (zerror + byte list) option" where
  "decompress file ns =
     (case zopen ''r'' 0 file of Inl e \<Rightarrow> Some (Inl e) | Inr zs \<Rightarrow> zreads ns zs)"

end
