(* ===== verification/LzwTable.thy ===== *)
theory LzwTable
  imports Lzw
begin

text \<open>
  The hash table of \<open>zwrite\<close>, with open addressing, as a dictionary from pairs of a code and a
  character to codes: the contract as a locale, and the probes of the code as its interpretation.
\<close>

section \<open>Dictionaries\<close>

lemma snoc_index:
  "(\<exists>i<Suc (length ks). (ks @ [k]) ! i = k' \<and> P i) \<longleftrightarrow>
     (\<exists>i<length ks. ks ! i = k' \<and> P i) \<or> k = k' \<and> P (length ks)"
  unfolding Ex_less_Suc by (simp add: nth_append cong: conj_cong) blast

text \<open>
  The contract: a table \<open>ok\<close> with \<open>n\<close> entries takes another one while there is room; nothing is
  overwritten. Keys are those for which \<open>key\<close> holds.
\<close>

locale dictionary =
  fixes find_in :: "'t \<Rightarrow> 'k \<Rightarrow> nat option" and enter :: "'k \<Rightarrow> nat \<Rightarrow> 't \<Rightarrow> 't" and emp :: 't
    and key :: "'k \<Rightarrow> bool" and ok :: "'t \<Rightarrow> nat \<Rightarrow> bool" and cap :: nat
  assumes ok_emp: "ok emp 0"
    and find_emp: "key k \<Longrightarrow> find_in emp k = None"
    and ok_enter: "ok t n \<Longrightarrow> n < cap \<Longrightarrow> key k \<Longrightarrow> find_in t k = None \<Longrightarrow> ok (enter k v t) (Suc n)"
    and find_enter: "ok t n \<Longrightarrow> n < cap \<Longrightarrow> key k \<Longrightarrow> find_in t k = None \<Longrightarrow> key k' \<Longrightarrow>
      find_in (enter k v t) k' = (if k' = k then Some v else find_in t k')"
begin

text \<open>A table that numbers the entries of a list from \<open>b\<close> on.\<close>

definition numbers :: "nat \<Rightarrow> 't \<Rightarrow> 'k list \<Rightarrow> bool" where
  "numbers b t ks \<longleftrightarrow>
     ok t (length ks) \<and> distinct ks \<and> (\<forall>k\<in>set ks. key k) \<and>
     (\<forall>k v. key k \<longrightarrow> (find_in t k = Some v \<longleftrightarrow> (\<exists>i<length ks. ks ! i = k \<and> v = b + i)))"

lemma numbers_empty: "numbers b emp []"
  by (simp add: numbers_def ok_emp find_emp)

lemma numbers_find: "numbers b t ks \<Longrightarrow> key k \<Longrightarrow> find_in t k = Some v \<Longrightarrow> b \<le> v \<and> v < b + length ks \<and> ks ! (v - b) = k"
  by (auto simp: numbers_def)

lemma numbers_enter:
  assumes n: "numbers b t ks" and r: "length ks < cap" and k: "key k" "find_in t k = None"
  shows "numbers b (enter k (b + length ks) t) (ks @ [k])"
proof -
  have ok: "ok t (length ks)" using n by (simp add: numbers_def)
  have new: "k \<notin> set ks"
  proof
    assume "k \<in> set ks"
    then obtain i where "i < length ks" "ks ! i = k" by (auto simp: in_set_conv_nth)
    with n k have "find_in t k = Some (b + i)" unfolding numbers_def by blast
    with k(2) show False by simp
  qed
  have snoc: "(\<exists>i<length (ks @ [k]). (ks @ [k]) ! i = k' \<and> v = b + i) \<longleftrightarrow>
      (\<exists>i<length ks. ks ! i = k' \<and> v = b + i) \<or> k = k' \<and> v = b + length ks" for k' v
    using snoc_index [of ks k k' "\<lambda>i. v = b + i"] by simp
  have "find_in (enter k (b + length ks) t) k' = Some v \<longleftrightarrow>
      (\<exists>i<length (ks @ [k]). (ks @ [k]) ! i = k' \<and> v = b + i)" if k': "key k'" for k' v
  proof (cases "k' = k")
    case True
    have "\<not> (\<exists>i<length ks. ks ! i = k \<and> v = b + i)" using new by (metis nth_mem)
    with True show ?thesis unfolding snoc using find_enter [OF ok r k k(1)] by auto
  next
    case False
    with n k' show ?thesis unfolding snoc using find_enter [OF ok r k k'] by (simp add: numbers_def)
  qed
  with n new k ok_enter [OF ok r k] show ?thesis by (simp add: numbers_def)
qed

end

section \<open>The probes\<close>

definition nxt :: "nat \<Rightarrow> nat \<Rightarrow> nat" where
  "nxt d i = (if i < d then i + HSIZE - d else i - d)"

definition slot :: "nat \<Rightarrow> nat \<Rightarrow> nat \<Rightarrow> nat" where
  "slot d i k = (nxt d ^^ k) i"

lemma slot_simps: "slot d i 0 = i" "slot d i (Suc k) = slot d (nxt d i) k"
  by (simp_all add: slot_def funpow_swap1)

lemma slot_less: "i < HSIZE \<Longrightarrow> 0 < d \<Longrightarrow> d \<le> HSIZE \<Longrightarrow> slot d i k < HSIZE"
  by (induction k arbitrary: i) (auto simp: slot_simps nxt_def)

lemma slot_mod:
  "0 < d \<Longrightarrow> d \<le> HSIZE \<Longrightarrow> i < HSIZE \<Longrightarrow> \<exists>m. int (slot d i k) = int i - int k * int d + m * int HSIZE"
proof (induction k arbitrary: i)
  case (Suc k)
  have "nxt d i < HSIZE" "\<exists>a. int (nxt d i) = int i - int d + a * int HSIZE"
    using Suc.prems by (auto simp: nxt_def of_nat_diff intro: exI [of _ 1] exI [of _ 0])
  then obtain a where a: "nxt d i < HSIZE" "int (nxt d i) = int i - int d + a * int HSIZE" by blast
  from Suc.IH [OF Suc.prems(1,2) a(1)] obtain m where
    "int (slot d (nxt d i) k) = int (nxt d i) - int k * int d + m * int HSIZE" by blast
  with a(2) have "int (slot d i (Suc k)) = int i - int (Suc k) * int d + (m + a) * int HSIZE"
    by (simp add: slot_simps algebra_simps)
  then show ?case by blast
qed (auto simp: slot_simps intro: exI [of _ 0])

text \<open>\<open>HSIZE\<close> is a prime, so the probes reach every slot.\<close>

lemma HSIZE_no_divisor: "1 < q \<Longrightarrow> q < HSIZE \<Longrightarrow> \<not> q dvd HSIZE"
proof
  assume q: "1 < q" "q < HSIZE" "q dvd HSIZE"
  have small: "\<not> r dvd HSIZE" if "1 < r" "r < 263" for r :: nat
  proof -
    have "list_all (\<lambda>r. HSIZE mod r \<noteq> 0) [2..<263]" by simp
    then have "HSIZE mod r \<noteq> 0"
      unfolding list_all_iff by (rule bspec) (use that in \<open>simp only: set_upt atLeastLessThan_iff\<close>, simp)
    then show ?thesis by (simp add: dvd_eq_mod_eq_0)
  qed
  obtain r where r: "HSIZE = q * r" using q(3) by blast
  show False
  proof (cases "q < 263")
    case True
    with small q show False by blast
  next
    case False
    have "r < 263"
    proof (rule ccontr)
      assume "\<not> r < 263"
      then have "263 * 263 \<le> q * r" using False by (intro mult_le_mono) simp_all
      with r show False by simp
    qed
    moreover have "1 < r" using r q(2) by (cases "r \<le> 1") (auto simp: le_Suc_eq)
    ultimately show False using small [of r] r by simp
  qed
qed

lemma coprime_HSIZE: "0 < d \<Longrightarrow> d < HSIZE \<Longrightarrow> coprime d HSIZE"
proof -
  assume d: "0 < d" "d < HSIZE"
  have "gcd d HSIZE \<le> d" using d by (simp add: gcd_le1_nat)
  then have "\<not> 1 < gcd d HSIZE" using HSIZE_no_divisor [of "gcd d HSIZE"] d gcd_dvd2 [of d HSIZE] by linarith
  moreover have "gcd d HSIZE \<noteq> 0" by simp
  ultimately have "gcd d HSIZE = 1" by linarith
  then show ?thesis by (simp add: coprime_iff_gcd_eq_1)
qed

lemma slot_inj:
  assumes "0 < d" "d < HSIZE" "i < HSIZE"
  shows "inj_on (slot d i) {..<HSIZE}"
proof (rule linorder_inj_onI)
  fix k l
  assume kl: "k < l" "k \<in> {..<HSIZE}" "l \<in> {..<HSIZE}"
  show "slot d i k \<noteq> slot d i l"
  proof
    assume e: "slot d i k = slot d i l"
    obtain m where m: "int (slot d i k) = int i - int k * int d + m * int HSIZE"
      using slot_mod [of d i k] assms by auto
    obtain m' where m': "int (slot d i l) = int i - int l * int d + m' * int HSIZE"
      using slot_mod [of d i l] assms by auto
    have "int (l - k) * int d = (m' - m) * int HSIZE"
      using e m m' kl(1) by (simp add: of_nat_diff algebra_simps)
    then have "int HSIZE dvd int (l - k) * int d" by simp
    then have "HSIZE dvd (l - k) * d" by (metis int_dvd_int_iff of_nat_mult)
    moreover have "coprime HSIZE d" using coprime_HSIZE [OF assms(1,2)] by (simp add: coprime_commute)
    ultimately have "HSIZE dvd l - k" using coprime_dvd_mult_left_iff by blast
    with kl show False by (auto dest: dvd_imp_le)
  qed
qed auto

lemma slot_surj:
  assumes "0 < d" "d < HSIZE" "i < HSIZE" "j < HSIZE"
  shows "\<exists>k. slot d i k = j"
proof -
  have "slot d i ` {..<HSIZE} \<subseteq> {..<HSIZE}" using slot_less [of i d] assms by auto
  moreover have "card (slot d i ` {..<HSIZE}) = card {..<HSIZE}" by (rule card_image [OF slot_inj [OF assms(1-3)]])
  ultimately have "slot d i ` {..<HSIZE} = {..<HSIZE}" by (intro card_subset_eq) simp_all
  then have "j \<in> slot d i ` {..<HSIZE}" using assms(4) by simp
  then show ?thesis by blast
qed

lemma probe_slot:
  "(tab (slot d i k) = Some f \<or> tab (slot d i k) = None) \<Longrightarrow>
   (\<And>m. m < k \<Longrightarrow> tab (slot d i m) \<noteq> Some f \<and> tab (slot d i m) \<noteq> None) \<Longrightarrow>
   probe tab f d i = Some (slot d i k)"
proof (induction k arbitrary: i)
  case 0
  then show ?case by (subst probe.simps) (simp add: slot_simps)
next
  case (Suc k)
  have "tab i \<noteq> Some f \<and> tab i \<noteq> None" using Suc.prems(2) [of 0] by (simp add: slot_simps)
  then have "probe tab f d i = probe tab f d (nxt d i)" 
    by (subst probe.simps) (auto simp: nxt_def)
  also have "\<dots> = Some (slot d (nxt d i) k)"
    using Suc.prems(1) Suc.prems(2) [of "Suc m" for m] by (intro Suc.IH) (simp_all add: slot_simps)
  finally show ?case by (simp add: slot_simps)
qed

section \<open>The table of codes\<close>

definition fcode_of :: "nat \<Rightarrow> nat \<times> byte \<Rightarrow> nat" where
  "fcode_of mb k = push_bit mb (unat (snd k)) + fst k"

definition start_of :: "nat \<times> byte \<Rightarrow> nat" where
  "start_of k = push_bit 8 (unat (snd k)) XOR fst k"

definition disp_of :: "nat \<times> byte \<Rightarrow> nat" where
  "disp_of k = (if start_of k = 0 then 1 else HSIZE - start_of k)"

definition key_ok :: "nat \<Rightarrow> nat \<times> byte \<Rightarrow> bool" where
  "key_ok mb k \<longleftrightarrow> fst k < 2 ^ mb \<and> mb \<le> BITS"

abbreviation kslot :: "nat \<times> byte \<Rightarrow> nat \<Rightarrow> nat" where
  "kslot k \<equiv> slot (disp_of k) (start_of k)"

lemma start_of_less:
  assumes "key_ok mb k" shows "start_of k < 65536"
proof -
  have "fst k < 2 ^ 16"
    using assms power_increasing [of mb 16 "2::nat"] by (auto simp: key_ok_def)
  moreover have "push_bit 8 (unat (snd k)) < 2 ^ 16"
    using unsigned_less [of "snd k"] by (simp add: push_bit_eq_mult)
  ultimately have "take_bit 16 (start_of k) = start_of k"
    by (simp add: start_of_def take_bit_xor take_bit_nat_eq_self)
  then have "start_of k < 2 ^ 16" by (metis take_bit_nat_less_exp)
  then show ?thesis by simp
qed

lemma key_slots:
  assumes "key_ok mb k"
  shows "start_of k < HSIZE" "0 < disp_of k" "disp_of k < HSIZE" "kslot k m < HSIZE" "j < HSIZE \<Longrightarrow> \<exists>m. kslot k m = j"
proof -
  show s: "start_of k < HSIZE" "0 < disp_of k" "disp_of k < HSIZE"
    using start_of_less [OF assms] by (auto simp: disp_of_def)
  show "kslot k m < HSIZE" using slot_less s by simp
  show "j < HSIZE \<Longrightarrow> \<exists>m. kslot k m = j" using slot_surj s by simp
qed

lemma fcode_inj:
  assumes "key_ok mb k" "key_ok mb k'" "fcode_of mb k = fcode_of mb k'" shows "k = k'"
proof -
  have d: "fcode_of mb x div 2 ^ mb = unat (snd x)" "fcode_of mb x mod 2 ^ mb = fst x" if "key_ok mb x" for x
    using that by (simp_all add: key_ok_def fcode_of_def push_bit_eq_mult)
  have "snd k = snd k'" using d(1) [OF assms(1)] d(1) [OF assms(2)] assms(3) by (metis unsigned_word_eqI)
  moreover have "fst k = fst k'" using d(2) [OF assms(1)] d(2) [OF assms(2)] assms(3) by simp
  ultimately show ?thesis by (simp add: prod_eq_iff)
qed

type_synonym ztable = "(nat \<Rightarrow> nat option) \<times> (nat \<Rightarrow> nat)"

definition zprobe :: "nat \<Rightarrow> ztable \<Rightarrow> nat \<times> byte \<Rightarrow> nat option" where
  "zprobe mb t k = probe (fst t) (fcode_of mb k) (disp_of k) (start_of k)"

definition zfind :: "nat \<Rightarrow> ztable \<Rightarrow> nat \<times> byte \<Rightarrow> nat option" where
  "zfind mb t k =
     (case zprobe mb t k of
        Some i \<Rightarrow> if fst t i = Some (fcode_of mb k) then Some (snd t i) else None
      | None \<Rightarrow> None)"

definition zenter :: "nat \<Rightarrow> nat \<times> byte \<Rightarrow> nat \<Rightarrow> ztable \<Rightarrow> ztable" where
  "zenter mb k v t =
     (case zprobe mb t k of
        Some i \<Rightarrow> ((fst t)(i := Some (fcode_of mb k)), (snd t)(i := v)) | None \<Rightarrow> t)"

definition zempty :: ztable where
  "zempty = ((\<lambda>i. None), (\<lambda>i. 0))"

text \<open>
  Each entry lies on the way of its key, behind occupied slots that do not hold the key.
\<close>

definition placed :: "nat \<Rightarrow> ztable \<Rightarrow> nat \<times> byte \<Rightarrow> nat \<Rightarrow> bool" where
  "placed mb t k j \<longleftrightarrow>
     key_ok mb k \<and>
     (\<exists>m. j = kslot k m \<and> (\<forall>l<m. fst t (kslot k l) \<noteq> None \<and> fst t (kslot k l) \<noteq> Some (fcode_of mb k)))"

definition zok :: "nat \<Rightarrow> ztable \<Rightarrow> nat \<Rightarrow> bool" where
  "zok mb t n \<longleftrightarrow>
     card {j. fst t j \<noteq> None} \<le> n \<and> finite {j. fst t j \<noteq> None} \<and>
     (\<forall>j f. fst t j = Some f \<longrightarrow> (\<exists>k. f = fcode_of mb k \<and> placed mb t k j))"

lemma zokD:
  assumes "zok mb t n" shows "card {j. fst t j \<noteq> None} \<le> n" "finite {j. fst t j \<noteq> None}"
    and "fst t j = Some f \<Longrightarrow> \<exists>k. f = fcode_of mb k \<and> placed mb t k j"
  using assms unfolding zok_def by blast+

lemma placedD:
  assumes "placed mb t k j"
  obtains m where "key_ok mb k" "j = kslot k m"
    "\<And>l. l < m \<Longrightarrow> fst t (kslot k l) \<noteq> None \<and> fst t (kslot k l) \<noteq> Some (fcode_of mb k)"
  using assms unfolding placed_def by blast

lemma zprobe_exists:
  assumes t: "zok mb t n" "n < HSIZE" and k: "key_ok mb k"
  obtains m where "zprobe mb t k = Some (kslot k m)"
    "fst t (kslot k m) = Some (fcode_of mb k) \<or> fst t (kslot k m) = None"
    "\<And>l. l < m \<Longrightarrow> fst t (kslot k l) \<noteq> None \<and> fst t (kslot k l) \<noteq> Some (fcode_of mb k)"
proof -
  have "\<not> {..<HSIZE} \<subseteq> {j. fst t j \<noteq> None}"
  proof
    assume "{..<HSIZE} \<subseteq> {j. fst t j \<noteq> None}"
    then have "card {..<HSIZE} \<le> card {j. fst t j \<noteq> None}" by (intro card_mono zokD(2) [OF t(1)])
    with t(2) zokD(1) [OF t(1)] show False by simp
  qed
  then obtain j where "j < HSIZE" "fst t j = None" by auto
  with key_slots(5) [OF k] obtain m0 where "fst t (kslot k m0) = None" by metis
  let ?P = "\<lambda>m. fst t (kslot k m) = Some (fcode_of mb k) \<or> fst t (kslot k m) = None"
  have P: "?P (LEAST m. ?P m)" 
    by (rule LeastI [of ?P m0]) (rule disjI2, fact)
  have N: "\<not> ?P l" if "l < (LEAST m. ?P m)" for l using that by (rule not_less_Least)
  show ?thesis
  proof (rule that [of "LEAST m. ?P m"])
    show "zprobe mb t k = Some (kslot k (LEAST m. ?P m))"
      unfolding zprobe_def by (rule probe_slot) (use P N in blast)+
  qed (use P N in blast)+
qed

lemma zfind_placed:
  assumes t: "zok mb t n" "n < HSIZE" and k: "key_ok mb k"
  shows "zfind mb t k = Some v \<longleftrightarrow> (\<exists>j. fst t j = Some (fcode_of mb k) \<and> snd t j = v)"
proof -
  obtain m where m: "zprobe mb t k = Some (kslot k m)"
    "fst t (kslot k m) = Some (fcode_of mb k) \<or> fst t (kslot k m) = None"
    "\<And>l. l < m \<Longrightarrow> fst t (kslot k l) \<noteq> None \<and> fst t (kslot k l) \<noteq> Some (fcode_of mb k)"
    using zprobe_exists [OF t k] by blast
  have only: "fst t (kslot k m) = Some (fcode_of mb k) \<and> j = kslot k m"
    if j: "fst t j = Some (fcode_of mb k)" for j
  proof -
    obtain k' where k': "fcode_of mb k = fcode_of mb k'" "placed mb t k' j" using zokD(3) [OF t(1) j] by blast
    then have "k' = k" using fcode_inj [OF k, of k'] by (metis placed_def)
    with k'(2) obtain m' where m': "j = kslot k m'"
      "\<And>l. l < m' \<Longrightarrow> fst t (kslot k l) \<noteq> None \<and> fst t (kslot k l) \<noteq> Some (fcode_of mb k)"
      using placedD by metis
    consider "m < m'" | "m' < m" | "m = m'" by linarith
    then show ?thesis
    proof cases
      case 1
      then show ?thesis using m(2) m'(2) by blast
    next
      case 2
      then show ?thesis using m(3) m'(1) j by blast
    next
      case 3
      then show ?thesis using m'(1) j by simp
    qed
  qed
  show ?thesis
  proof (cases "fst t (kslot k m) = Some (fcode_of mb k)")
    case True
    then have "zfind mb t k = Some (snd t (kslot k m))" using m(1) by (simp add: zfind_def)
    with True only show ?thesis by (metis option.inject)
  next
    case False
    then have "zfind mb t k = None" using m(1) by (simp add: zfind_def)
    with False only show ?thesis by (metis option.distinct(1))
  qed
qed

lemma zok_enter:
  assumes t: "zok mb t n" "n < HSIZE" and k: "key_ok mb k" "zfind mb t k = None"
  obtains j where "zenter mb k v t = ((fst t)(j := Some (fcode_of mb k)), (snd t)(j := v))"
    "fst t j = None" "zok mb (zenter mb k v t) (Suc n)" "zprobe mb t k = Some j"
proof -
  obtain m where m: "zprobe mb t k = Some (kslot k m)"
    "fst t (kslot k m) = Some (fcode_of mb k) \<or> fst t (kslot k m) = None"
    "\<And>l. l < m \<Longrightarrow> fst t (kslot k l) \<noteq> None \<and> fst t (kslot k l) \<noteq> Some (fcode_of mb k)"
    using zprobe_exists [OF t k(1)] by blast
  let ?j = "kslot k m"
  have none: "fst t ?j = None" using k(2) m(1,2) by (auto simp: zfind_def)
  have e: "zenter mb k v t = ((fst t)(?j := Some (fcode_of mb k)), (snd t)(?j := v))"
    using m(1) by (simp add: zenter_def)
  have "{j. fst (zenter mb k v t) j \<noteq> None} = insert ?j {j. fst t j \<noteq> None}" by (auto simp: e)
  then have c: "card {j. fst (zenter mb k v t) j \<noteq> None} \<le> Suc n" "finite {j. fst (zenter mb k v t) j \<noteq> None}"
    using zokD(1,2) [OF t(1)] none by simp_all
  have keep: "placed mb (zenter mb k v t) k' j" if p: "placed mb t k' j" for k' j
  proof -
    obtain m' where m': "key_ok mb k'" "j = kslot k' m'"
      "\<And>l. l < m' \<Longrightarrow> fst t (kslot k' l) \<noteq> None \<and> fst t (kslot k' l) \<noteq> Some (fcode_of mb k')"
      using placedD [OF p] by blast
    have "kslot k' l \<noteq> ?j" if "l < m'" for l using m'(3) [OF that] none by metis
    with m' show ?thesis unfolding placed_def e by (intro conjI exI [of _ m']) auto
  qed
  have new: "placed mb (zenter mb k v t) k ?j"
  proof -
    have "kslot k l \<noteq> ?j" if "l < m" for l using m(3) that none by metis
    with m(3) k(1) show ?thesis unfolding placed_def e by (intro conjI exI [of _ m]) auto
  qed
  have "zok mb (zenter mb k v t) (Suc n)"
    unfolding zok_def
  proof (intro conjI allI impI)
    fix j f
    assume "fst (zenter mb k v t) j = Some f"
    then have "j = ?j \<and> f = fcode_of mb k \<or> fst t j = Some f" by (auto simp: e split: if_splits)
    then show "\<exists>k'. f = fcode_of mb k' \<and> placed mb (zenter mb k v t) k' j"
      using new keep zokD(3) [OF t(1)] by metis
  qed (use c in simp_all)
  with e none m(1) that show ?thesis by blast
qed

interpretation ztab: dictionary "zfind mb" "zenter mb" zempty "key_ok mb" "zok mb" "HSIZE - 1" for mb
proof
  show "zok mb zempty 0" by (simp add: zok_def zempty_def)
next
  fix k
  show "zfind mb zempty k = None"
    by (simp add: zfind_def zempty_def split: option.split)
next
  fix t n k v
  assume t: "zok mb t n" "n < HSIZE - 1" "key_ok mb k" "zfind mb t k = None"
  then have n: "n < HSIZE" by simp
  from zok_enter [OF t(1) n t(3,4), of v] show "zok mb (zenter mb k v t) (Suc n)" by blast
next
  fix t n k v k'
  assume t: "zok mb t n" "n < HSIZE - 1" "key_ok mb k" "zfind mb t k = None" and k': "key_ok mb k'"
  then have n: "n < HSIZE" "Suc n < HSIZE" by simp_all
  let ?t = "zenter mb k v t"
  obtain j where j: "?t = ((fst t)(j := Some (fcode_of mb k)), (snd t)(j := v))"
    "fst t j = None" "zok mb ?t (Suc n)"
    using zok_enter [OF t(1) n(1) t(3,4), of v] by blast
  note old = zfind_placed [OF t(1) n(1) k'] and new = zfind_placed [OF j(3) n(2) k']
  show "zfind mb ?t k' = (if k' = k then Some v else zfind mb t k')"
  proof (cases "k' = k")
    case True
    have "zfind mb ?t k = Some v"
      using new [of v] True j(1) by (metis fst_conv snd_conv fun_upd_same)
    with True show ?thesis by simp
  next
    case False
    then have "fcode_of mb k' \<noteq> fcode_of mb k" using fcode_inj [OF k' t(3)] by blast
    then have "fst ?t i = Some (fcode_of mb k') \<and> snd ?t i = w \<longleftrightarrow>
        fst t i = Some (fcode_of mb k') \<and> snd t i = w" for i w
      using j(1,2) by (cases "i = j") auto
    then have "zfind mb ?t k' = Some w \<longleftrightarrow> zfind mb t k' = Some w" for w using old new by simp
    then show ?thesis using False by (metis not_None_eq)
  qed
qed

end
