(* ===== verification/LzwBits.thy ===== *)
theory LzwBits
  imports Lzw
begin

text \<open>
  The packing of codes: what \<open>put_code\<close> stores is what \<open>get_code\<close> reads, and what a file holds
  when codes of changing widths have been written to it.
\<close>

section \<open>Bits of a buffer\<close>

definition bitat :: "byte list \<Rightarrow> nat \<Rightarrow> bool" where
  "bitat bs k = (k div 8 < length bs \<and> bit (bs ! (k div 8)) (k mod 8))"

lemma split8: "x = 8 * q + m \<Longrightarrow> m < 8 \<Longrightarrow> x div 8 = q" "x = 8 * q + m \<Longrightarrow> m < 8 \<Longrightarrow> x mod 8 = (m :: nat)"
  by simp_all

lemma rmask_nth: "r \<le> 8 \<Longrightarrow> rmask ! r = mask r"
proof -
  assume "r \<le> 8"
  then have "r \<in> {0, 1, 2, 3, 4, 5, 6, 7, 8}" by auto
  then show ?thesis by (auto simp: rmask_def mask_eq_exp_minus_1)
qed

lemma lmask_nth: "r \<le> 8 \<Longrightarrow> lmask ! r = NOT (mask r)"
proof -
  assume "r \<le> 8"
  then have "r \<in> {0, 1, 2, 3, 4, 5, 6, 7, 8}" by auto
  then show ?thesis by (auto simp: lmask_def mask_eq_exp_minus_1)
qed

lemma bit_gbyte: "bit (gbyte gb i) m \<longleftrightarrow> m < 8 \<and> bitat gb (8 * i + m)"
proof (cases "m < 8")
  case True
  then have "(8 * i + m) div 8 = i" "(8 * i + m) mod 8 = m" by simp_all
  with True show ?thesis by (simp add: gbyte_def bitat_def bit_unsigned_iff)
next
  case False
  then show ?thesis by (auto simp: gbyte_def bit_unsigned_iff dest: bit_imp_le_length)
qed

lemma get_code_bits:
  assumes n: "9 \<le> n" "n \<le> 16"
  shows "bit (get_code n off gb) j \<longleftrightarrow> j < n \<and> bitat gb (off + j)"
proof -
  define i where "i = off div 8"
  define r where "r = off mod 8"
  have off: "off = 8 * i + r" "r < 8" by (simp_all add: i_def r_def)
  have first: "bit (drop_bit r (gbyte gb i)) j \<longleftrightarrow> j < 8 - r \<and> bitat gb (off + j)"
    using off by (auto simp: bit_drop_bit_eq bit_gbyte add.assoc)
  have idx: "8 * (i + k) + (j - m) = off + j" if "m + r = 8 * k" "m \<le> j" for k m
    using that off by simp
  have byte: "bit (push_bit m (gbyte gb (i + k))) j \<longleftrightarrow> m \<le> j \<and> j < m + 8 \<and> bitat gb (off + j)"
    if "m + r = 8 * k" for k m
    unfolding bit_push_bit_iff_nat bit_gbyte using idx [OF that] by (cases "m \<le> j") auto
  have last: "bit (push_bit m (gbyte gb (i + k) AND unat (rmask ! b))) j \<longleftrightarrow>
      m \<le> j \<and> j < m + b \<and> bitat gb (off + j)" if "m + r = 8 * k" "b < 8" for k m b
  proof -
    have mask: "bit (unat (rmask ! b)) x \<longleftrightarrow> x < b" for x
      using that(2) by (auto simp: rmask_nth bit_unsigned_iff bit_mask_iff)
    have "m \<le> j \<and> j - m < 8 \<and> j - m < b \<longleftrightarrow> m \<le> j \<and> j < m + b" using that(2) by linarith
    then show ?thesis
      unfolding bit_push_bit_iff_nat bit_and_iff bit_gbyte mask using idx [OF that(1)] by metis
  qed
  show ?thesis
  proof (cases "n - (8 - r) \<ge> 8")
    case True
    then have "get_code n off gb = (drop_bit r (gbyte gb i) OR push_bit (8 - r) (gbyte gb (i + 1))) OR
        push_bit (8 - r + 8) (gbyte gb (i + 2) AND unat (rmask ! (n - (8 - r) - 8)))"
      by (simp add: get_code_def Let_def i_def r_def)
    moreover have "n - (8 - r) - 8 < 8" using n off(2) by simp
    ultimately show ?thesis
      using True off(2) first byte [of "8 - r" 1] last [of "8 - r + 8" 2 "n - (8 - r) - 8"]
      by (auto simp: bit_or_iff)
  next
    case False
    then have "get_code n off gb = drop_bit r (gbyte gb i) OR
        push_bit (8 - r) (gbyte gb (i + 1) AND unat (rmask ! (n - (8 - r))))"
      by (simp add: get_code_def Let_def i_def r_def)
    then show ?thesis
      using False n off(2) first last [of "8 - r" 1 "n - (8 - r)"] by (auto simp: bit_or_iff)
  qed
qed

lemma bit_byte_of_nat: "bit (word_of_nat c :: byte) m \<longleftrightarrow> m < 8 \<and> bit c m"
  by transfer (simp add: bit_take_bit_iff bit_of_nat_iff)

lemma bitat_update:
  assumes "i < length bs"
  shows "bitat (bs[i := b]) k \<longleftrightarrow> (if k div 8 = i then bit b (k mod 8) else bitat bs k)"
  using assms by (auto simp: bitat_def)

lemma put_code_bits:
  assumes n: "9 \<le> n" "n \<le> 16" and len: "off + n \<le> 8 * length buf" and c: "c < 2 ^ n"
  shows "length (put_code n off c buf) = length buf"
    and "k < off \<Longrightarrow> bitat (put_code n off c buf) k = bitat buf k"
    and "j < n \<Longrightarrow> bitat (put_code n off c buf) (off + j) = bit c j"
proof -
  define i where "i = off div 8"
  define r where "r = off mod 8"
  have off: "off = 8 * i + r" "r < 8" by (simp_all add: i_def r_def)
  let ?b1 = "buf[i := (buf ! i AND rmask ! r) OR (word_of_nat (push_bit r c) AND lmask ! r)]"
  let ?b2 = "?b1[i + 1 := word_of_nat (drop_bit (8 - r) c)]"
  let ?b3 = "?b2[i + 2 := word_of_nat (drop_bit 8 (drop_bit (8 - r) c))]"
  have put: "put_code n off c buf = (if n - (8 - r) > 8 then ?b3 else ?b2)"
    using n off(2) by (auto simp: put_code_def Let_def i_def r_def of_nat_diff)
  show "length (put_code n off c buf) = length buf" by (simp add: put)
  have i: "i < length buf" "i + 1 < length buf" using len n off by auto
  have i3: "i + 2 < length buf" if "n - (8 - r) > 8" using len that off by auto
  have k: "k div 8 < i \<or> k div 8 = i \<and> k mod 8 < r" if "k < off" for k
  proof -
    have "k div 8 \<le> i" using that by (simp add: i_def div_le_mono)
    moreover have "k mod 8 < r" if "k div 8 = i"
      using \<open>k < off\<close> off that div_mult_mod_eq [of k 8] by linarith
    ultimately show ?thesis by linarith
  qed
  have b1: "bit ((buf ! i AND rmask ! r) OR (word_of_nat (push_bit r c) AND lmask ! r)) m \<longleftrightarrow>
      (if m < r then bit (buf ! i) m else m < 8 \<and> bit c (m - r))" for m
    using off(2) by (auto simp: rmask_nth lmask_nth bit_or_iff bit_and_iff bit_not_iff bit_mask_iff
        bit_byte_of_nat bit_push_bit_iff_nat dest: bit_imp_le_length)
  show "k < off \<Longrightarrow> bitat (put_code n off c buf) k = bitat buf k"
    using k [of k] i i3 b1 by (auto simp: put bitat_update bitat_def)
  assume j: "j < n"
  show "bitat (put_code n off c buf) (off + j) = bit c j"
  proof -
    consider (a) "j < 8 - r" | (b) "8 - r \<le> j" "j < 16 - r" | (c) "16 - r \<le> j" by linarith
    then show ?thesis
    proof cases
      case a
      then have "(off + j) div 8 = i" "(off + j) mod 8 = r + j" using off by (simp_all add: add.assoc)
      with a i i3 b1 [of "r + j"] show ?thesis by (auto simp: put bitat_update)
    next
      case b
      then have e: "off + j = 8 * (i + 1) + (j - (8 - r))" "j - (8 - r) < 8" using off by simp_all
      then have "(off + j) div 8 = i + 1" "(off + j) mod 8 = j - (8 - r)"
        by (rule split8)+
      with b i i3 show ?thesis
        by (auto simp: put bitat_update bit_byte_of_nat bit_drop_bit_eq)
    next
      case c
      then have e: "off + j = 8 * (i + 2) + (j - (16 - r))" "j - (16 - r) < 8" "n - (8 - r) > 8"
        using off j n by simp_all
      have "(off + j) div 8 = i + 2" "(off + j) mod 8 = j - (16 - r)"
        by (rule split8 [OF e(1,2)])+
      with c e(2,3) i i3 off(2) show ?thesis
        by (auto simp: put bitat_update bit_byte_of_nat bit_drop_bit_eq)
    qed
  qed
qed

section \<open>Files of codes\<close>

text \<open>
  A file from the start of a group of codes on, of which \<open>off\<close> bits are behind: it holds the
  codes that follow, \<open>n\<close> bits each. A code comes with the new width when the width changes after
  it; the rest of the group is padding then, as it is after the last code.
\<close>

fun encodes :: "nat \<Rightarrow> nat \<Rightarrow> (nat \<times> nat option) list \<Rightarrow> byte list \<Rightarrow> bool" where
  "encodes n off [] bs = (length bs = (off + 7) div 8)"
| "encodes n off ((c, ch) # cs) bs =
     (off + n \<le> 8 * n \<and> off + n \<le> 8 * length bs \<and> c < 2 ^ n \<and>
      (\<forall>j<n. bitat bs (off + j) = bit c j) \<and>
      (case ch of
         Some n' \<Rightarrow> n \<le> length bs \<and> encodes n' 0 cs (drop n bs)
       | None \<Rightarrow>
           if off + n = 8 * n then n \<le> length bs \<and> encodes n 0 cs (drop n bs)
           else encodes n (off + n) cs bs))"

lemma encodes_length: "encodes n off cs bs \<Longrightarrow> off \<le> 8 * length bs"
  by (cases cs) auto

lemma bitat_append: "k < 8 * length xs \<Longrightarrow> bitat (xs @ ys) k = bitat xs k"
  by (auto simp: bitat_def nth_append)

lemma bitat_take: "k < 8 * n \<Longrightarrow> bitat (take n xs) k = bitat xs k"
  by (auto simp: bitat_def)

subsection \<open>Writing\<close>

definition buf_ok :: "zstate \<Rightarrow> bool" where
  "buf_ok zs \<longleftrightarrow>
     9 \<le> zs_n_bits zs \<and> zs_n_bits zs \<le> 16 \<and> length (zs_buf zs) = 16 \<and>
     zs_n_bits zs dvd zs_offset zs \<and> zs_offset zs < 8 * zs_n_bits zs"

text \<open>The buffer of the state and what is written later, as a file.\<close>

definition continues :: "zstate \<Rightarrow> (nat \<times> nat option) list \<Rightarrow> byte list \<Rightarrow> bool" where
  "continues zs cs rest \<longleftrightarrow>
     encodes (zs_n_bits zs) (zs_offset zs) cs rest \<and>
     (\<forall>k<zs_offset zs. bitat rest k = bitat (zs_buf zs) k)"

definition change_of :: "zstate \<Rightarrow> nat option" where
  "change_of zs =
     (if zs_clear_flg zs then Some INIT_BITS
      else if zs_free_ent zs > zs_maxcode zs then Some (zs_n_bits zs + 1) else None)"

lemma buf_ok_room: "buf_ok zs \<Longrightarrow> zs_offset zs + zs_n_bits zs \<le> 8 * zs_n_bits zs"
proof -
  assume b: "buf_ok zs"
  then obtain k where k: "zs_offset zs = zs_n_bits zs * k" by (auto simp: buf_ok_def)
  with b have "zs_n_bits zs * k < zs_n_bits zs * 8" by (simp add: buf_ok_def)
  then have "Suc k \<le> 8" by simp
  then have "zs_n_bits zs * Suc k \<le> zs_n_bits zs * 8" by (rule mult_le_mono2)
  with k show ?thesis by simp
qed

lemma output_none:
  assumes "buf_ok zs"
  shows "\<exists>rest. fp_out (output_code None zs) = fp_out zs @ rest \<and> continues zs [] rest"
proof -
  have "zs_offset zs + 7 < 135" using assms by (auto simp: buf_ok_def)
  then have "(zs_offset zs + 7) div 8 \<le> 16" by linarith
  then show ?thesis
    using assms
    by (auto simp: output_code_def flush_def continues_def buf_ok_def bitat_take intro!: bitat_take [symmetric])
qed

lemma output_some:
  assumes b: "buf_ok zs" and c: "c < 2 ^ zs_n_bits zs" and w: "zs_n_bits zs + 1 \<le> 16 \<or> zs_free_ent zs \<le> zs_maxcode zs"
  defines "zs' \<equiv> output_code (Some c) zs"
  shows "buf_ok zs'"
    and "continues zs' cs rest' \<Longrightarrow>
      \<exists>rest. fp_out zs' @ rest' = fp_out zs @ rest \<and> continues zs ((c, change_of zs) # cs) rest"
proof -
  let ?n = "zs_n_bits zs" and ?o = "zs_offset zs"
  let ?buf = "put_code ?n ?o c (zs_buf zs)"
  have n: "9 \<le> ?n" "?n \<le> 16" and lb: "length (zs_buf zs) = 16" and dvd: "?n dvd ?o"
    using b by (simp_all add: buf_ok_def)
  have room: "?o + ?n \<le> 8 * ?n" by (rule buf_ok_room [OF b])
  have "?o + ?n \<le> 8 * length (zs_buf zs)" using room n lb by simp
  note put = put_code_bits [OF n this c]
  have len: "length ?buf = 16" using put(1) lb by simp
  have cl: "clear_bits x = x\<lparr>zs_n_bits := 9, zs_maxcode := 511, zs_clear_flg := False\<rparr>" for x
    by (simp add: clear_bits_def MAXCODE_def)
  let ?ch = "zs_free_ent zs > zs_maxcode zs \<or> zs_clear_flg zs"
  let ?full = "?ch \<or> ?o + ?n = 8 * ?n"
  have out: "fp_out zs' = fp_out zs @ (if ?full then take ?n ?buf else [])"
    "zs_buf zs' = ?buf" "zs_offset zs' = (if ?full then 0 else ?o + ?n)"
    "zs_n_bits zs' = (case change_of zs of Some n' \<Rightarrow> n' | None \<Rightarrow> ?n)"
    using n
    by (auto simp: zs'_def output_code_def Let_def flush_def cl more_bits_def change_of_def mult.commute)
  show "buf_ok zs'"
    using out n len dvd room w by (auto simp: buf_ok_def change_of_def)
  assume r: "continues zs' cs rest'"
  have chN: "change_of zs = None \<longleftrightarrow> \<not> ?ch" by (auto simp: change_of_def)
  show "\<exists>rest. fp_out zs' @ rest' = fp_out zs @ rest \<and> continues zs ((c, change_of zs) # cs) rest"
  proof (cases ?full)
    case True
    let ?rest = "take ?n ?buf @ rest'"
    have tl: "length (take ?n ?buf) = ?n" using n len by simp
    have bits: "bitat ?rest k = bitat ?buf k" if "k < 8 * ?n" for k
      using bitat_append [of k "take ?n ?buf" rest'] bitat_take [of k ?n ?buf] that tl by simp
    have e: "encodes (zs_n_bits zs') 0 cs rest'" using r out(3) True by (simp add: continues_def)
    have "continues zs ((c, change_of zs) # cs) ?rest"
      using True room tl bits put(2,3) e out(4) c chN
      by (auto simp: continues_def split: option.split)
    then show ?thesis using out(1) True by auto
  next
    case False
    have e: "encodes ?n (?o + ?n) cs rest'" "\<forall>k<?o + ?n. bitat rest' k = bitat ?buf k"
      using r out(2,3,4) False chN by (auto simp: continues_def)
    have "continues zs ((c, change_of zs) # cs) rest'"
      using False room e put(2,3) c chN encodes_length [OF e(1)] by (auto simp: continues_def)
    then show ?thesis using out(1) False by auto
  qed
qed

subsection \<open>Reading\<close>

definition next_width :: "zstate \<Rightarrow> nat" where
  "next_width zs =
     (if zs_clear_flg zs then INIT_BITS
      else if zs_free_ent zs > zs_maxcode zs then zs_n_bits zs + 1 else zs_n_bits zs)"

text \<open>
  The reader within a group: the buffer holds what there is of the group, the file the rest.
\<close>

definition in_group :: "zstate \<Rightarrow> nat \<Rightarrow> nat \<Rightarrow> byte list \<Rightarrow> bool" where
  "in_group zs n off bs \<longleftrightarrow>
     zs_n_bits zs = n \<and> length (zs_gbuf zs) = 16 \<and> zs_roffset zs = off \<and> fp_in zs = drop n bs \<and>
     take (min n (length bs)) (zs_gbuf zs) = take n bs \<and>
     zs_size zs = 8 * int (min n (length bs)) - (int n - 1)"

text \<open>The reader before a code: within a group, or before the next one.\<close>

definition at_code :: "zstate \<Rightarrow> nat \<Rightarrow> nat \<Rightarrow> byte list \<Rightarrow> bool" where
  "at_code zs n off bs \<longleftrightarrow>
     length (zs_gbuf zs) = 16 \<and> n = next_width zs \<and> 9 \<le> n \<and> n \<le> 16 \<and>
     (zs_clear_flg zs \<longrightarrow> zs_free_ent zs \<le> zs_maxcode zs) \<and>
     (if off = 0
      then fp_in zs = bs \<and>
        (zs_clear_flg zs \<or> int (zs_roffset zs) \<ge> zs_size zs \<or> zs_free_ent zs > zs_maxcode zs)
      else \<not> zs_clear_flg zs \<and> zs_free_ent zs \<le> zs_maxcode zs \<and> off < 8 * n \<and> in_group zs n off bs)"

definition maxc :: "nat \<Rightarrow> nat \<Rightarrow> nat" where
  "maxc mb n = (if n = mb then 2 ^ mb else 2 ^ n - 1)"

definition width_ok :: "zstate \<Rightarrow> bool" where
  "width_ok zs \<longleftrightarrow>
     zs_maxcode zs = maxc (zs_maxbits zs) (zs_n_bits zs) \<and> zs_maxmaxcode zs = 2 ^ zs_maxbits zs \<and>
     12 \<le> zs_maxbits zs"

text \<open>What reading a code leaves alone.\<close>

definition same_tables :: "zstate \<Rightarrow> zstate \<Rightarrow> bool" where
  "same_tables zs zs' \<longleftrightarrow>
     zs_free_ent zs' = zs_free_ent zs \<and> zs_oldcode zs' = zs_oldcode zs \<and>
     zs_finchar zs' = zs_finchar zs \<and> zs_stack zs' = zs_stack zs \<and> zs_state zs' = zs_state zs \<and>
     tab_prefix zs' = tab_prefix zs \<and> tab_suffix zs' = tab_suffix zs \<and>
     zs_block_compress zs' = zs_block_compress zs \<and> zs_maxbits zs' = zs_maxbits zs \<and>
     zs_maxmaxcode zs' = zs_maxmaxcode zs"

lemma more_clear_sel [simp]:
  "same_tables zs (more_bits zs)" "same_tables zs (clear_bits zs)"
  "fp_in (more_bits zs) = fp_in zs" "fp_in (clear_bits zs) = fp_in zs"
  "zs_gbuf (more_bits zs) = zs_gbuf zs" "zs_gbuf (clear_bits zs) = zs_gbuf zs"
  by (simp_all add: more_bits_def clear_bits_def same_tables_def Let_def)

lemma width_ok_more: "width_ok zs \<Longrightarrow> width_ok (more_bits zs)"
  by (auto simp: width_ok_def more_bits_def Let_def maxc_def MAXCODE_def)

lemma width_ok_clear: "width_ok zs \<Longrightarrow> width_ok (clear_bits zs)"
  by (auto simp: width_ok_def clear_bits_def maxc_def MAXCODE_def)

lemma refill_some:
  assumes g: "length (zs_gbuf zs) = 16" "fp_in zs = bs" "bs \<noteq> []" and n: "n = next_width zs" "9 \<le> n" "n \<le> 16"
    and cl: "zs_clear_flg zs \<longrightarrow> zs_free_ent zs \<le> zs_maxcode zs" and w: "width_ok zs"
  obtains zs' where "refill zs = (True, zs')" "in_group zs' n 0 bs" "same_tables zs zs'"
    "\<not> zs_clear_flg zs'" "width_ok zs'"
proof -
  let ?z2 = "new_width zs"
  have nb: "zs_n_bits ?z2 = n"
    using cl n by (auto simp: next_width_def new_width_def clear_bits_def more_bits_def Let_def)
  have z2: "same_tables zs ?z2" "fp_in ?z2 = bs" "zs_gbuf ?z2 = zs_gbuf zs" "\<not> zs_clear_flg ?z2" "width_ok ?z2"
    using g w width_ok_more width_ok_clear cl
    by (auto simp: new_width_def same_tables_def more_bits_def clear_bits_def Let_def)
  let ?z3 = "?z2\<lparr>zs_gbuf := take n bs @ drop (length (take n bs)) (zs_gbuf zs), fp_in := drop n bs,
    zs_size := int (length (take n bs)), zs_roffset := 0,
    zs_size := 8 * int (length (take n bs)) - (int n - 1)\<rparr>"
  have r: "refill zs = (True, ?z3)"
    using g n(2) nb z2 unfolding refill_def Let_def by simp
  have "in_group ?z3 n 0 bs" using nb g(1) n(3) by (auto simp: in_group_def min_def)
  moreover have "same_tables zs ?z3" "\<not> zs_clear_flg ?z3" "width_ok ?z3"
    using z2 by (simp_all add: same_tables_def width_ok_def)
  ultimately show ?thesis using that r by blast
qed

lemma in_group_bits:
  assumes "in_group zs n off bs" "k < 8 * min n (length bs)"
  shows "bitat (zs_gbuf zs) k = bitat bs k"
proof -
  have "bitat (zs_gbuf zs) k = bitat (take (min n (length bs)) (zs_gbuf zs)) k"
    using assms(2) by (simp add: bitat_take)
  also have "\<dots> = bitat (take n bs) k" using assms(1) by (simp add: in_group_def)
  finally show ?thesis using assms(2) by (simp add: bitat_take)
qed

lemma getcode_some:
  assumes a: "at_code zs n off bs" and e: "encodes n off ((c, ch) # cs) bs" and w: "width_ok zs"
  obtains zs' where "getcode zs = (Some c, zs')" "in_group zs' n (off + n) bs" "same_tables zs zs'"
    "\<not> zs_clear_flg zs'" "width_ok zs'"
proof -
  have n: "9 \<le> n" "n \<le> 16" "n = next_width zs" using a by (simp_all add: at_code_def)
  have b: "off + n \<le> 8 * n" "off + n \<le> 8 * length bs" "c < 2 ^ n" "\<forall>j<n. bitat bs (off + j) = bit c j"
    using e by simp_all
  let ?go = "zs_clear_flg zs \<or> int (zs_roffset zs) \<ge> zs_size zs \<or> zs_free_ent zs > zs_maxcode zs"
  obtain z where z: "(if ?go then refill zs else (True, zs)) = (True, z)" "in_group z n off bs"
    "same_tables zs z" "\<not> zs_clear_flg z" "width_ok z"
  proof (cases "off = 0")
    case True
    then have "bs \<noteq> []" using b(2) n(1) by auto
    then show ?thesis
      using refill_some [of zs bs n] a n w that True by (auto simp: at_code_def)
  next
    case False
    have "int off < 8 * int (min n (length bs)) - (int n - 1)" using b(1,2) n(1) by linarith
    then show ?thesis
      using that [of zs] a w False by (auto simp: at_code_def in_group_def same_tables_def)
  qed
  have bits: "bit (get_code n off (zs_gbuf z)) j = bit c j" for j
  proof (cases "j < n")
    case True
    then have "off + j < 8 * min n (length bs)" using b(1,2) by linarith
    then show ?thesis using True b(4) in_group_bits [OF z(2)] n by (simp add: get_code_bits)
  next
    case False
    then have "\<not> bit c j" using b(3)
      by (metis bit_take_bit_iff linorder_not_less take_bit_nat_eq_self)
    with False show ?thesis using n by (simp add: get_code_bits)
  qed
  then have "get_code n off (zs_gbuf z) = c" by (intro bit_eqI) simp
  then have g: "getcode zs = (Some c, z\<lparr>zs_roffset := off + n\<rparr>)"
    using z(1,2) by (simp add: getcode_def in_group_def)
  show ?thesis
    by (rule that [OF g]) (use z in \<open>simp_all add: in_group_def same_tables_def width_ok_def\<close>)
qed

lemma getcode_none:
  assumes a: "at_code zs n off bs" and e: "encodes n off [] bs"
  shows "fst (getcode zs) = None"
proof -
  have n: "9 \<le> n" using a by (simp add: at_code_def)
  have nil: "fst (refill z) = False" if "fp_in z = []" for z
  proof -
    have "fp_in (new_width z) = []" using that by (simp add: new_width_def Let_def)
    then show ?thesis by (simp add: refill_def Let_def)
  qed
  have len: "length bs = (off + 7) div 8" using e by simp
  show ?thesis
  proof (cases "off = 0")
    case True
    then have "bs = []" using len by simp
    then have "fp_in zs = []" "zs_clear_flg zs \<or> int (zs_roffset zs) \<ge> zs_size zs \<or> zs_free_ent zs > zs_maxcode zs"
      using a True by (simp_all add: at_code_def)
    with nil [of zs] show ?thesis by (cases "refill zs") (simp add: getcode_def)
  next
    case False
    then have g: "in_group zs n off bs" "off < 8 * n" using a unfolding at_code_def by auto
    have "8 * length bs \<le> off + 7" using len by linarith
    then have s: "int (zs_roffset zs) \<ge> zs_size zs" using g(1) n by (simp add: in_group_def)
    have "length bs \<le> n" using len g(2) by linarith
    then have "fp_in zs = []" using g(1) by (simp add: in_group_def)
    with nil [of zs] s show ?thesis by (cases "refill zs") (simp add: getcode_def)
  qed
qed

text \<open>The reader after a code, once it knows whether the width changes.\<close>

lemma at_code_next:
  assumes g: "in_group zs n (off + n) bs" and cl: "\<not> zs_clear_flg zs" and n: "9 \<le> n" "n \<le> 16"
    and e: "encodes n off ((c, ch) # cs) bs"
    and ch: "ch = (if zs_free_ent zs > zs_maxcode zs then Some (n + 1) else None)" "ch \<noteq> None \<Longrightarrow> n + 1 \<le> 16"
  shows "\<exists>m off' bs'. at_code zs m off' bs' \<and> encodes m off' cs bs' \<and>
    m = (case ch of Some n' \<Rightarrow> n' | None \<Rightarrow> n)"
proof -
  have nb: "zs_n_bits zs = n" "length (zs_gbuf zs) = 16" "fp_in zs = drop n bs" using g by (simp_all add: in_group_def)
  consider (wider) "zs_free_ent zs > zs_maxcode zs"
    | (full) "\<not> zs_free_ent zs > zs_maxcode zs" "off + n = 8 * n"
    | (more) "\<not> zs_free_ent zs > zs_maxcode zs" "off + n \<noteq> 8 * n" by blast
  then show ?thesis
  proof cases
    case wider
    then have "at_code zs (n + 1) 0 (drop n bs)"
      using nb cl n ch by (simp add: at_code_def next_width_def)
    with wider e ch(1) show ?thesis by (intro exI [of _ "n + 1"] exI [of _ 0] exI [of _ "drop n bs"]) simp
  next
    case full
    then have "zs_size zs \<le> int (zs_roffset zs)" using g n(1) by (simp add: in_group_def)
    with full have "at_code zs n 0 (drop n bs)" using nb cl n by (simp add: at_code_def next_width_def)
    with full e ch(1) show ?thesis by (intro exI [of _ n] exI [of _ 0] exI [of _ "drop n bs"]) simp
  next
    case more
    then have "off + n < 8 * n" using e by simp
    with more have "at_code zs n (off + n) bs" using nb cl n g by (simp add: at_code_def next_width_def)
    with more e ch(1) show ?thesis by (intro exI [of _ n] exI [of _ "off + n"] exI [of _ bs]) simp
  qed
qed

lemma at_code_clear:
  assumes g: "in_group zs n (off + n) bs" and n: "9 \<le> n" and e: "encodes n off ((c, Some INIT_BITS) # cs) bs"
    and w: "width_ok zs" and free: "FIRST \<le> zs_maxcode zs"
  shows "at_code (read_clear zs) INIT_BITS 0 (drop n bs)" "encodes INIT_BITS 0 cs (drop n bs)"
  using g e free by (simp_all add: at_code_def next_width_def read_clear_def in_group_def)

end
