(* ===== verification/LzwRead.thy ===== *)
theory LzwRead
  imports LzwTable LzwBits
begin

text \<open>
  The decoder: the codes of a file stand for strings, the decoder builds the table of these
  strings one entry behind the encoder, and changes the width of the codes at the same ones.
\<close>

section \<open>The strings of the codes\<close>

text \<open>
  A table lists the entries from \<open>FIRST\<close> on: a code and the character that is appended to its
  string.
\<close>

type_synonym entries = "(nat \<times> byte) list"

definition is_code :: "entries \<Rightarrow> nat \<Rightarrow> bool" where
  "is_code T c \<longleftrightarrow> c < 256 \<or> FIRST \<le> c \<and> c < FIRST + length T"

function text_of :: "entries \<Rightarrow> nat \<Rightarrow> byte list" where
  "text_of T c =
     (if c < 256 then [word_of_nat c]
      else if c - FIRST < length T \<and> fst (T ! (c - FIRST)) < c
      then text_of T (fst (T ! (c - FIRST))) @ [snd (T ! (c - FIRST))]
      else [])"
  by pat_completeness auto
termination by (relation "measure snd") simp_all

declare text_of.simps [simp del]

definition entries_ok :: "entries \<Rightarrow> bool" where
  "entries_ok T \<longleftrightarrow> (\<forall>i<length T. is_code (take i T) (fst (T ! i)))"

lemma entries_ok_Nil [simp]: "entries_ok []"
  by (simp add: entries_ok_def)

lemma entries_ok_snoc: "entries_ok (T @ [(p, c)]) \<longleftrightarrow> entries_ok T \<and> is_code T p"
  by (auto simp: entries_ok_def nth_append less_Suc_eq)

lemma is_code_append: "is_code T c \<Longrightarrow> is_code (T @ X) c"
  by (auto simp: is_code_def)

lemma entry_less: "entries_ok T \<Longrightarrow> i < length T \<Longrightarrow> fst (T ! i) < FIRST + i \<and> is_code T (fst (T ! i))"
  by (fastforce simp: entries_ok_def is_code_def)

lemma text_small: "c < 256 \<Longrightarrow> text_of T c = [word_of_nat c]"
  by (simp add: text_of.simps)

lemma text_entry:
  "entries_ok T \<Longrightarrow> i < length T \<Longrightarrow> text_of T (FIRST + i) = text_of T (fst (T ! i)) @ [snd (T ! i)]"
  using entry_less [of T i] by (subst text_of.simps) simp

lemma is_code_cases:
  assumes "is_code T c"
  obtains (small) "c < 256" | (entry) i where "i < length T" "c = FIRST + i"
  using assms unfolding is_code_def by (metis le_add_diff_inverse less_diff_conv2 add.commute)

lemma text_append:
  assumes "entries_ok T" "entries_ok (T @ X)" "is_code T c"
  shows "text_of (T @ X) c = text_of T c"
  using assms(3)
proof (induction c rule: less_induct)
  case (less c)
  from less.prems show ?case
  proof (cases rule: is_code_cases)
    case small
    then show ?thesis by (simp add: text_small)
  next
    case (entry i)
    note l = entry_less [OF assms(1) entry(1)]
    have "(T @ X) ! i = T ! i" using entry(1) by (simp add: nth_append)
    then have "text_of (T @ X) c = text_of (T @ X) (fst (T ! i)) @ [snd (T ! i)]"
      using text_entry [OF assms(2), of i] entry by simp
    also have "text_of (T @ X) (fst (T ! i)) = text_of T (fst (T ! i))"
      using less.IH l entry(2) by simp
    finally show ?thesis using text_entry [OF assms(1) entry(1)] entry(2) by simp
  qed
qed

lemma text_not_Nil: "entries_ok T \<Longrightarrow> is_code T c \<Longrightarrow> text_of T c \<noteq> []"
  by (erule is_code_cases) (simp_all add: text_small text_entry)

section \<open>Texts as codes\<close>

text \<open>The change of the width after a code, when \<open>free\<close> is the next entry.\<close>

definition widen :: "nat \<Rightarrow> nat \<Rightarrow> nat \<Rightarrow> nat option" where
  "widen mb n free = (if free > maxc mb n then Some (n + 1) else None)"

definition width_after :: "nat option \<Rightarrow> nat \<Rightarrow> nat" where
  "width_after ch n = (case ch of Some n' \<Rightarrow> n' | None \<Rightarrow> n)"

text \<open>
  The ways to write a text as codes with a table of \<open>T\<close>: the strings of the codes follow each
  other, each code but the last enters its string and the next character as long as there is
  room, and a full table may be cleared. A code comes with the change of the width after it.
\<close>

inductive coded :: "nat \<Rightarrow> entries \<Rightarrow> nat \<Rightarrow> byte list \<Rightarrow> (nat \<times> nat option) list \<Rightarrow> bool"
  for mb :: nat
where
  last: "is_code T e \<Longrightarrow> tx = text_of T e \<Longrightarrow> ch = widen mb n (FIRST + length T) \<Longrightarrow>
    coded mb T n tx [(e, ch)]"
| add: "is_code T e \<Longrightarrow> FIRST + length T < 2 ^ mb \<Longrightarrow> ch = widen mb n (FIRST + length T) \<Longrightarrow>
    coded mb (T @ [(e, hd tx)]) (width_after ch n) tx cs \<Longrightarrow> tx \<noteq> [] \<Longrightarrow>
    coded mb T n (text_of T e @ tx) ((e, ch) # cs)"
| full: "is_code T e \<Longrightarrow> FIRST + length T = 2 ^ mb \<Longrightarrow> ch = widen mb n (FIRST + length T) \<Longrightarrow>
    coded mb T (width_after ch n) tx cs \<Longrightarrow> coded mb T n (text_of T e @ tx) ((e, ch) # cs)"
| clear: "FIRST + length T = 2 ^ mb \<Longrightarrow> coded mb [] INIT_BITS tx cs \<Longrightarrow>
    coded mb T n tx ((CLEAR, Some INIT_BITS) # cs)"

lemma coded_ConsD:
  assumes "coded mb T n tx ((c, ch) # cs)"
  shows "c = CLEAR \<and> ch = Some INIT_BITS \<and> coded mb [] INIT_BITS tx cs \<or>
    is_code T c \<and> ch = widen mb n (FIRST + length T) \<and>
    (\<exists>tx'. tx = text_of T c @ tx' \<and>
       (cs = [] \<and> tx' = [] \<or>
        (\<exists>T'. coded mb T' (width_after ch n) tx' cs \<and>
          (T' = T @ [(c, hd tx')] \<and> FIRST + length T < 2 ^ mb \<or> T' = T \<and> FIRST + length T = 2 ^ mb))))"
  using assms by cases auto

inductive_cases coded_Nil: "coded mb T n tx []"

section \<open>The decoder\<close>

definition table_has :: "zstate \<Rightarrow> entries \<Rightarrow> bool" where
  "table_has zs T \<longleftrightarrow>
     zs_free_ent zs = FIRST + length T \<and>
     (\<forall>i<length T. tab_prefix zs (FIRST + i) = fst (T ! i) \<and> tab_suffix zs (FIRST + i) = snd (T ! i)) \<and>
     (\<forall>c<256. tab_suffix zs c = word_of_nat c)"

text \<open>
  The table of the decoder against that of the encoder: both empty, one entry behind, whose
  character is the next one of the text, or both full.
\<close>

definition synced :: "nat \<Rightarrow> zstate \<Rightarrow> entries \<Rightarrow> byte list \<Rightarrow> bool" where
  "synced mb zs T tx \<longleftrightarrow>
     entries_ok T \<and> FIRST + length T \<le> 2 ^ mb \<and>
     (T = [] \<and> zs_oldcode zs = None \<and> table_has zs [] \<or>
      (\<exists>T0 p. T = T0 @ [(p, hd tx)] \<and> zs_oldcode zs = Some p \<and> table_has zs T0 \<and>
         zs_finchar zs = hd (text_of T0 p)) \<or>
      (\<exists>p. zs_oldcode zs = Some p \<and> table_has zs T \<and> FIRST + length T = 2 ^ mb))"

lemma unwind_text:
  assumes "table_has zs T" "entries_ok T" "is_code T c"
  shows "\<exists>k st'. unwind (tab_prefix zs) (tab_suffix zs) c st = Some (k, st') \<and>
    tab_suffix zs k # st' = text_of T c @ st"
  using assms(3)
proof (induction c arbitrary: st rule: less_induct)
  case (less c)
  from less.prems show ?case
  proof (cases rule: is_code_cases)
    case small
    then show ?thesis using assms(1) by (subst unwind.simps) (simp add: text_small table_has_def)
  next
    case (entry i)
    note l = entry_less [OF assms(2) entry(1)]
    have t: "tab_prefix zs c = fst (T ! i)" "tab_suffix zs c = snd (T ! i)"
      using assms(1) entry by (simp_all add: table_has_def)
    have "unwind (tab_prefix zs) (tab_suffix zs) c st =
        unwind (tab_prefix zs) (tab_suffix zs) (fst (T ! i)) (snd (T ! i) # st)"

    proof -
      have "256 \<le> c" using entry(2) by simp
      then show ?thesis by (subst unwind.simps) (simp add: t)
    qed
    with less.IH [of "fst (T ! i)" "snd (T ! i) # st"] l entry(2) show ?thesis
      by (simp add: text_entry [OF assms(2) entry(1)])
  qed
qed

lemma table_has_same: "same_tables zs zs' \<Longrightarrow> table_has zs' T = table_has zs T"
  by (simp add: same_tables_def table_has_def)

text \<open>The end of the work on a code: its entry, and the code remembered.\<close>

definition finish :: "zstate \<Rightarrow> zstate" where
  "finish zs = (new_entry (zs\<lparr>zs_stack := []\<rparr>))\<lparr>zs_oldcode := Some (zs_incode zs)\<rparr>"

definition take_code :: "nat \<Rightarrow> byte list \<Rightarrow> zstate \<Rightarrow> zstate" where
  "take_code c st zs = zs\<lparr>zs_incode := c, zs_finchar := hd st, zs_stack := st\<rparr>"

lemma lzw_decode_step:
  assumes s: "synced mb zs T (text_of T e @ tx)" and e: "is_code T e" and z: "zs_maxmaxcode zs = 2 ^ mb"
    and st: "zs_stack zs = []"
  shows "\<not> (e \<ge> zs_free_ent zs \<and> (e > zs_free_ent zs \<or> zs_oldcode zs = None))"
    and "\<exists>k st. (if e \<ge> zs_free_ent zs
        then unwind (tab_prefix zs) (tab_suffix zs) (the (zs_oldcode zs)) (zs_finchar zs # zs_stack zs)
        else unwind (tab_prefix zs) (tab_suffix zs) e (zs_stack zs)) = Some (k, st) \<and>
      tab_suffix zs k # st = text_of T e"
    and "table_has (finish (take_code e (text_of T e) zs)) T"
proof -
  have ok: "entries_ok T" "FIRST + length T \<le> 2 ^ mb" using s by (simp_all add: synced_def)
  have ne: "text_of T e \<noteq> []" by (rule text_not_Nil [OF ok(1) e])
  from s consider (empty) "T = []" "zs_oldcode zs = None" "table_has zs []"
    | (behind) T0 p x where "T = T0 @ [(p, x)]" "zs_oldcode zs = Some p" "table_has zs T0"
        "zs_finchar zs = hd (text_of T0 p)" "x = hd (text_of T e)"
    | (filled) p where "zs_oldcode zs = Some p" "table_has zs T" "FIRST + length T = 2 ^ mb"
    using ne by (auto simp: synced_def)
  then have "\<not> (e \<ge> zs_free_ent zs \<and> (e > zs_free_ent zs \<or> zs_oldcode zs = None)) \<and>
    (\<exists>k st. (if e \<ge> zs_free_ent zs
        then unwind (tab_prefix zs) (tab_suffix zs) (the (zs_oldcode zs)) (zs_finchar zs # zs_stack zs)
        else unwind (tab_prefix zs) (tab_suffix zs) e (zs_stack zs)) = Some (k, st) \<and>
      tab_suffix zs k # st = text_of T e) \<and>
    table_has (finish (take_code e (text_of T e) zs)) T"
  proof cases
    case empty
    then have "e < zs_free_ent zs" using e by (auto simp: is_code_def table_has_def)
    moreover have "table_has (finish (take_code e (text_of T e) zs)) T"
      using empty by (simp add: finish_def take_code_def new_entry_def table_has_def Let_def)
    ultimately show ?thesis
      using unwind_text [OF empty(3), of e "[]"] empty e st by auto
  next
    case filled
    then have "e < zs_free_ent zs" using e by (auto simp: is_code_def table_has_def)
    moreover have "table_has (finish (take_code e (text_of T e) zs)) T"
      using filled z by (simp add: finish_def take_code_def new_entry_def table_has_def Let_def)
    ultimately show ?thesis
      using unwind_text [OF filled(2) ok(1) e, of "[]"] st by auto
  next
    case behind
    have ok0: "entries_ok T0" "is_code T0 p" using ok(1) behind(1) by (simp_all add: entries_ok_snoc)
    have free: "zs_free_ent zs = FIRST + length T0" "FIRST + length T0 < 2 ^ mb"
      using behind(1,3) ok(2) by (simp_all add: table_has_def)
    let ?F = "finish (take_code e (text_of T e) zs)"
    have F: "zs_free_ent ?F = FIRST + Suc (length T0)"
      "tab_prefix ?F = (tab_prefix zs)(FIRST + length T0 := p)"
      "tab_suffix ?F = (tab_suffix zs)(FIRST + length T0 := x)"
      using behind(2,5) free z by (simp_all add: finish_def take_code_def new_entry_def Let_def)
    have "table_has ?F (T0 @ [(p, x)])"
      using behind(3) by (auto simp: table_has_def F nth_append less_Suc_eq)
    then have "table_has ?F T" by (simp only: behind(1) [symmetric])
    moreover have "\<exists>k st. unwind (tab_prefix zs) (tab_suffix zs) e (zs_stack zs) = Some (k, st) \<and>
        tab_suffix zs k # st = text_of T e" if "e < zs_free_ent zs"
    proof -
      have e0: "is_code T0 e" using that e behind(1) free(1) by (auto simp: is_code_def)
      have "text_of T e = text_of T0 e"
        using text_append [OF ok0(1) _ e0, of "[(p, x)]"] ok(1) behind(1) by simp
      then show ?thesis using unwind_text [OF behind(3) ok0(1) e0, of "[]"] st by simp
    qed
    moreover have "e = zs_free_ent zs \<and> (\<exists>k st. unwind (tab_prefix zs) (tab_suffix zs) p
          (zs_finchar zs # zs_stack zs) = Some (k, st) \<and> tab_suffix zs k # st = text_of T e)"
      if "\<not> e < zs_free_ent zs"
    proof -
      have eq: "e = FIRST + length T0" using that e behind(1) free(1) by (auto simp: is_code_def)
      have l: "length T0 < length T" "T ! length T0 = (p, x)" using behind(1) by simp_all
      have "text_of T p = text_of T0 p"
        using text_append [OF ok0(1) _ ok0(2), of "[(p, x)]"] ok(1) behind(1) by simp
      then have te: "text_of T e = text_of T0 p @ [x]"
        using text_entry [OF ok(1) l(1)] l(2) eq by simp
      then have "x = hd (text_of T0 p)"
        using text_not_Nil [OF ok0] behind(5) by (metis hd_append2)
      with te have "text_of T e = text_of T0 p @ [zs_finchar zs]" using behind(4) by simp
      then show ?thesis
        using unwind_text [OF behind(3) ok0, of "[zs_finchar zs]"] st eq free(1) by simp
    qed
    ultimately show ?thesis using behind(2) by (cases "e < zs_free_ent zs") auto
  qed
  then show "\<not> (e \<ge> zs_free_ent zs \<and> (e > zs_free_ent zs \<or> zs_oldcode zs = None))"
    and "\<exists>k st. (if e \<ge> zs_free_ent zs
        then unwind (tab_prefix zs) (tab_suffix zs) (the (zs_oldcode zs)) (zs_finchar zs # zs_stack zs)
        else unwind (tab_prefix zs) (tab_suffix zs) e (zs_stack zs)) = Some (k, st) \<and>
      tab_suffix zs k # st = text_of T e"
    and "table_has (finish (take_code e (text_of T e) zs)) T" by blast+
qed

subsection \<open>Reading a file of codes\<close>

text \<open>The state of the reader before a code, with the text that is still to come.\<close>

definition reader_ok :: "nat \<Rightarrow> zstate \<Rightarrow> bool" where
  "reader_ok mb zs \<longleftrightarrow>
     width_ok zs \<and> zs_maxbits zs = mb \<and> mb \<le> 16 \<and> zs_block_compress zs \<noteq> 0 \<and> zs_stack zs = [] \<and>
     zs_state zs = S_MIDDLE"

definition expects :: "nat \<Rightarrow> zstate \<Rightarrow> byte list \<Rightarrow> (nat \<times> nat option) list \<Rightarrow> bool" where
  "expects mb zs tx cs \<longleftrightarrow>
     reader_ok mb zs \<and>
     (\<exists>T n off bs. at_code zs n off bs \<and> n \<le> mb \<and> encodes n off cs bs \<and>
        (coded mb T n tx cs \<and> synced mb zs T tx \<or> cs = [] \<and> tx = []))"

definition resumable :: "nat \<Rightarrow> zstate \<Rightarrow> byte list \<Rightarrow> bool" where
  "resumable mb zs tx \<longleftrightarrow>
     zs_state zs = S_EOF \<and> tx = [] \<or>
     zs_state zs = S_MIDDLE \<and> zs_stack zs \<noteq> [] \<and>
     (\<exists>rest cs. tx = zs_stack zs @ rest \<and> expects mb (finish zs) rest cs)"

lemma reader_ok_same: "same_tables zs zs' \<Longrightarrow> width_ok zs' \<Longrightarrow> reader_ok mb zs \<Longrightarrow> reader_ok mb zs'"
  by (simp add: reader_ok_def same_tables_def)

lemma finish_sel [simp]:
  "zs_stack (finish zs) = []" "zs_oldcode (finish zs) = Some (zs_incode zs)"
  "zs_finchar (finish zs) = zs_finchar zs" "zs_state (finish zs) = zs_state zs"
  "zs_maxbits (finish zs) = zs_maxbits zs" "zs_block_compress (finish zs) = zs_block_compress zs"
  "zs_clear_flg (finish zs) = zs_clear_flg zs" "zs_maxcode (finish zs) = zs_maxcode zs"
  "width_ok (finish zs) = width_ok zs" "in_group (finish zs) n off bs = in_group zs n off bs"
  by (simp_all add: finish_def new_entry_def Let_def width_ok_def in_group_def split: option.split)

lemma take_code_sel [simp]:
  "zs_stack (take_code c st zs) = st" "zs_incode (take_code c st zs) = c"
  "zs_finchar (take_code c st zs) = hd st" "zs_state (take_code c st zs) = zs_state zs"
  "zs_maxbits (take_code c st zs) = zs_maxbits zs"
  "zs_block_compress (take_code c st zs) = zs_block_compress zs"
  "zs_clear_flg (take_code c st zs) = zs_clear_flg zs" "zs_maxcode (take_code c st zs) = zs_maxcode zs"
  "width_ok (take_code c st zs) = width_ok zs"
  "in_group (take_code c st zs) n off bs = in_group zs n off bs"
  by (simp_all add: take_code_def width_ok_def in_group_def)

lemma widen_bound: "widen mb n free \<noteq> None \<Longrightarrow> free \<le> 2 ^ mb \<Longrightarrow> n \<le> mb \<Longrightarrow> n + 1 \<le> mb"
  by (cases "n = mb") (auto simp: widen_def maxc_def split: if_splits)

text \<open>After a code that stands for characters the reader expects the rest.\<close>

lemma expects_next:
  assumes r: "reader_ok mb zs" and g: "in_group zs n (off + n) bs" "\<not> zs_clear_flg zs"
    and n: "9 \<le> n" "n \<le> mb" and e: "encodes n off ((e, ch) # cs) bs"
    and ok: "entries_ok T" "FIRST + length T \<le> 2 ^ mb" "is_code T e"
    and t: "table_has (finish (take_code e (text_of T e) zs)) T"
    and ch: "ch = widen mb n (FIRST + length T)"
    and c: "cs = [] \<and> tx = [] \<or>
      (\<exists>T'. coded mb T' (width_after ch n) tx cs \<and>
         (T' = T @ [(e, hd tx)] \<and> FIRST + length T < 2 ^ mb \<or> T' = T \<and> FIRST + length T = 2 ^ mb))"
  shows "expects mb (finish (take_code e (text_of T e) zs)) tx cs"
proof -
  let ?z = "finish (take_code e (text_of T e) zs)"
  have w: "width_ok zs" "zs_maxbits zs = mb" "mb \<le> 16" using r by (simp_all add: reader_ok_def)
  have "zs_maxcode zs = maxc mb n" using w g(1) by (simp add: width_ok_def in_group_def)
  then have ch': "ch = (if zs_free_ent ?z > zs_maxcode ?z then Some (n + 1) else None)"
    using t ch by (simp add: table_has_def widen_def)
  have b: "ch \<noteq> None \<Longrightarrow> n + 1 \<le> mb" using widen_bound [OF _ ok(2) n(2)] ch by simp
  have "\<exists>m off' bs'. at_code ?z m off' bs' \<and> encodes m off' cs bs' \<and> m = width_after ch n"
    unfolding width_after_def
    by (rule at_code_next [OF _ _ n(1) _ e ch']) (use g b w(3) n in auto)
  moreover have "width_after ch n \<le> mb"
    using b n(2) ch by (auto simp: width_after_def widen_def split: option.split)
  moreover have "synced mb ?z T' tx"
    if "T' = T @ [(e, hd tx)] \<and> FIRST + length T < 2 ^ mb \<or> T' = T \<and> FIRST + length T = 2 ^ mb" for T'
    using that t ok by (auto simp: synced_def entries_ok_snoc)
  moreover have "reader_ok mb ?z"
    using r t by (auto simp: reader_ok_def)
  ultimately show ?thesis using c unfolding expects_def by blast
qed

lemma put_out_eq: "put_out count st = (count - length st, take count st, drop count st)"
  by (induction count st rule: put_out.induct) auto

text \<open>Putting out the characters of a code, once the loop is known to go on from its end.\<close>

lemma read_middle:
  assumes st: "zs_stack zs \<noteq> []" "zs_state zs = S_MIDDLE" and e: "expects mb (finish zs) rest cs"
    and IH: "\<And>count. \<exists>zs'. zread_loop False count (finish zs) = Some (Inr (take count rest), zs') \<and>
      resumable mb zs' (drop count rest)"
  shows "\<exists>zs'. zread_loop True count zs = Some (Inr (take count (zs_stack zs @ rest)), zs') \<and>
    resumable mb zs' (drop count (zs_stack zs @ rest))"
proof (cases "count < length (zs_stack zs)")
  case True
  let ?z = "zs\<lparr>zs_stack := drop count (zs_stack zs)\<rparr>"
  have "finish ?z = finish zs" by (simp add: finish_def)
  then have "resumable mb ?z (drop count (zs_stack zs @ rest))"
    using True st e by (auto simp: resumable_def)
  moreover have "zread_loop True count zs = Some (Inr (take count (zs_stack zs)), ?z)"
    using st True by (subst zread_loop.simps) (simp add: put_out_eq)
  ultimately show ?thesis using True by simp
next
  case False
  obtain zs' where z: "zread_loop False (count - length (zs_stack zs)) (finish zs) =
      Some (Inr (take (count - length (zs_stack zs)) rest), zs')"
    "resumable mb zs' (drop (count - length (zs_stack zs)) rest)" using IH by blast
  have "zread_loop True count zs = Some (Inr (zs_stack zs @ take (count - length (zs_stack zs)) rest), zs')"
    using st False z(1) by (subst zread_loop.simps) (simp add: put_out_eq finish_def)
  with z(2) False show ?thesis by simp
qed

lemma read_codes:
  "expects mb zs tx cs \<Longrightarrow>
     \<exists>zs'. zread_loop False count zs = Some (Inr (take count tx), zs') \<and> resumable mb zs' (drop count tx)"
proof (induction cs arbitrary: zs tx count)
  case Nil
  then obtain T n off bs where a: "at_code zs n off bs" "encodes n off [] bs" "tx = []"
    by (auto simp: expects_def elim: coded_Nil)
  obtain z where "getcode zs = (None, z)" using getcode_none [OF a(1,2)] by (metis prod.collapse)
  then show ?case using a(3) by (subst zread_loop.simps) (simp add: resumable_def)
next
  case (Cons x cs)
  obtain c ch where x: "x = (c, ch)" by fastforce
  obtain T n off bs where r: "reader_ok mb zs" and a: "at_code zs n off bs" "n \<le> mb"
    "encodes n off ((c, ch) # cs) bs" "coded mb T n tx ((c, ch) # cs)" "synced mb zs T tx"
    using Cons.prems unfolding expects_def x by blast
  have n: "9 \<le> n" using a(1) by (simp add: at_code_def)
  have w: "width_ok zs" "zs_maxmaxcode zs = 2 ^ mb" "mb \<le> 16"
    using r by (auto simp: reader_ok_def width_ok_def)
  obtain z where z: "getcode zs = (Some c, z)" "in_group z n (off + n) bs" "same_tables zs z"
    "\<not> zs_clear_flg z" "width_ok z" using getcode_some [OF a(1,3) w(1)] by blast
  have rz: "reader_ok mb z" by (rule reader_ok_same [OF z(3,5) r])
  have ok: "entries_ok T" "FIRST + length T \<le> 2 ^ mb" using a(5) by (simp_all add: synced_def)
  from coded_ConsD [OF a(4)] consider
    (cl) "c = CLEAR" "ch = Some INIT_BITS" "coded mb [] INIT_BITS tx cs"
  | (code) tx' where "is_code T c" "ch = widen mb n (FIRST + length T)" "tx = text_of T c @ tx'"
      "cs = [] \<and> tx' = [] \<or>
        (\<exists>T'. coded mb T' (width_after ch n) tx' cs \<and>
          (T' = T @ [(c, hd tx')] \<and> FIRST + length T < 2 ^ mb \<or> T' = T \<and> FIRST + length T = 2 ^ mb))"
    by blast
  then show ?case
  proof cases
    case cl
    have "zs_maxcode z = maxc mb n" "12 \<le> mb" using rz z(2,5) by (auto simp: reader_ok_def width_ok_def in_group_def)
    then have "FIRST \<le> zs_maxcode z"
      using n power_increasing [of 9 n "2 :: nat"] power_increasing [of 12 mb "2 :: nat"] by (auto simp: maxc_def)
    note at = at_code_clear [OF z(2) n _ z(5) this, of c cs]
    have "at_code (read_clear z) INIT_BITS 0 (drop n bs)" "encodes INIT_BITS 0 cs (drop n bs)"
      using at a(3) cl(2) by simp_all
    moreover have "synced mb (read_clear z) [] tx"
      using a(5) z(3) ok(2) by (auto simp: synced_def read_clear_def table_has_def same_tables_def)
    moreover have "reader_ok mb (read_clear z)"
      using rz by (simp add: reader_ok_def width_ok_def read_clear_def)
    ultimately have "expects mb (read_clear z) tx cs"
      using cl(3) \<open>12 \<le> mb\<close> unfolding expects_def by (intro conjI exI [of _ "[]"] exI [of _ INIT_BITS] exI) auto
    from Cons.IH [OF this] have "\<exists>zs'. zread_loop False count (read_clear z) = Some (Inr (take count tx), zs') \<and>
        resumable mb zs' (drop count tx)" .
    moreover have "zread_loop False count zs = zread_loop False count (read_clear z)"
      using rz z(1) cl(1) by (subst zread_loop.simps) (simp add: reader_ok_def)
    ultimately show ?thesis by simp
  next
    case code
    note c = code(1-3) and nxt = code(4)
    let ?z = "take_code c (text_of T c) z"
    have sz: "synced mb z T (text_of T c @ tx')" "zs_stack z = []" "zs_maxmaxcode z = 2 ^ mb"
      using a(5) c(3) z(3) r w(2) by (auto simp: synced_def same_tables_def table_has_def reader_ok_def)
    note step = lzw_decode_step [OF sz(1) c(1) sz(3,2)]
    obtain k st where u: "(if c \<ge> zs_free_ent z
        then unwind (tab_prefix z) (tab_suffix z) (the (zs_oldcode z)) (zs_finchar z # zs_stack z)
        else unwind (tab_prefix z) (tab_suffix z) c (zs_stack z)) = Some (k, st)"
      "tab_suffix z k # st = text_of T c" using step(2) by blast
    have "c \<noteq> CLEAR" using c(1) by (auto simp: is_code_def)
    moreover have "?z = z\<lparr>zs_incode := c, zs_finchar := tab_suffix z k, zs_stack := tab_suffix z k # st\<rparr>"
      by (simp add: take_code_def u(2) [symmetric])
    ultimately have run: "zread_loop False count zs = zread_loop True count ?z"
      using z(1) step(1) u(1) by (subst zread_loop.simps) auto
    have ex: "expects mb (finish ?z) tx' cs"
      by (rule expects_next [OF rz z(2,4) n a(2,3) ok c(1) step(3) c(2) nxt])
    have "zs_state ?z = S_MIDDLE" using rz by (simp add: reader_ok_def)
    from read_middle [OF _ this ex Cons.IH [OF ex], of count] show ?thesis
      unfolding run using text_not_Nil [OF ok(1) c(1)] c(3) by simp
  qed
qed

lemma read_resumable:
  assumes "resumable mb zs tx"
  shows "\<exists>zs'. zread n zs = Some (Inr (take n tx), zs') \<and> resumable mb zs' (drop n tx)"
proof (cases "n = 0")
  case True
  with assms show ?thesis by (simp add: zread_def)
next
  case False
  from assms consider (eof) "zs_state zs = S_EOF" "tx = []"
    | (mid) rest cs where "zs_state zs = S_MIDDLE" "zs_stack zs \<noteq> []" "tx = zs_stack zs @ rest"
        "expects mb (finish zs) rest cs"
    by (auto simp: resumable_def)
  then show ?thesis
  proof cases
    case eof
    with False show ?thesis by (simp add: zread_def resumable_def)
  next
    case mid
    from read_middle [OF mid(2,1,4) read_codes [OF mid(4)], of n] show ?thesis
      using False mid(1,3) by (simp add: zread_def)
  qed
qed

lemma reads_resumable: "resumable mb zs tx \<Longrightarrow> zreads ns zs = Some (Inr (take (sum_list ns) tx))"
proof (induction ns arbitrary: zs tx)
  case (Cons n ns)
  from read_resumable [OF Cons.prems, of n] obtain zs' where
    "zread n zs = Some (Inr (take n tx), zs')" "resumable mb zs' (drop n tx)" by blast
  with Cons.IH [of zs' "drop n tx"] show ?case by (simp add: take_add)
qed simp

text \<open>A file: the header, and codes from an empty table on.\<close>

definition header :: "nat \<Rightarrow> byte list" where
  "header mb = magic_header @ [word_of_nat mb OR 0x80]"

lemma header_bits:
  "mb \<le> 16 \<Longrightarrow> (word_of_nat mb OR 0x80 :: byte) AND 0x1f = word_of_nat mb \<and>
     (word_of_nat mb OR 0x80 :: byte) AND 0x80 = 0x80"
proof -
  assume "mb \<le> 16"
  then have "mb \<in> {0,1,2,3,4,5,6,7,8,9,10,11,12,13,14,15,16}"
    unfolding insert_iff empty_iff by presburger
  then show ?thesis by auto
qed

lemma zread_start_file:
  assumes mb: "12 \<le> mb" "mb \<le> 16" and e: "encodes INIT_BITS 0 cs body" and c: "coded mb [] INIT_BITS tx cs"
    and z: "zopen ''r'' 0 (header mb @ body) = Inr zs"
  shows "\<exists>zs'. zs_state zs = S_START \<and> zread_start zs = Inr zs' \<and> expects mb zs' tx cs"
proof -
  have u: "unat (word_of_nat mb :: byte) = mb" using mb(2) by (simp add: unsigned_of_nat take_bit_nat_eq_self)
  note hb = header_bits [OF mb(2)]
  have p: "512 \<le> (2 :: nat) ^ mb" using power_increasing [of 9 mb "2 :: nat"] mb(1) by simp
  have zs: "fp_in zs = header mb @ body" "zs_state zs = S_START" "zs_gbuf zs = replicate 16 0"
    "zs_roffset zs = 0" "zs_size zs = 0" "\<not> zs_clear_flg zs"
    using z by (auto simp: zopen_def Let_def)
  obtain zs' where s: "zread_start zs = Inr zs'" and
    f: "fp_in zs' = body" "zs_gbuf zs' = replicate 16 0" "zs_roffset zs' = 0" "zs_size zs' = 0"
    "\<not> zs_clear_flg zs'" "zs_n_bits zs' = 9" "zs_maxcode zs' = 511" "zs_free_ent zs' = 257"
    "zs_maxbits zs' = mb" "zs_maxmaxcode zs' = 2 ^ mb" "zs_block_compress zs' = 0x80"
    "zs_stack zs' = []" "zs_state zs' = S_MIDDLE" "zs_oldcode zs' = None"
    "\<forall>c<256. tab_suffix zs' c = word_of_nat c"
    using zs mb hb u
    by (simp add: zread_start_def header_def magic_header_def Let_def MAXCODE_def)
  have "at_code zs' INIT_BITS 0 body" using f by (simp add: at_code_def next_width_def)
  moreover have "synced mb zs' [] tx" using f p by (simp add: synced_def table_has_def)
  moreover have "reader_ok mb zs'" using f mb by (simp add: reader_ok_def width_ok_def maxc_def)
  ultimately have "expects mb zs' tx cs" unfolding expects_def using e c mb(1)
    by (intro conjI exI [of _ "[]"] exI [of _ INIT_BITS] exI [of _ 0] exI [of _ body]) auto
  with s zs(2) show ?thesis by blast
qed

lemma decompress_file:
  assumes "12 \<le> mb" "mb \<le> 16" "encodes INIT_BITS 0 cs body" "coded mb [] INIT_BITS tx cs"
  shows "decompress (header mb @ body) ns = Some (Inr (take (sum_list ns) tx))"
proof -
  obtain zs where z: "zopen ''r'' 0 (header mb @ body) = Inr zs" by (simp add: zopen_def Let_def)
  obtain zs' where s: "zs_state zs = S_START" "zread_start zs = Inr zs'" "expects mb zs' tx cs"
    using zread_start_file [OF assms z] by blast
  have "zreads ns zs = Some (Inr (take (sum_list ns) tx))"
  proof (induction ns)
    case (Cons n ns)
    show ?case
    proof (cases "n = 0")
      case True
      with Cons.IH show ?thesis by (simp add: zread_def)
    next
      case False
      from read_codes [OF s(3), of n] obtain zs'' where
        "zread_loop False n zs' = Some (Inr (take n tx), zs'')" "resumable mb zs'' (drop n tx)" by blast
      with False s(1,2) reads_resumable [of mb zs'' "drop n tx" ns] show ?thesis
        by (simp add: zread_def take_add)
    qed
  qed simp
  with z show ?thesis by (simp add: decompress_def)
qed

end
