(* ===== verification/LzwRoundTrip.thy ===== *)
theory LzwRoundTrip
  imports LzwRead
begin

text \<open>
  The encoder writes codes of its input, so what is compressed is decompressed to itself, for
  all inputs and all sizes of the chunks written and read.
\<close>

section \<open>The encoder\<close>

lemma output_sel [simp]:
  "zs_htab (output_code x zs) = zs_htab zs" "zs_codetab (output_code x zs) = zs_codetab zs"
  "zs_free_ent (output_code x zs) = zs_free_ent zs" "zs_ent (output_code x zs) = zs_ent zs"
  "zs_maxbits (output_code x zs) = zs_maxbits zs" "zs_maxmaxcode (output_code x zs) = zs_maxmaxcode zs"
  "zs_block_compress (output_code x zs) = zs_block_compress zs" "zs_mode (output_code x zs) = zs_mode zs"
  "zs_state (output_code x zs) = zs_state zs"
  by (simp_all add: output_code_def flush_def more_bits_def clear_bits_def Let_def split: option.split)

definition tab_ok :: "nat \<Rightarrow> zstate \<Rightarrow> entries \<Rightarrow> bool" where
  "tab_ok mb zs T \<longleftrightarrow>
     9 \<le> mb \<and> mb \<le> 16 \<and> zs_maxbits zs = mb \<and> zs_maxmaxcode zs = 2 ^ mb \<and>
     zs_mode zs = CHR ''w'' \<and> zs_state zs = S_MIDDLE \<and>
     ztab.numbers mb FIRST (zs_htab zs, zs_codetab zs) T \<and>
     zs_free_ent zs = FIRST + length T \<and> FIRST + length T \<le> 2 ^ mb \<and>
     entries_ok T \<and> is_code T (zs_ent zs)"

text \<open>The states after a character: its entry is there, or the code before it is put out.\<close>

definition counted :: "zstate \<Rightarrow> zstate" where
  "counted zs = zs\<lparr>zs_in_count := zs_in_count zs + 1\<rparr>"

definition sent :: "byte \<Rightarrow> zstate \<Rightarrow> zstate" where
  "sent c zs = (output_code (Some (zs_ent zs)) (counted zs))\<lparr>zs_ent := unat c\<rparr>"

definition entered :: "nat \<Rightarrow> nat \<Rightarrow> zstate \<Rightarrow> zstate" where
  "entered i fc zs =
     zs\<lparr>zs_codetab := (zs_codetab zs)(i := zs_free_ent zs), zs_free_ent := zs_free_ent zs + 1,
        zs_htab := (zs_htab zs)(i := Some fc)\<rparr>"

lemma counted_sel [simp]:
  "zs_htab (counted zs) = zs_htab zs" "zs_codetab (counted zs) = zs_codetab zs"
  "zs_free_ent (counted zs) = zs_free_ent zs" "zs_ent (counted zs) = zs_ent zs"
  "zs_maxbits (counted zs) = zs_maxbits zs" "zs_maxmaxcode (counted zs) = zs_maxmaxcode zs"
  "zs_mode (counted zs) = zs_mode zs" "zs_state (counted zs) = zs_state zs"
  "fp_out (counted zs) = fp_out zs" "zs_n_bits (counted zs) = zs_n_bits zs"
  "zs_maxcode (counted zs) = zs_maxcode zs" "zs_clear_flg (counted zs) = zs_clear_flg zs"
  "buf_ok (counted zs) = buf_ok zs" "continues (counted zs) = continues zs" "change_of (counted zs) = change_of zs"
  by (simp_all add: counted_def buf_ok_def continues_def fun_eq_iff change_of_def)

lemma key_of_code: "tab_ok mb zs T \<Longrightarrow> is_code T e \<Longrightarrow> key_ok mb (e, c)"
  using power_increasing [of 9 mb "2 :: nat"]
  by (auto simp: tab_ok_def is_code_def key_ok_def)

lemma size_room: "tab_ok mb zs T \<Longrightarrow> length T < HSIZE - 1"
proof -
  assume "tab_ok mb zs T"
  then have "FIRST + length T \<le> 2 ^ mb" "mb \<le> 16" by (simp_all add: tab_ok_def)
  moreover from this have "(2 :: nat) ^ mb \<le> 2 ^ 16" by (intro power_increasing) simp_all
  ultimately show ?thesis by simp
qed

lemma numbers_cleared: "ztab.numbers mb b ((\<lambda>i. None), ct) []"
  by (simp add: ztab.numbers_def zok_def zfind_def split: option.split)

lemma zwrite_char_probe:
  "zwrite_char c zs =
     Option.bind (zprobe (zs_maxbits zs) (zs_htab zs, zs_codetab zs) (zs_ent zs, c)) (\<lambda>i.
       Some
         (if zs_htab zs i = Some (fcode_of (zs_maxbits zs) (zs_ent zs, c))
          then (counted zs)\<lparr>zs_ent := zs_codetab zs i\<rparr>
          else if zs_free_ent zs < zs_maxmaxcode zs
          then entered i (fcode_of (zs_maxbits zs) (zs_ent zs, c)) (sent c zs)
          else if zs_in_count (sent c zs) \<ge> zs_checkpoint (sent c zs) \<and> zs_block_compress (sent c zs) \<noteq> 0
          then cl_block (sent c zs) else sent c zs))"
  unfolding zwrite_char_def zprobe_def disp_of_def fcode_of_def start_of_def Let_def sent_def entered_def
    counted_def [symmetric] by (simp cong: if_cong)

text \<open>What writing a character does, by the table.\<close>

lemma zwrite_char_cases:
  assumes t: "tab_ok mb zs T"
  obtains
    (found) i where "i < length T" "T ! i = (zs_ent zs, c)"
      "zwrite_char c zs = Some ((counted zs)\<lparr>zs_ent := FIRST + i\<rparr>)"
  | (new) i fc where "FIRST + length T < 2 ^ mb" "zwrite_char c zs = Some (entered i fc (sent c zs))"
      "ztab.numbers mb FIRST (zs_htab (entered i fc (sent c zs)), zs_codetab (entered i fc (sent c zs)))
         (T @ [(zs_ent zs, c)])"
  | (full) "FIRST + length T = 2 ^ mb" "zwrite_char c zs = Some (sent c zs)"
  | (block) "FIRST + length T = 2 ^ mb" "zwrite_char c zs = Some (cl_block (sent c zs))"
proof -
  let ?k = "(zs_ent zs, c)" and ?t = "(zs_htab zs, zs_codetab zs)"
  have e: "is_code T (zs_ent zs)" and mb: "zs_maxbits zs = mb" "zs_maxmaxcode zs = 2 ^ mb"
    and num: "ztab.numbers mb FIRST ?t T" and free: "zs_free_ent zs = FIRST + length T" "FIRST + length T \<le> 2 ^ mb"
    using t by (simp_all add: tab_ok_def)
  have k: "key_ok mb ?k" by (rule key_of_code [OF t e])
  have r: "length T < HSIZE - 1" "length T < HSIZE" using size_room [OF t] by simp_all
  have ok: "zok mb ?t (length T)" using num by (simp add: ztab.numbers_def)
  obtain m where m: "zprobe mb ?t ?k = Some (kslot ?k m)"
    "zs_htab zs (kslot ?k m) = Some (fcode_of mb ?k) \<or> zs_htab zs (kslot ?k m) = None"
    using zprobe_exists [OF ok r(2) k] by (metis fst_conv)
  define i where "i = kslot ?k m"
  have p: "zprobe mb ?t ?k = Some i" using m(1) by (simp only: i_def)
  show thesis
  proof (cases "zs_htab zs i = Some (fcode_of mb ?k)")
    case True
    then have "zfind mb ?t ?k = Some (zs_codetab zs i)" using m(1) by (simp add: zfind_def i_def)
    from ztab.numbers_find [OF num k this] have "zs_codetab zs i - FIRST < length T"
      "T ! (zs_codetab zs i - FIRST) = ?k" "zs_codetab zs i = FIRST + (zs_codetab zs i - FIRST)" by auto
    moreover have "zwrite_char c zs = Some ((counted zs)\<lparr>zs_ent := zs_codetab zs i\<rparr>)"
      using True p by (simp add: zwrite_char_probe mb)
    ultimately show thesis using found [of "zs_codetab zs i - FIRST"] by metis
  next
    case False
    then have none: "zfind mb ?t ?k = None" using m by (simp add: zfind_def i_def)
    have run: "zwrite_char c zs = Some
       (if FIRST + length T < 2 ^ mb then entered i (fcode_of mb ?k) (sent c zs)
        else if zs_in_count (sent c zs) \<ge> zs_checkpoint (sent c zs) \<and> zs_block_compress (sent c zs) \<noteq> 0
        then cl_block (sent c zs) else sent c zs)"
      using False p free(1) mb by (simp add: zwrite_char_probe)
    have "zenter mb ?k (FIRST + length T) ?t =
        (zs_htab (entered i (fcode_of mb ?k) (sent c zs)), zs_codetab (entered i (fcode_of mb ?k) (sent c zs)))"
      using m(1) free(1) by (simp add: zenter_def i_def entered_def sent_def)
    then have "ztab.numbers mb FIRST (zs_htab (entered i (fcode_of mb ?k) (sent c zs)),
        zs_codetab (entered i (fcode_of mb ?k) (sent c zs))) (T @ [?k])"
      using ztab.numbers_enter [OF num r(1) k none] by simp
    note num' = this
    show thesis
    proof (cases "FIRST + length T < 2 ^ mb")
      case True
      with run num' show thesis using new by simp
    next
      case False
      then have f: "FIRST + length T = 2 ^ mb" using free(2) by simp
      with run show thesis using full block by (simp split: if_splits)
    qed
  qed
qed

text \<open>The state in which codes are written, and what holds of the file from there on.\<close>

definition writer :: "nat \<Rightarrow> zstate \<Rightarrow> entries \<Rightarrow> bool" where
  "writer mb zs T \<longleftrightarrow>
     tab_ok mb zs T \<and> 12 \<le> mb \<and> buf_ok zs \<and> zs_maxcode zs = maxc mb (zs_n_bits zs) \<and>
     \<not> zs_clear_flg zs \<and> zs_n_bits zs \<le> mb \<and> FIRST + length T \<le> 2 ^ zs_n_bits zs"

definition writes :: "nat \<Rightarrow> zstate \<Rightarrow> entries \<Rightarrow> byte list \<Rightarrow> byte list \<Rightarrow> bool" where
  "writes mb zs T tx file \<longleftrightarrow>
     (\<exists>cs rest. file = fp_out zs @ rest \<and> continues zs cs rest \<and> coded mb T (zs_n_bits zs) tx cs)"

lemma writerD:
  assumes "writer mb zs T"
  shows "tab_ok mb zs T" "entries_ok T" "is_code T (zs_ent zs)" "zs_free_ent zs = FIRST + length T"
    "FIRST + length T \<le> 2 ^ mb" "12 \<le> mb" "mb \<le> 16" "zs_mode zs = CHR ''w''"
    and "zs_n_bits zs + 1 \<le> 16 \<or> zs_free_ent zs \<le> zs_maxcode zs" "zs_ent zs < 2 ^ zs_n_bits zs"
    and "change_of zs = widen mb (zs_n_bits zs) (FIRST + length T)"
    and "512 \<le> (2 :: nat) ^ zs_n_bits zs"
proof -
  show *: "tab_ok mb zs T" "entries_ok T" "is_code T (zs_ent zs)" "zs_free_ent zs = FIRST + length T"
    "FIRST + length T \<le> 2 ^ mb" "12 \<le> mb" "mb \<le> 16" "zs_mode zs = CHR ''w''"
    using assms by (simp_all add: writer_def tab_ok_def)
  have w: "zs_maxcode zs = maxc mb (zs_n_bits zs)" "\<not> zs_clear_flg zs" "zs_n_bits zs \<le> mb"
    "FIRST + length T \<le> 2 ^ zs_n_bits zs" "9 \<le> zs_n_bits zs"
    using assms by (simp_all add: writer_def buf_ok_def)
  show "zs_n_bits zs + 1 \<le> 16 \<or> zs_free_ent zs \<le> zs_maxcode zs"
    using w(1,3) *(4,5,7) by (auto simp: maxc_def)
  show "zs_ent zs < 2 ^ zs_n_bits zs" using *(3) w(4) by (auto simp: is_code_def)
  show "change_of zs = widen mb (zs_n_bits zs) (FIRST + length T)"
    using w(1,2) *(4) by (simp add: change_of_def widen_def)
  show "512 \<le> (2 :: nat) ^ zs_n_bits zs" using power_increasing [OF w(5), of "2 :: nat"] by simp
qed

text \<open>The state after a code, but for the table and \<open>ent\<close>.\<close>

lemma output_width:
  "zs_n_bits (output_code (Some c) zs) = width_after (change_of zs) (zs_n_bits zs)"
  "\<not> zs_clear_flg (output_code (Some c) zs)"
  "zs_maxcode zs = maxc (zs_maxbits zs) (zs_n_bits zs) \<Longrightarrow> zs_maxmaxcode zs = 2 ^ zs_maxbits zs \<Longrightarrow>
     12 \<le> zs_maxbits zs \<Longrightarrow>
     zs_maxcode (output_code (Some c) zs) = maxc (zs_maxbits zs) (zs_n_bits (output_code (Some c) zs))"
  by (auto simp: output_code_def flush_def more_bits_def clear_bits_def Let_def change_of_def width_after_def
      maxc_def MAXCODE_def)

lemma after_code:
  assumes w: "writer mb zs T"
  defines "z \<equiv> output_code (Some (zs_ent zs)) zs"
  shows "buf_ok z" "zs_n_bits z \<le> mb" "zs_maxcode z = maxc mb (zs_n_bits z)" "\<not> zs_clear_flg z"
    "zs_n_bits z = width_after (widen mb (zs_n_bits zs) (FIRST + length T)) (zs_n_bits zs)"
    "FIRST + length T \<le> 2 ^ zs_n_bits z" "FIRST + length T < 2 ^ mb \<Longrightarrow> FIRST + Suc (length T) \<le> 2 ^ zs_n_bits z"
proof -
  note d = writerD [OF w]
  have *: "buf_ok zs" "zs_maxcode zs = maxc mb (zs_n_bits zs)" "zs_n_bits zs \<le> mb"
    "FIRST + length T \<le> 2 ^ zs_n_bits zs" "zs_maxbits zs = mb" "zs_maxmaxcode zs = 2 ^ mb"
    using w by (simp_all add: writer_def tab_ok_def)
  show "buf_ok z" unfolding z_def by (rule output_some(1) [OF *(1) d(10,9)])
  show n: "zs_n_bits z = width_after (widen mb (zs_n_bits zs) (FIRST + length T)) (zs_n_bits zs)"
    using output_width(1) d(11) by (simp add: z_def)
  have b: "widen mb (zs_n_bits zs) (FIRST + length T) \<noteq> None \<Longrightarrow> zs_n_bits zs + 1 \<le> mb"
    by (rule widen_bound [OF _ d(5) *(3)])
  have v: "widen mb (zs_n_bits zs) (FIRST + length T) = Some k \<Longrightarrow> k = zs_n_bits zs + 1" for k
    by (simp add: widen_def split: if_splits)
  show "zs_n_bits z \<le> mb" using b v *(3) n by (auto simp: width_after_def split: option.splits)
  show "zs_maxcode z = maxc mb (zs_n_bits z)" using output_width(3) [of zs] * d(6) by (simp add: z_def)
  show "\<not> zs_clear_flg z" using output_width(2) by (simp add: z_def)
  show "FIRST + length T \<le> 2 ^ zs_n_bits z"
    using n v *(4) by (auto simp: width_after_def split: option.splits)
  assume l: "FIRST + length T < 2 ^ mb"
  show "FIRST + Suc (length T) \<le> 2 ^ zs_n_bits z"
  proof (cases "widen mb (zs_n_bits zs) (FIRST + length T)")
    case None
    then have "\<not> FIRST + length T > maxc mb (zs_n_bits zs)" by (simp add: widen_def split: if_splits)
    moreover have "0 < (2 :: nat) ^ zs_n_bits zs" by simp
    ultimately have "FIRST + Suc (length T) \<le> 2 ^ zs_n_bits zs"
      using l by (cases "zs_n_bits zs = mb") (simp_all add: maxc_def)
    with None n show ?thesis by (simp add: width_after_def)
  next
    case (Some k)
    with n v *(4) show ?thesis by (simp add: width_after_def)
  qed
qed

lemma writes_code:
  assumes w: "writer mb zs T" and f: "continues (output_code (Some (zs_ent zs)) zs) cs rest"
    "file = fp_out (output_code (Some (zs_ent zs)) zs) @ rest"
    and c: "coded mb T (zs_n_bits zs) tx ((zs_ent zs, widen mb (zs_n_bits zs) (FIRST + length T)) # cs)"
  shows "writes mb zs T tx file"
proof -
  note d = writerD [OF w]
  have "buf_ok zs" using w by (simp add: writer_def)
  from output_some(2) [OF this d(10,9) f(1)] show ?thesis
    using c f(2) d(11) by (auto simp: writes_def)
qed

text \<open>Fields that are set do not touch the buffer.\<close>

lemma sent_sel [simp]:
  "zs_htab (sent c zs) = zs_htab zs" "zs_codetab (sent c zs) = zs_codetab zs"
  "zs_free_ent (sent c zs) = zs_free_ent zs" "zs_ent (sent c zs) = unat c"
  "zs_maxbits (sent c zs) = zs_maxbits zs" "zs_maxmaxcode (sent c zs) = zs_maxmaxcode zs"
  "zs_mode (sent c zs) = zs_mode zs" "zs_state (sent c zs) = zs_state zs"
  by (simp_all add: sent_def)

lemma buf_other [simp]:
  "buf_ok (entered i fc zs) = buf_ok zs" "continues (entered i fc zs) = continues zs"
  "fp_out (entered i fc zs) = fp_out zs" "zs_n_bits (entered i fc zs) = zs_n_bits zs"
  "zs_maxcode (entered i fc zs) = zs_maxcode zs" "zs_clear_flg (entered i fc zs) = zs_clear_flg zs"
  "buf_ok (zs\<lparr>zs_ent := e\<rparr>) = buf_ok zs" "continues (zs\<lparr>zs_ent := e\<rparr>) = continues zs"
  by (simp_all add: entered_def buf_ok_def continues_def fun_eq_iff)

lemma entered_sel [simp]:
  "zs_free_ent (entered i fc zs) = zs_free_ent zs + 1" "zs_ent (entered i fc zs) = zs_ent zs"
  "zs_maxbits (entered i fc zs) = zs_maxbits zs" "zs_maxmaxcode (entered i fc zs) = zs_maxmaxcode zs"
  "zs_mode (entered i fc zs) = zs_mode zs" "zs_state (entered i fc zs) = zs_state zs"
  by (simp_all add: entered_def)

lemma writer_counted: "writer mb (counted zs) T = writer mb zs T"
  by (simp add: writer_def tab_ok_def)

lemma writer_ent: "writer mb zs T \<Longrightarrow> is_code T e \<Longrightarrow> writer mb (zs\<lparr>zs_ent := e\<rparr>) T"
  by (simp add: writer_def tab_ok_def)

lemma byte_less: "unat (c :: byte) < 256"
  by (rule order_less_le_trans [OF unsigned_less]) simp

lemma is_code_byte [simp]: "is_code T (unat (c :: byte))"
  using byte_less [of c] by (simp add: is_code_def)

lemma text_byte: "text_of T (unat (c :: byte)) = [c]"
  using byte_less [of c] by (simp add: text_small)

lemma writer_sent:
  assumes w: "writer mb zs T" shows "writer mb (sent c zs) T"
proof -
  have "writer mb (counted zs) T" using w by (simp add: writer_counted)
  from after_code [OF this] w show ?thesis
    by (auto simp: writer_def sent_def tab_ok_def)
qed

lemma writer_entered:
  assumes w: "writer mb zs T" and r: "FIRST + length T < 2 ^ mb"
    and n: "ztab.numbers mb FIRST (zs_htab (entered i fc (sent c zs)), zs_codetab (entered i fc (sent c zs)))
      (T @ [(zs_ent zs, c)])"
  shows "writer mb (entered i fc (sent c zs)) (T @ [(zs_ent zs, c)])"
proof -
  have wc: "writer mb (counted zs) T" using w by (simp add: writer_counted)
  have "FIRST + Suc (length T) \<le> 2 ^ zs_n_bits (sent c zs)"
    using after_code(7) [OF wc r] by (simp add: sent_def)
  moreover have "writer mb (sent c zs) T" by (rule writer_sent [OF w])
  moreover have "is_code T (zs_ent zs)" "entries_ok T" using w by (simp_all add: writer_def tab_ok_def)
  ultimately show ?thesis
    using n r by (simp add: writer_def tab_ok_def entries_ok_snoc)
qed

text \<open>The clearing of the table: the code \<open>CLEAR\<close> goes out with the table empty already.\<close>

definition cleared :: "zstate \<Rightarrow> zstate" where
  "cleared zs =
     zs\<lparr>zs_checkpoint := zs_in_count zs + CHECK_GAP, zs_ratio := 0, zs_htab := (\<lambda>i. None),
        zs_free_ent := FIRST, zs_clear_flg := True\<rparr>"

lemma cl_block_cases:
  obtains (keep) r k where "cl_block zs = zs\<lparr>zs_checkpoint := k, zs_ratio := r\<rparr>"
  | (clear) "cl_block zs = output_code (Some CLEAR) (cleared zs)"
  by (simp add: cl_block_def Let_def cleared_def) (metis (no_types))

lemma writer_clear:
  assumes w: "writer mb zs T" and e: "zs_ent zs < 256"
  shows "writer mb (output_code (Some CLEAR) (cleared zs)) []" "zs_n_bits (output_code (Some CLEAR) (cleared zs)) = INIT_BITS"
    and "continues (output_code (Some CLEAR) (cleared zs)) cs rest' \<Longrightarrow>
      \<exists>rest. fp_out (output_code (Some CLEAR) (cleared zs)) @ rest' = fp_out zs @ rest \<and>
        continues zs ((CLEAR, Some INIT_BITS) # cs) rest"
proof -
  note d = writerD [OF w]
  let ?c = "cleared zs"
  have mb: "12 \<le> mb" "mb \<le> 16" "zs_maxbits zs = mb" "zs_maxmaxcode zs = 2 ^ mb" "buf_ok zs"
    "zs_maxcode zs = maxc mb (zs_n_bits zs)"
    using w by (simp_all add: writer_def tab_ok_def)
  have bc: "buf_ok ?c" using mb(5) by (simp add: buf_ok_def cleared_def)
  have l: "CLEAR < 2 ^ zs_n_bits ?c" using d(12) by (simp add: cleared_def)
  have "512 \<le> (2 :: nat) ^ mb" using power_increasing [of 9 mb "2 :: nat"] mb(1) by simp
  then have "FIRST \<le> maxc mb (zs_n_bits zs)" using d(12) unfolding maxc_def by simp linarith
  then have m: "zs_n_bits ?c + 1 \<le> 16 \<or> zs_free_ent ?c \<le> zs_maxcode ?c"
    using mb(6) by (simp add: cleared_def)
  have ch: "change_of ?c = Some INIT_BITS" by (simp add: change_of_def cleared_def)
  note out = output_some [OF bc l m]
  show n9: "zs_n_bits (output_code (Some CLEAR) ?c) = INIT_BITS"
    by (simp add: output_width(1) ch width_after_def)
  have "zs_maxcode (output_code (Some CLEAR) ?c) = maxc mb INIT_BITS"
    using output_width(3) [of ?c CLEAR] mb n9 by (simp add: cleared_def)
  then show "writer mb (output_code (Some CLEAR) ?c) []"
    using w e out(1) n9 output_width(2) [of CLEAR ?c] \<open>512 \<le> 2 ^ mb\<close> mb(1)
    by (simp add: writer_def tab_ok_def cleared_def numbers_cleared is_code_def)
  assume "continues (output_code (Some CLEAR) ?c) cs rest'"
  from out(2) [OF this] show "\<exists>rest. fp_out (output_code (Some CLEAR) ?c) @ rest' = fp_out zs @ rest \<and>
        continues zs ((CLEAR, Some INIT_BITS) # cs) rest"
    by (simp add: ch) (simp add: cleared_def continues_def)
qed

subsection \<open>The file written\<close>

text \<open>A character that has to be sent first, in each of the states that follow.\<close>

lemma writes_sent:
  assumes w: "writer mb zs T" and f: "continues (sent c zs) cs rest" "file = fp_out (sent c zs) @ rest"
    and c: "coded mb T (zs_n_bits zs) tx ((zs_ent zs, widen mb (zs_n_bits zs) (FIRST + length T)) # cs)"
  shows "writes mb zs T tx file"
proof -
  let ?z = "output_code (Some (zs_ent (counted zs))) (counted zs)"
  have wc: "writer mb (counted zs) T" using w by (simp add: writer_counted)
  have z: "continues ?z cs rest" "file = fp_out ?z @ rest" using f by (simp_all add: sent_def)
  have "writes mb (counted zs) T tx file" using writes_code [OF wc z] c by simp
  then show ?thesis by (simp add: writes_def)
qed

lemma sent_width:
  "writer mb zs T \<Longrightarrow>
     zs_n_bits (sent c zs) = width_after (widen mb (zs_n_bits zs) (FIRST + length T)) (zs_n_bits zs)"
  using after_code(5) [of mb "counted zs" T] by (simp add: writer_counted sent_def)

lemma writes_last:
  assumes w: "writer mb zs T"
  shows "writes mb zs T (text_of T (zs_ent zs)) (zclose zs)"
proof -
  let ?z = "output_code (Some (zs_ent zs)) zs"
  note d = writerD [OF w]
  obtain rest where r: "fp_out (output_code None ?z) = fp_out ?z @ rest" "continues ?z [] rest"
    using output_none [OF after_code(1) [OF w]] by blast
  have "zclose zs = fp_out ?z @ rest" using d(8) r(1) by (simp add: zclose_def)
  from writes_code [OF w r(2) this] show ?thesis using last [OF d(3) refl refl] by blast
qed

lemma write_codes:
  "writer mb zs T \<Longrightarrow>
     \<exists>zs'. zwrite_loop cs zs = Some zs' \<and> writes mb zs T (text_of T (zs_ent zs) @ cs) (zclose zs')"
proof (induction cs arbitrary: zs T)
  case Nil
  then show ?case using writes_last by simp
next
  case (Cons c cs)
  note w = Cons.prems
  note d = writerD [OF w]
  let ?ch = "widen mb (zs_n_bits zs) (FIRST + length T)"
  note nb = sent_width [OF w, of c] and ws = writer_sent [OF w, of c]
  from d(1) show ?case
  proof (cases rule: zwrite_char_cases [where c = c])
    case (found i)
    let ?z = "(counted zs)\<lparr>zs_ent := FIRST + i\<rparr>"
    have "writer mb ?z T"
      using w found(1) by (intro writer_ent) (simp_all add: writer_counted is_code_def)
    from Cons.IH [OF this] obtain zs' where z: "zwrite_loop cs ?z = Some zs'"
      "writes mb ?z T (text_of T (FIRST + i) @ cs) (zclose zs')" by auto
    have "text_of T (FIRST + i) = text_of T (zs_ent zs) @ [c]"
      using text_entry [OF d(2) found(1)] found(2) by simp
    moreover have "writes mb ?z = writes mb zs" by (simp add: writes_def fun_eq_iff)
    ultimately show ?thesis using z found(3) by simp
  next
    case (new i fc)
    let ?z = "entered i fc (sent c zs)" and ?T = "T @ [(zs_ent zs, c)]"
    from Cons.IH [OF writer_entered [OF w new(1,3)]] obtain zs' where z: "zwrite_loop cs ?z = Some zs'"
      "writes mb ?z ?T ([c] @ cs) (zclose zs')" by (auto simp: text_byte)
    then obtain os rest where r: "zclose zs' = fp_out (sent c zs) @ rest" "continues (sent c zs) os rest"
      "coded mb ?T (zs_n_bits (sent c zs)) (c # cs) os" by (auto simp: writes_def)
    have "coded mb T (zs_n_bits zs) (text_of T (zs_ent zs) @ c # cs) ((zs_ent zs, ?ch) # os)"
      using r(3) nb by (intro add [OF d(3) new(1) refl]) simp_all
    from writes_sent [OF w r(2,1) this] show ?thesis using new(2) z(1) by simp
  next
    case full
    from Cons.IH [OF ws] obtain zs' where z: "zwrite_loop cs (sent c zs) = Some zs'"
      "writes mb (sent c zs) T ([c] @ cs) (zclose zs')" by (auto simp: text_byte)
    then obtain os rest where r: "zclose zs' = fp_out (sent c zs) @ rest" "continues (sent c zs) os rest"
      "coded mb T (zs_n_bits (sent c zs)) (c # cs) os" by (auto simp: writes_def)
    have "coded mb T (zs_n_bits zs) (text_of T (zs_ent zs) @ c # cs) ((zs_ent zs, ?ch) # os)"
      using r(3) nb by (intro coded.full [OF d(3) full(1) refl]) simp_all
    from writes_sent [OF w r(2,1) this] show ?thesis using full(2) z(1) by simp
  next
    case block
    show ?thesis
    proof (cases rule: cl_block_cases [of "sent c zs"])
      case (keep r k)
      let ?z = "(sent c zs)\<lparr>zs_checkpoint := k, zs_ratio := r\<rparr>"
      have "writer mb ?z T" using ws by (simp add: writer_def tab_ok_def buf_ok_def)
      from Cons.IH [OF this] obtain zs' where z: "zwrite_loop cs ?z = Some zs'"
        "writes mb ?z T ([c] @ cs) (zclose zs')" by (auto simp: text_byte)
      then obtain os rest where r: "zclose zs' = fp_out (sent c zs) @ rest" "continues (sent c zs) os rest"
        "coded mb T (zs_n_bits (sent c zs)) (c # cs) os" by (auto simp: writes_def continues_def)
      have "coded mb T (zs_n_bits zs) (text_of T (zs_ent zs) @ c # cs) ((zs_ent zs, ?ch) # os)"
        using r(3) nb by (intro coded.full [OF d(3) block(1) refl]) simp_all
      from writes_sent [OF w r(2,1) this] show ?thesis using block(2) keep z(1) by simp
    next
      case clear
      have e: "zs_ent (sent c zs) < 256" by (simp add: byte_less)
      let ?z = "output_code (Some CLEAR) (cleared (sent c zs))"
      note wz = writer_clear [OF ws e]
      from Cons.IH [OF wz(1)] obtain zs' where z: "zwrite_loop cs ?z = Some zs'"
        "writes mb ?z [] ([c] @ cs) (zclose zs')" by (auto simp: text_byte cleared_def)
      then obtain os rest where r: "zclose zs' = fp_out ?z @ rest" "continues ?z os rest"
        "coded mb [] INIT_BITS (c # cs) os" by (auto simp: writes_def wz(2))
      obtain rest' where r': "zclose zs' = fp_out (sent c zs) @ rest'"
        "continues (sent c zs) ((CLEAR, Some INIT_BITS) # os) rest'"
        using wz(3) [OF r(2)] r(1) by auto
      have "coded mb T (width_after ?ch (zs_n_bits zs)) (c # cs) ((CLEAR, Some INIT_BITS) # os)"
        by (rule coded.clear [OF block(1) r(3)])
      then have "coded mb T (zs_n_bits zs) (text_of T (zs_ent zs) @ c # cs)
          ((zs_ent zs, ?ch) # (CLEAR, Some INIT_BITS) # os)"
        by (intro coded.full [OF d(3) block(1) refl])
      from writes_sent [OF w r'(2,1) this] show ?thesis using block(2) clear z(1) by simp
    qed
  qed
qed

subsection \<open>Chunks\<close>

lemma zwrite_loop_append:
  "zwrite_loop (xs @ ys) zs = Option.bind (zwrite_loop xs zs) (zwrite_loop ys)"
proof (induction xs arbitrary: zs)
  case (Cons x xs)
  then show ?case by (cases "zwrite_char x zs") simp_all
qed simp

lemma zwrite_loop_state: "zwrite_loop cs zs = Some zs' \<Longrightarrow> zs_state zs' = zs_state zs"
proof (induction cs arbitrary: zs)
  case (Cons c cs)
  then obtain z where z: "zwrite_char c zs = Some z" "zwrite_loop cs z = Some zs'"
    by (auto simp: bind_eq_Some_conv)
  have "zs_state (cl_block x) = zs_state x" for x by (simp add: cl_block_def Let_def)
  then have "zs_state z = zs_state zs"
    using z(1) by (auto simp: zwrite_char_probe bind_eq_Some_conv split: if_splits)
  with Cons.IH [OF z(2)] show ?case by simp
qed simp

lemma zwrites_middle: "zs_state zs = S_MIDDLE \<Longrightarrow> zwrites ws zs = zwrite_loop (concat ws) zs"
proof (induction ws arbitrary: zs)
  case (Cons w ws)
  have "zwrite w zs = zwrite_loop w zs" using Cons.prems by (cases w) (simp_all add: zwrite_def)
  then show ?case
    using Cons.IH Cons.prems zwrite_loop_state [of w zs]
    by (cases "zwrite_loop w zs") (auto simp: zwrite_loop_append)
qed simp

lemma zwrites_start:
  "zs_state zs = S_START \<Longrightarrow> concat ws = c # cs \<Longrightarrow> zwrites ws zs = zwrite_loop cs (zwrite_start c zs)"
proof (induction ws)
  case (Cons w ws)
  show ?case
  proof (cases w)
    case Nil
    with Cons show ?thesis by (simp add: zwrite_def)
  next
    case (Cons d ds)
    have "zs_state (zwrite_start c zs) = S_MIDDLE" by (simp add: zwrite_start_def)
    then have "Option.bind (zwrite_loop ds (zwrite_start c zs)) (zwrites ws) =
        Option.bind (zwrite_loop ds (zwrite_start c zs)) (zwrite_loop (concat ws))"
      using zwrites_middle zwrite_loop_state [of ds "zwrite_start c zs"]
      by (cases "zwrite_loop ds (zwrite_start c zs)") auto
    with Cons Cons.prems show ?thesis by (auto simp: zwrite_def zwrite_loop_append)
  qed
qed simp

lemma zwrite_start_writer:
  assumes "zopen ''w'' bits [] = Inr zs" and mb: "mb = (if bits \<noteq> 0 then bits else 16)" "9 \<le> mb"
  shows "tab_ok mb (zwrite_start c zs) []" "fp_out (zwrite_start c zs) = header mb" "zs_state zs = S_START"
    and "12 \<le> mb \<Longrightarrow> writer mb (zwrite_start c zs) []"
proof -
  have zs: "zs_maxbits zs = mb" "fp_out zs = []" "zs_mode zs = CHR ''w''" "zs_block_compress zs = 0x80"
    "zs_state zs = S_START" "length (zs_buf zs) = 16" "mb \<le> 16"
    using assms(1) mb(1) by (auto simp: zopen_def Let_def split: if_splits)
  have p: "512 \<le> (2 :: nat) ^ mb" using power_increasing [OF mb(2), of "2 :: nat"] by simp
  show t: "tab_ok mb (zwrite_start c zs) []"
    using zs p mb(2) by (simp add: tab_ok_def zwrite_start_def numbers_cleared)
  show "fp_out (zwrite_start c zs) = header mb" using zs by (simp add: zwrite_start_def header_def)
  show "zs_state zs = S_START" by (rule zs(5))
  show "12 \<le> mb \<Longrightarrow> writer mb (zwrite_start c zs) []"
    using t zs by (simp add: writer_def buf_ok_def zwrite_start_def MAXCODE_def maxc_def)
qed

lemma compress_file:
  assumes data: "concat chunks = c # cs" and mb: "mb = (if bits \<noteq> 0 then bits else 16)" "12 \<le> mb" "mb \<le> 16"
  obtains body os where "compress bits chunks = Some (Inr (header mb @ body))"
    "encodes INIT_BITS 0 os body" "coded mb [] INIT_BITS (c # cs) os"
proof -
  have "9 \<le> mb" using mb(2) by simp
  obtain zs where z: "zopen ''w'' bits [] = Inr zs"
    using mb by (auto simp: zopen_def Let_def split: if_splits)
  note st = zwrite_start_writer [OF z mb(1) \<open>9 \<le> mb\<close>]
  have e: "zs_ent (zwrite_start c zs) = unat c" "zs_n_bits (zwrite_start c zs) = INIT_BITS"
    "zs_offset (zwrite_start c zs) = 0"
    by (simp_all add: zwrite_start_def)
  from write_codes [OF st(4) [where c = c, OF mb(2)], of cs] obtain zs' where
    w: "zwrite_loop cs (zwrite_start c zs) = Some zs'" "writes mb (zwrite_start c zs) [] (c # cs) (zclose zs')"
    by (auto simp: e text_byte)
  obtain os rest where r: "zclose zs' = header mb @ rest" "encodes INIT_BITS 0 os rest"
    "coded mb [] INIT_BITS (c # cs) os"
    using w(2) by (auto simp: writes_def continues_def e st(2))
  have "compress bits chunks = Some (Inr (header mb @ rest))"
    using z zwrites_start [OF st(3) data] w(1) r(1) by (simp add: compress_def)
  with r that show ?thesis by blast
qed

section \<open>Properties\<close>



end
