(* ===== verification/LzwSafe.thy ===== *)
theory LzwSafe
  imports LzwRoundTrip
begin

text \<open>
  The decoder on any input, and the encoder with fewer than 12 bits: reading a file always
  returns and never leaves the tables and the stack, and what \<open>compress -b\<close> writes with 9 to 11
  bits is refused.
\<close>

section \<open>Decoding any file\<close>

text \<open>
  What holds between two codes: the widths and the entries stay within the tables, and the
  prefix of an entry is a code before it, so that \<open>unwind\<close> ends.
\<close>

definition tables_inv :: "zstate \<Rightarrow> bool" where
  "tables_inv zs \<longleftrightarrow>
     width_ok zs \<and> zs_maxbits zs \<le> 16 \<and> 9 \<le> zs_n_bits zs \<and> zs_n_bits zs \<le> zs_maxbits zs \<and>
     256 \<le> zs_free_ent zs \<and> zs_free_ent zs \<le> 2 ^ zs_maxbits zs \<and>
     (zs_block_compress zs \<noteq> 0 \<longrightarrow> FIRST \<le> zs_free_ent zs) \<and>
     (\<forall>c. 256 \<le> c \<and> c < zs_free_ent zs \<longrightarrow> tab_prefix zs c < c) \<and>
     (\<forall>p. zs_oldcode zs = Some p \<longrightarrow> p < zs_free_ent zs)"

text \<open>Before a request: at the start, at the end, or within the characters of a code.\<close>

definition reader_inv :: "zstate \<Rightarrow> bool" where
  "reader_inv zs \<longleftrightarrow>
     (case zs_state zs of
        S_START \<Rightarrow> \<exists>bits file. zopen ''r'' bits file = Inr zs
      | S_MIDDLE \<Rightarrow> zs_stack zs \<noteq> [] \<and> length (zs_stack zs) \<le> 65536 \<and> tables_inv (finish zs)
      | S_EOF \<Rightarrow> True)"

definition input_left :: "zstate \<Rightarrow> nat" where
  "input_left zs = 8 * length (fp_in zs) + nat (zs_size zs - int (zs_roffset zs))"

lemma tables_invD:
  assumes "tables_inv zs"
  shows "width_ok zs" "zs_maxbits zs \<le> 16" "9 \<le> zs_n_bits zs" "zs_n_bits zs \<le> zs_maxbits zs"
    "256 \<le> zs_free_ent zs" "zs_free_ent zs \<le> 2 ^ zs_maxbits zs"
    "zs_block_compress zs \<noteq> 0 \<Longrightarrow> FIRST \<le> zs_free_ent zs"
    "256 \<le> c \<Longrightarrow> c < zs_free_ent zs \<Longrightarrow> tab_prefix zs c < c"
    "zs_oldcode zs = Some p \<Longrightarrow> p < zs_free_ent zs"
  using assms unfolding tables_inv_def by blast+

lemma unwind_total:
  assumes "\<forall>c. 256 \<le> c \<and> c < n \<longrightarrow> prefix c < c"
  shows "c < n \<Longrightarrow> \<exists>k st'. unwind prefix suffix c st = Some (k, st') \<and> length st' \<le> length st + (c - 255)"
proof (induction c arbitrary: st rule: less_induct)
  case (less c)
  show ?case
  proof (cases "c \<ge> 256")
    case True
    with assms less.prems have p: "prefix c < c" by simp
    with less.IH [of "prefix c" "suffix c # st"] less.prems obtain k st' where
      "unwind prefix suffix (prefix c) (suffix c # st) = Some (k, st')"
      "length st' \<le> length (suffix c # st) + (prefix c - 255)" by auto
    moreover from this(1) True have "unwind prefix suffix c st = Some (k, st')"
      by (subst unwind.simps) simp
    ultimately show ?thesis using p True by (intro exI [of _ k] exI [of _ st']) auto
  next
    case False
    then show ?thesis by (subst unwind.simps) simp
  qed
qed

lemma new_width_inv:
  assumes "tables_inv zs" shows "tables_inv (new_width zs)" "same_tables zs (new_width zs)"
    "fp_in (new_width zs) = fp_in zs"
proof -
  note d = tables_invD [OF assms]
  show s: "same_tables zs (new_width zs)"
    by (auto simp: new_width_def same_tables_def more_bits_def clear_bits_def Let_def)
  show "fp_in (new_width zs) = fp_in zs" by (simp add: new_width_def Let_def)
  have w: "width_ok (new_width zs)"
    using d(1) width_ok_more width_ok_clear by (simp add: new_width_def Let_def)
  have "zs_free_ent zs > zs_maxcode zs \<Longrightarrow> zs_n_bits zs + 1 \<le> zs_maxbits zs"
    using d(1,4,6) by (cases "zs_n_bits zs = zs_maxbits zs") (auto simp: width_ok_def maxc_def)
  then have "9 \<le> zs_n_bits (new_width zs) \<and> zs_n_bits (new_width zs) \<le> zs_maxbits zs"
    using d(1,3,4) by (auto simp: new_width_def Let_def more_bits_def clear_bits_def width_ok_def)
  with s w assms show "tables_inv (new_width zs)" by (simp add: tables_inv_def same_tables_def)
qed

lemma getcode_inv:
  assumes i: "tables_inv zs" and g: "getcode zs = (Some c, zs')"
  shows "tables_inv zs'" "same_tables zs zs'" "input_left zs' < input_left zs" "c < 2 ^ zs_maxbits zs'"
proof -
  obtain z where z: "tables_inv z" "same_tables zs z" "zs' = z\<lparr>zs_roffset := zs_roffset z + zs_n_bits z\<rparr>"
    "c = get_code (zs_n_bits z) (zs_roffset z) (zs_gbuf z)" "input_left zs' < input_left zs"
  proof (cases "zs_clear_flg zs \<or> int (zs_roffset zs) \<ge> zs_size zs \<or> zs_free_ent zs > zs_maxcode zs")
    case False
    then have "getcode zs = (Some (get_code (zs_n_bits zs) (zs_roffset zs) (zs_gbuf zs)),
        zs\<lparr>zs_roffset := zs_roffset zs + zs_n_bits zs\<rparr>)" by (simp add: getcode_def)
    with g have *: "zs' = zs\<lparr>zs_roffset := zs_roffset zs + zs_n_bits zs\<rparr>"
      "c = get_code (zs_n_bits zs) (zs_roffset zs) (zs_gbuf zs)" by simp_all
    have "input_left zs' < input_left zs"
      using False tables_invD(3) [OF i] by (simp add: input_left_def *(1))
    then show ?thesis using that [of zs] * i by (simp add: same_tables_def)
  next
    case True
    let ?w = "new_width zs"
    let ?n = "zs_n_bits ?w"
    note w = new_width_inv [OF i]
    have n: "9 \<le> ?n" by (rule tables_invD(3) [OF w(1)])
    have ne: "fp_in zs \<noteq> []"
      using True g w(3) by (auto simp: getcode_def refill_def Let_def)
    let ?got = "take ?n (fp_in zs)"
    let ?z = "?w\<lparr>zs_gbuf := ?got @ drop (length ?got) (zs_gbuf ?w), fp_in := drop ?n (fp_in zs),
      zs_size := 8 * int (length ?got) - (int ?n - 1), zs_roffset := 0\<rparr>"
    have r: "refill zs = (True, ?z)" using ne n w(3) by (simp add: refill_def Let_def)
    then have *: "zs' = ?z\<lparr>zs_roffset := zs_roffset ?z + zs_n_bits ?z\<rparr>"
      "c = get_code (zs_n_bits ?z) (zs_roffset ?z) (zs_gbuf ?z)"
      using True g by (simp_all add: getcode_def)
    have "input_left zs' < input_left zs"
      using ne n by (simp add: input_left_def *(1) min_def) (cases "fp_in zs", auto)
    moreover have "tables_inv ?z" using w(1) by (simp add: tables_inv_def width_ok_def)
    moreover have "same_tables zs ?z" using w(2) by (simp add: same_tables_def)
    ultimately show ?thesis using that [of ?z] * by simp
  qed
  show "tables_inv zs'" using z(1) by (simp add: z(3) tables_inv_def width_ok_def)
  show "same_tables zs zs'" using z(2) by (simp add: z(3) same_tables_def)
  show "input_left zs' < input_left zs" by (rule z(5))
  note d = tables_invD [OF z(1)]
  have "9 \<le> zs_n_bits z" "zs_n_bits z \<le> 16" using d by simp_all
  then have "take_bit (zs_n_bits z) c = c"
    by (intro bit_eqI) (auto simp: bit_take_bit_iff z(4) get_code_bits)
  then have "c < 2 ^ zs_n_bits z" by (metis take_bit_nat_less_exp)
  moreover have "(2 :: nat) ^ zs_n_bits z \<le> 2 ^ zs_maxbits z" using d(4) by (intro power_increasing) simp_all
  ultimately have "c < 2 ^ zs_maxbits z" by (rule less_le_trans)
  then show "c < 2 ^ zs_maxbits zs'" using z(3) by simp
qed

text \<open>The states that follow a code.\<close>

lemma tables_inv_clear: "tables_inv zs \<Longrightarrow> zs_block_compress zs \<noteq> 0 \<Longrightarrow> tables_inv (read_clear zs)"
proof -
  assume i: "tables_inv zs" and b: "zs_block_compress zs \<noteq> 0"
  note d = tables_invD [OF i]
  have "(2 :: nat) ^ 12 \<le> 2 ^ zs_maxbits zs" using d(1) by (intro power_increasing) (simp_all add: width_ok_def)
  moreover have "tab_prefix zs 256 < 256" using d(7,8) b by simp
  ultimately have "\<forall>c. 256 \<le> c \<and> c < FIRST \<longrightarrow> tab_prefix (read_clear zs) c < c" "FIRST \<le> 2 ^ zs_maxbits zs"
    by (auto simp: read_clear_def) (metis less_Suc_eq_le le_antisym eval_nat_numeral(3) numeral_One)
  then show ?thesis using d(1-4)
    by (simp add: tables_inv_def read_clear_def width_ok_def)
qed

lemma tables_inv_finish:
  assumes i: "tables_inv zs" and c: "c < 2 ^ zs_maxbits zs"
    and ok: "\<not> (c \<ge> zs_free_ent zs \<and> (c > zs_free_ent zs \<or> zs_oldcode zs = None))"
  shows "tables_inv (finish (take_code c st zs))"
proof -
  note d = tables_invD [OF i]
  let ?z = "finish (take_code c st zs)"
  have w: "zs_n_bits ?z = zs_n_bits zs" "zs_maxbits ?z = zs_maxbits zs" "zs_maxcode ?z = zs_maxcode zs"
    "zs_maxmaxcode ?z = zs_maxmaxcode zs" "zs_block_compress ?z = zs_block_compress zs" "zs_oldcode ?z = Some c"
    by (simp_all add: finish_def take_code_def new_entry_def Let_def split: option.split)
  show ?thesis
  proof (cases "zs_oldcode zs \<noteq> None \<and> zs_free_ent zs < zs_maxmaxcode zs")
    case True
    then obtain p where p: "zs_oldcode zs = Some p" by auto
    have z: "zs_free_ent ?z = zs_free_ent zs + 1" "tab_prefix ?z = (tab_prefix zs)(zs_free_ent zs := p)"
      using True p by (simp_all add: finish_def take_code_def new_entry_def Let_def)
    have "zs_free_ent zs + 1 \<le> 2 ^ zs_maxbits zs" using True d(1) by (simp add: width_ok_def)
    moreover have "c < zs_free_ent zs + 1" using ok by linarith
    moreover have "\<forall>e. 256 \<le> e \<and> e < zs_free_ent zs + 1 \<longrightarrow> tab_prefix ?z e < e"
      using d(8) d(9) [OF p] by (simp add: z(2) less_Suc_eq)
    moreover have "width_ok ?z" using d(1) by (simp add: width_ok_def w)
    ultimately show ?thesis using d(2-5,7) unfolding tables_inv_def z(1) w by simp
  next
    case False
    then have z: "zs_free_ent ?z = zs_free_ent zs" "tab_prefix ?z = tab_prefix zs"
      by (auto simp: finish_def take_code_def new_entry_def Let_def split: option.split)
    have "c < zs_free_ent zs" using False ok c d(1,6) by (auto simp: width_ok_def)
    moreover have "width_ok ?z" using d(1) by (simp add: width_ok_def w)
    ultimately show ?thesis using d(2-8) unfolding tables_inv_def z w by simp
  qed
qed

text \<open>The loop: it returns, does not read below the stack, and keeps the invariant.\<close>

definition read_post :: "nat \<Rightarrow> ((zerror + byte list) \<times> zstate) option \<Rightarrow> bool" where
  "read_post count res \<longleftrightarrow>
     (\<exists>r zs'. res = Some (r, zs') \<and>
        (case r of Inl e \<Rightarrow> e = EINVAL | Inr out \<Rightarrow> length out \<le> count \<and> reader_inv zs'))"

lemma post_middle:
  assumes st: "zs_stack zs \<noteq> []" "length (zs_stack zs) \<le> 65536" "zs_state zs = S_MIDDLE"
    and i: "tables_inv (finish zs)"
    and IH: "\<And>count. read_post count (zread_loop False count (finish zs))"
  shows "read_post count (zread_loop True count zs)"
proof (cases "count < length (zs_stack zs)")
  case True
  let ?z = "zs\<lparr>zs_stack := drop count (zs_stack zs)\<rparr>"
  have "finish ?z = finish zs" by (simp add: finish_def)
  then have "reader_inv ?z" using True st i by (simp add: reader_inv_def)
  moreover have "zread_loop True count zs = Some (Inr (take count (zs_stack zs)), ?z)"
    using st True by (subst zread_loop.simps) (simp add: put_out_eq)
  ultimately show ?thesis by (simp add: read_post_def)
next
  case False
  obtain r zs' where z: "zread_loop False (count - length (zs_stack zs)) (finish zs) = Some (r, zs')"
    "case r of Inl e \<Rightarrow> e = EINVAL
      | Inr out \<Rightarrow> length out \<le> count - length (zs_stack zs) \<and> reader_inv zs'"
    using IH [of "count - length (zs_stack zs)"] by (auto simp: read_post_def)
  have "zread_loop True count zs = Some (rmap (\<lambda>out. zs_stack zs @ out) r, zs')"
    using st False z(1) by (subst zread_loop.simps) (simp add: put_out_eq finish_def)
  with z(2) False show ?thesis by (cases r) (auto simp: read_post_def)
qed

lemma read_loop_post:
  "tables_inv zs \<Longrightarrow> zs_stack zs = [] \<Longrightarrow> zs_state zs = S_MIDDLE \<Longrightarrow>
     read_post count (zread_loop False count zs)"
proof (induction "input_left zs" arbitrary: zs count rule: less_induct)
  case less
  note i = less.prems(1)
  obtain oc z where g: "getcode zs = (oc, z)" by fastforce
  show ?case
  proof (cases oc)
    case None
    then show ?thesis using g by (subst zread_loop.simps) (simp add: read_post_def reader_inv_def)
  next
    case (Some c)
    note gi = getcode_inv [OF i g [unfolded Some]]
    have z: "zs_stack z = []" "zs_state z = S_MIDDLE" using gi(2) less.prems(2,3) by (simp_all add: same_tables_def)
    have left: "input_left (read_clear z) = input_left z" by (simp add: input_left_def read_clear_def)
    consider (cl) "c = CLEAR" "zs_block_compress z \<noteq> 0"
      | (bad) "\<not> (c = CLEAR \<and> zs_block_compress z \<noteq> 0)"
        "c \<ge> zs_free_ent z \<and> (c > zs_free_ent z \<or> zs_oldcode z = None)"
      | (good) "\<not> (c = CLEAR \<and> zs_block_compress z \<noteq> 0)"
        "\<not> (c \<ge> zs_free_ent z \<and> (c > zs_free_ent z \<or> zs_oldcode z = None))" by argo
    then show ?thesis
    proof cases
      case cl
      have "read_post count (zread_loop False count (read_clear z))"
        using less.hyps [of "read_clear z"] gi(3) left tables_inv_clear [OF gi(1) cl(2)] z
        by (simp add: read_clear_def)
      with cl g Some show ?thesis by (subst zread_loop.simps) simp
    next
      case bad
      then have "zread_loop False count zs = Some (Inl EINVAL, z\<lparr>zs_incode := c\<rparr>)"
        using g Some by (subst zread_loop.simps) auto
      then show ?thesis by (simp add: read_post_def)
    next
      case good
      let ?start = "if c \<ge> zs_free_ent z then the (zs_oldcode z) else c"
      let ?on = "if c \<ge> zs_free_ent z then [zs_finchar z] else []"
      note d = tables_invD [OF gi(1)]
      have start: "?start < zs_free_ent z" using good(2) d(9) by (cases "zs_oldcode z") auto
      obtain k st where u: "unwind (tab_prefix z) (tab_suffix z) ?start ?on = Some (k, st)"
        "length st \<le> length ?on + (?start - 255)"
        using unwind_total [OF _ start, of "tab_prefix z" "tab_suffix z" ?on] d(8) by blast
      let ?st = "tab_suffix z k # st"
      let ?z = "take_code c ?st z"
      have "zread_loop False count zs = zread_loop True count ?z"
        using good g Some u(1) z by (subst zread_loop.simps) (auto simp: take_code_def)
      moreover have "read_post count (zread_loop True count ?z)"
      proof (rule post_middle)
        have "(2 :: nat) ^ zs_maxbits z \<le> 2 ^ 16" using d(2) by (intro power_increasing) simp_all
        then show "length (zs_stack ?z) \<le> 65536" using u(2) start d(6) by (auto split: if_splits)
        show f: "tables_inv (finish ?z)" by (rule tables_inv_finish [OF gi(1,4) good(2)])
        have "input_left (finish ?z) = input_left z"
          by (simp add: input_left_def finish_def take_code_def new_entry_def Let_def split: option.split)
        then show "read_post count (zread_loop False count (finish ?z))" for count
          using less.hyps [of "finish ?z"] gi(3) f z by simp
      qed (use z in simp_all)
      ultimately show ?thesis by simp
    qed
  qed
qed

lemma start_inv:
  assumes z: "zopen ''r'' bits file = Inr zs" and s: "zread_start zs = Inr z"
  shows "tables_inv z" "zs_stack z = []" "zs_state z = S_MIDDLE"
proof -
  have zs: "tab_prefix zs = (\<lambda>i. 0)" using z by (auto simp: zopen_def Let_def split: if_splits)
  have m: "12 \<le> zs_maxbits z" "zs_maxbits z \<le> 16" "zs_maxmaxcode z = 2 ^ zs_maxbits z"
    "zs_maxcode z = MAXCODE INIT_BITS" "zs_n_bits z = INIT_BITS" "zs_oldcode z = None"
    "zs_free_ent z = (if zs_block_compress z \<noteq> 0 then FIRST else 256)" "tab_prefix z = (\<lambda>i. 0)"
    using s by (auto simp: zread_start_def Let_def zs split: if_splits)
  have "(2 :: nat) ^ 12 \<le> 2 ^ zs_maxbits z" using m(1) by (intro power_increasing) simp_all
  then show "tables_inv z" using m(1,2) unfolding tables_inv_def width_ok_def m
    by (simp add: maxc_def MAXCODE_def)
  show "zs_stack z = []" "zs_state z = S_MIDDLE"
    using s by (auto simp: zread_start_def Let_def split: if_splits)
qed

lemma zread_start_error: "zread_start zs = Inl e \<Longrightarrow> e = EINVAL"
  by (auto simp: zread_start_def Let_def split: if_splits)

text \<open>
  C8: a request for the bytes of a compressed file always returns, whatever is in the file: it
  fails with \<open>EINVAL\<close> or gives at most the bytes asked for, never reads below its stack, and
  leaves the tables within their bounds for the next request.
\<close>

theorem lzw_reader_invariant:
  assumes inv: "reader_inv zs"
  shows "\<exists>r zs'. zread n zs = Some (r, zs') \<and>
    (case r of Inl e \<Rightarrow> e = EINVAL | Inr out \<Rightarrow> length out \<le> n \<and> reader_inv zs')"
  unfolding read_post_def [symmetric]
proof (cases "n = 0 \<or> zs_state zs = S_EOF")
  case True
  then show "read_post n (zread n zs)" using inv by (auto simp: zread_def read_post_def)
next
  case False
  show "read_post n (zread n zs)"
  proof (cases "zs_state zs")
    case S_START
    then obtain bits f where z: "zopen ''r'' bits f = Inr zs" using inv by (auto simp: reader_inv_def)
    show ?thesis
    proof (cases "zread_start zs")
      case (Inl e)
      with S_START False zread_start_error [OF Inl] show ?thesis by (simp add: zread_def read_post_def)
    next
      case (Inr z')
      with S_START False read_loop_post [OF start_inv [OF z Inr]] show ?thesis by (simp add: zread_def)
    qed
  next
    case S_MIDDLE
    with inv have m: "zs_stack zs \<noteq> []" "length (zs_stack zs) \<le> 65536" "tables_inv (finish zs)"
      by (simp_all add: reader_inv_def)
    have "read_post c (zread_loop False c (finish zs))" for c
      by (rule read_loop_post) (use m(3) S_MIDDLE in \<open>simp_all add: finish_def new_entry_def Let_def split: option.split\<close>)
    with m S_MIDDLE False show ?thesis by (simp add: zread_def post_middle)
  qed (use False in simp)
qed

lemma zopen_reader_inv: "zopen ''r'' bits file = Inr zs \<Longrightarrow> reader_inv zs"
  by (auto simp: reader_inv_def zopen_def Let_def split: if_splits)

theorem lzw_reader_invariant_witness:
  "\<exists>r zs'. zread 5 (projr (zopen ''r'' 0 [0x1f, 0x9d, 0x90, 0xff, 0xff, 0xff])) = Some (r, zs') \<and>
    (case r of Inl e \<Rightarrow> e = EINVAL | Inr out \<Rightarrow> length out \<le> 5 \<and> reader_inv zs')"
  by (rule lzw_reader_invariant, rule zopen_reader_inv [of 0 "[0x1f, 0x9d, 0x90, 0xff, 0xff, 0xff]"])
    (simp add: zopen_def Let_def)

section \<open>Fewer than 12 bits\<close>

lemma output_appends: "\<exists>rest. fp_out (output_code x zs) = fp_out zs @ rest"
  by (auto simp: output_code_def flush_def more_bits_def clear_bits_def Let_def split: option.split)

lemma cl_block_appends: "\<exists>rest. fp_out (cl_block zs) = fp_out zs @ rest"
  by (cases rule: cl_block_cases [of zs]) (use output_appends [of "Some CLEAR" "cleared zs"] in \<open>auto simp: cleared_def\<close>)

lemma zwrite_char_appends:
  "zwrite_char c zs = Some zs' \<Longrightarrow> \<exists>rest. fp_out zs' = fp_out zs @ rest"
proof -
  assume z: "zwrite_char c zs = Some zs'"
  have s: "\<exists>rest. fp_out (sent c zs) = fp_out zs @ rest"
    using output_appends [of "Some (zs_ent zs)" "counted zs"] by (simp add: sent_def)
  moreover have "\<exists>rest. fp_out (cl_block (sent c zs)) = fp_out zs @ rest"
    using s cl_block_appends [of "sent c zs"] by auto
  ultimately show ?thesis
    using z by (auto simp: zwrite_char_probe bind_eq_Some_conv split: if_splits)
qed

lemma tab_ok_char:
  assumes t: "tab_ok mb zs T"
  shows "\<exists>zs' T'. zwrite_char c zs = Some zs' \<and> tab_ok mb zs' T'"
  using t
proof (cases rule: zwrite_char_cases [where c = c])
  case (found i)
  with t have "tab_ok mb ((counted zs)\<lparr>zs_ent := FIRST + i\<rparr>) T" by (simp add: tab_ok_def is_code_def)
  with found(3) show ?thesis by blast
next
  case (new i fc)
  then have "tab_ok mb (entered i fc (sent c zs)) (T @ [(zs_ent zs, c)])"
    using t by (simp add: tab_ok_def entries_ok_snoc)
  with new(2) show ?thesis by blast
next
  case full
  have "tab_ok mb (sent c zs) T" using t by (simp add: tab_ok_def)
  with full(2) show ?thesis by blast
next
  case block
  have s: "tab_ok mb (sent c zs) T" using t by (simp add: tab_ok_def)
  have "\<exists>T'. tab_ok mb (cl_block (sent c zs)) T'"
  proof (cases rule: cl_block_cases [of "sent c zs"])
    case (keep r k)
    with s show ?thesis by (intro exI [of _ T]) (simp add: tab_ok_def)
  next
    case clear
    have "512 \<le> (2 :: nat) ^ mb" using power_increasing [of 9 mb "2 :: nat"] t by (simp add: tab_ok_def)
    with s show ?thesis
      by (intro exI [of _ "[]"]) (simp add: clear tab_ok_def cleared_def numbers_cleared)
  qed
  with block(2) show ?thesis by blast
qed

lemma tab_ok_loop:
  "tab_ok mb zs T \<Longrightarrow> \<exists>zs' rest. zwrite_loop cs zs = Some zs' \<and> zs_mode zs' = CHR ''w'' \<and>
     fp_out zs' = fp_out zs @ rest"
proof (induction cs arbitrary: zs T)
  case Nil
  then show ?case by (auto simp: tab_ok_def)
next
  case (Cons c cs)
  obtain z T' where z: "zwrite_char c zs = Some z" "tab_ok mb z T'" using tab_ok_char [OF Cons.prems] by blast
  from Cons.IH [OF z(2)] zwrite_char_appends [OF z(1)] show ?case by (auto simp: z(1))
qed

lemma few_bits_header:
  assumes mb: "9 \<le> mb" "mb \<le> 11" and z: "zopen ''r'' 0 (header mb @ body) = Inr zs"
  shows "zread_start zs = Inl EINVAL"
proof -
  have zs: "fp_in zs = header mb @ body" using z by (auto simp: zopen_def Let_def split: if_splits)
  have "mb = 9 \<or> mb = 10 \<or> mb = 11" using mb by presburger
  then show ?thesis by (auto simp: zread_start_def zs header_def magic_header_def Let_def)
qed

text \<open>
  C37: with \<open>-b\<close> 9, 10 or 11, that the manual allows, \<open>compress\<close> writes its file and nothing
  reads it back: the first read of a byte fails with \<open>EINVAL\<close>.
\<close>

theorem lzw_few_bits_unreadable:
  assumes "concat chunks \<noteq> []" and "9 \<le> bits" and "bits \<le> 11"
  shows "\<exists>file. compress bits chunks = Some (Inr file) \<and>
    (\<forall>n ns. decompress file (Suc n # ns) = Some (Inl EINVAL))"
proof -
  obtain c cs where cs: "concat chunks = c # cs" using assms(1) by (cases "concat chunks") auto
  obtain zs where z: "zopen ''w'' bits [] = Inr zs" using assms(3) by (auto simp: zopen_def Let_def)
  have "bits = (if bits \<noteq> 0 then bits else 16)" using assms(2) by simp
  note st = zwrite_start_writer [OF z this assms(2)]
  from tab_ok_loop [OF st(1) [of c], of cs] obtain zs' rest where w: "zwrite_loop cs (zwrite_start c zs) = Some zs'"
    "zs_mode zs' = CHR ''w''" "fp_out zs' = header bits @ rest" by (auto simp: st(2))
  obtain rest' where "zclose zs' = header bits @ rest'"
    using w(2,3) output_appends [of "Some (zs_ent zs')" zs'] output_appends [of None "output_code (Some (zs_ent zs')) zs'"]
    by (auto simp: zclose_def)
  then have "compress bits chunks = Some (Inr (header bits @ rest'))"
    using z zwrites_start [OF st(3) cs] w(1) by (simp add: compress_def)
  moreover have "decompress (header bits @ rest') (Suc n # ns) = Some (Inl EINVAL)" for n ns
  proof -
    obtain r where r: "zopen ''r'' 0 (header bits @ rest') = Inr r" by (simp add: zopen_def Let_def)
    have "zs_state r = S_START" using r by (auto simp: zopen_def Let_def)
    with few_bits_header [OF assms(2,3) r] r show ?thesis by (simp add: decompress_def zread_def)
  qed
  ultimately show ?thesis by blast
qed

theorem lzw_few_bits_unreadable_witness:
  "\<exists>file. compress 10 [[104, 105]] = Some (Inr file) \<and>
    (\<forall>n ns. decompress file (Suc n # ns) = Some (Inl EINVAL))"
  using lzw_few_bits_unreadable [of "[[104, 105]]" 10] by simp

end
