(* ===== verification/Gunzip.thy ===== *)
theory Gunzip
  imports LzwRoundTrip
begin

text \<open>
  \<open>archive/gzip/zuncompress.c\<close>: \<open>gzip -d\<close> on a file that \<open>compress\<close> has written. Its reader is the
  one of \<open>zopen.c\<close> with some bytes, \<open>compressed_pre\<close>, that were read from the file before; the lines
  the two files share are the definitions of \<open>Lzw\<close>. A file of its own is what stdio makes of
  it: requests of the same size, until one gives nothing or fails.
\<close>

record gzstate =
  gz :: zstate
  compressed_pre :: "byte list"
  total_compressed_bytes :: nat

section \<open>The reader\<close>

definition zdopen :: "byte list \<Rightarrow> zstate" where
  "zdopen file =
     \<lparr>fp_out = [], fp_in = file, zs_mode = NUL, zs_state = S_START, zs_n_bits = 0,
      zs_maxbits = 0, zs_maxcode = 0, zs_maxmaxcode = 0,
      zs_htab = (\<lambda>i. Some 0), zs_codetab = (\<lambda>i. 0), zs_free_ent = 0,
      zs_block_compress = BLOCK_MASK, zs_clear_flg = False, zs_ratio = 0,
      zs_checkpoint = CHECK_GAP, zs_offset = 0, zs_in_count = 1, zs_bytes_out = 0,
      zs_buf = replicate BITS 0, zs_ent = 0, zs_stack = [], zs_finchar = 0,
      zs_oldcode = Some 0, zs_incode = 0, zs_roffset = 0, zs_size = 0, zs_gbuf = replicate BITS 0,
      tab_prefix = (\<lambda>i. 0), tab_suffix = (\<lambda>i. 0)\<rparr>"

text \<open>At most \<open>n\<close> bytes, first those read before.\<close>

definition take_in :: "nat \<Rightarrow> gzstate \<Rightarrow> byte list \<times> gzstate" where
  "take_in n g =
     (let a = take n (compressed_pre g);
          b = take (n - length a) (fp_in (gz g))
      in (a @ b, g\<lparr>gz := (gz g)\<lparr>fp_in := drop (n - length a) (fp_in (gz g))\<rparr>,
                   compressed_pre := drop n (compressed_pre g)\<rparr>))"

definition gz_refill :: "gzstate \<Rightarrow> bool \<times> gzstate" where
  "gz_refill g =
     (let g = g\<lparr>gz := new_width (gz g)\<rparr>;
          n = zs_n_bits (gz g);
          (got, g) = take_in n g;
          zs = (gz g)\<lparr>zs_gbuf := got @ drop (length got) (zs_gbuf (gz g)), zs_size := int (length got)\<rparr>
      in if got = [] then (False, g\<lparr>gz := zs\<rparr>)
         else (True, g\<lparr>gz := zs\<lparr>zs_roffset := 0, zs_size := 8 * int (length got) - (int n - 1)\<rparr>,
                       total_compressed_bytes := total_compressed_bytes g + length got\<rparr>))"

definition gz_getcode :: "gzstate \<Rightarrow> nat option \<times> gzstate" where
  "gz_getcode g =
     (case (if zs_clear_flg (gz g) \<or> int (zs_roffset (gz g)) \<ge> zs_size (gz g) \<or> zs_free_ent (gz g) > zs_maxcode (gz g)
            then gz_refill g else (True, g)) of
        (False, g) \<Rightarrow> (None, g)
      | (True, g) \<Rightarrow>
          (Some (get_code (zs_n_bits (gz g)) (zs_roffset (gz g)) (zs_gbuf (gz g))),
           g\<lparr>gz := (gz g)\<lparr>zs_roffset := zs_roffset (gz g) + zs_n_bits (gz g)\<rparr>\<rparr>))"

partial_function (option) gz_zread_loop ::
  "bool \<Rightarrow> nat \<Rightarrow> gzstate \<Rightarrow> ((zerror + byte list) \<times> gzstate) option"
where
  "gz_zread_loop middle count g =
     (if middle then
        if zs_stack (gz g) = [] then Some (if count = 0 then Inr [] else Inl Underflow, g)
        else
          (case put_out count (zs_stack (gz g)) of (count, out, st) \<Rightarrow>
             if st \<noteq> [] then Some (Inr out, g\<lparr>gz := (gz g)\<lparr>zs_stack := st\<rparr>\<rparr>)
             else
               Option.bind
                 (gz_zread_loop False count
                   (g\<lparr>gz := (new_entry ((gz g)\<lparr>zs_stack := []\<rparr>))\<lparr>zs_oldcode := Some (zs_incode (gz g))\<rparr>\<rparr>))
                 (\<lambda>(r, g). Some (rmap (\<lambda>more. out @ more) r, g)))
      else
        (case gz_getcode g of
           (None, g) \<Rightarrow> Some (Inr [], g\<lparr>gz := (gz g)\<lparr>zs_state := S_EOF\<rparr>\<rparr>)
         | (Some c, g) \<Rightarrow>
             if c = CLEAR \<and> zs_block_compress (gz g) \<noteq> 0
             then gz_zread_loop False count (g\<lparr>gz := read_clear (gz g)\<rparr>)
             else if c \<ge> zs_free_ent (gz g) \<and> (c > zs_free_ent (gz g) \<or> zs_oldcode (gz g) = None)
             then Some (Inl EINVAL, g\<lparr>gz := (gz g)\<lparr>zs_incode := c\<rparr>\<rparr>)
             else
               Option.bind
                 (if c \<ge> zs_free_ent (gz g)
                  then unwind (tab_prefix (gz g)) (tab_suffix (gz g)) (the (zs_oldcode (gz g)))
                    (zs_finchar (gz g) # zs_stack (gz g))
                  else unwind (tab_prefix (gz g)) (tab_suffix (gz g)) c (zs_stack (gz g)))
                 (\<lambda>(k, st).
                    gz_zread_loop True count
                      (g\<lparr>gz := (gz g)\<lparr>zs_incode := c, zs_finchar := tab_suffix (gz g) k,
                                      zs_stack := tab_suffix (gz g) k # st\<rparr>\<rparr>))))"

declare gz_zread_loop.simps [code]

definition gz_zread_start :: "gzstate \<Rightarrow> zerror + gzstate" where
  "gz_zread_start g =
     (let (header, g) = take_in 3 (g\<lparr>gz := (gz g)\<lparr>zs_state := S_MIDDLE\<rparr>\<rparr>)
      in if length header \<noteq> 3 \<or> take 2 header \<noteq> magic_header then Inl EINVAL
         else
           let maxb = unat (header ! 2 AND BIT_MASK);
               zs = (gz g)\<lparr>zs_block_compress := header ! 2 AND BLOCK_MASK, zs_maxbits := maxb,
                       zs_maxmaxcode := 2 ^ maxb\<rparr>
           in if maxb > BITS \<or> maxb < 12 then Inl EINVAL
              else
                Inr (g\<lparr>gz := zs\<lparr>zs_n_bits := INIT_BITS, zs_maxcode := MAXCODE INIT_BITS,
                  tab_prefix := (\<lambda>i. if i < 256 then 0 else tab_prefix zs i),
                  tab_suffix := (\<lambda>i. if i < 256 then word_of_nat i else tab_suffix zs i),
                  zs_free_ent := (if zs_block_compress zs \<noteq> 0 then FIRST else 256),
                  zs_oldcode := None, zs_stack := []\<rparr>, total_compressed_bytes := 0\<rparr>))"

definition gz_zread :: "nat \<Rightarrow> gzstate \<Rightarrow> ((zerror + byte list) \<times> gzstate) option" where
  "gz_zread num g =
     (if num = 0 then Some (Inr [], g)
      else
        case zs_state (gz g) of
          S_START \<Rightarrow>
            (case gz_zread_start g of
               Inl e \<Rightarrow> Some (Inl e, g\<lparr>gz := (gz g)\<lparr>zs_state := S_MIDDLE\<rparr>\<rparr>)
             | Inr g \<Rightarrow> gz_zread_loop False num g)
        | S_MIDDLE \<Rightarrow> gz_zread_loop True num g
        | S_EOF \<Rightarrow> Some (Inr [], g))"

text \<open>
  The bytes copied, whether the stream is left with an error, which the number of bytes that
  \<open>zuncompress\<close> returns does not show, and the number of compressed bytes.
\<close>

partial_function (option) gz_copy :: "nat \<Rightarrow> gzstate \<Rightarrow> ((byte list \<times> bool) \<times> gzstate) option" where
  "gz_copy n g =
     Option.bind (gz_zread n g) (\<lambda>(r, g).
       case r of
         Inl e \<Rightarrow> Some (([], True), g)
       | Inr out \<Rightarrow>
           if out = [] then Some (([], False), g)
           else Option.bind (gz_copy n g) (\<lambda>((more, err), g). Some ((out @ more, err), g)))"

declare gz_copy.simps [code]

definition zuncompress :: "nat \<Rightarrow> byte list \<Rightarrow> byte list \<Rightarrow> (byte list \<times> bool \<times> nat) option" where
  "zuncompress n pre file =
     Option.bind (gz_copy n \<lparr>gz = zdopen file, compressed_pre = pre, total_compressed_bytes = 0\<rparr>)
       (\<lambda>((out, err), g). Some (out, err, total_compressed_bytes g))"

section \<open>The reader of compress\<close>

text \<open>The state of the reader of \<open>zopen.c\<close>, which reads nothing before and has a mode.\<close>

definition joined :: "gzstate \<Rightarrow> zstate" where
  "joined g = (gz g)\<lparr>fp_in := compressed_pre g @ fp_in (gz g), zs_mode := CHR ''r''\<rparr>"

lemma joined_sel [simp]:
  "fp_in (joined g) = compressed_pre g @ fp_in (gz g)" "zs_state (joined g) = zs_state (gz g)"
  "zs_stack (joined g) = zs_stack (gz g)" "zs_incode (joined g) = zs_incode (gz g)"
  "zs_free_ent (joined g) = zs_free_ent (gz g)" "zs_oldcode (joined g) = zs_oldcode (gz g)"
  "zs_block_compress (joined g) = zs_block_compress (gz g)" "zs_finchar (joined g) = zs_finchar (gz g)"
  "tab_prefix (joined g) = tab_prefix (gz g)" "tab_suffix (joined g) = tab_suffix (gz g)"
  "zs_n_bits (joined g) = zs_n_bits (gz g)" "zs_roffset (joined g) = zs_roffset (gz g)"
  "zs_gbuf (joined g) = zs_gbuf (gz g)" "zs_size (joined g) = zs_size (gz g)"
  "zs_clear_flg (joined g) = zs_clear_flg (gz g)" "zs_maxcode (joined g) = zs_maxcode (gz g)"
  by (simp_all add: joined_def)

lemma take_in_joined:
  assumes "take_in n g = (got, g')"
  shows "got = take n (fp_in (joined g))" "joined g' = (joined g)\<lparr>fp_in := drop n (fp_in (joined g))\<rparr>"
    "gz g' = (gz g)\<lparr>fp_in := fp_in (gz g')\<rparr>"
  using assms by (auto simp: take_in_def Let_def joined_def min_def)

lemma new_width_joined: "new_width (joined g) = joined (g\<lparr>gz := new_width (gz g)\<rparr>)"
  by (simp add: new_width_def more_bits_def clear_bits_def joined_def Let_def)

lemma gz_refill_joined: "gz_refill g = (b, g') \<Longrightarrow> refill (joined g) = (b, joined g')"
proof -
  assume r: "gz_refill g = (b, g')"
  have m: "k - min l k = k - l" for k l :: nat by simp
  from r show ?thesis
    unfolding gz_refill_def refill_def Let_def new_width_joined take_in_def prod.case
    by (simp add: joined_def m split: if_splits) auto
qed

lemma gz_getcode_joined: "gz_getcode g = (oc, g') \<Longrightarrow> getcode (joined g) = (oc, joined g')"
proof -
  assume c: "gz_getcode g = (oc, g')"
  let ?new = "zs_clear_flg (gz g) \<or> int (zs_roffset (gz g)) \<ge> zs_size (gz g) \<or> zs_free_ent (gz g) > zs_maxcode (gz g)"
  obtain b h where r: "(if ?new then gz_refill g else (True, g)) = (b, h)" by fastforce
  then have "(if ?new then refill (joined g) else (True, joined g)) = (b, joined h)"
    using gz_refill_joined [of g b h] by (auto split: if_splits)
  with c r show ?thesis
    unfolding getcode_def gz_getcode_def joined_sel by (cases b) (auto simp: joined_def)
qed

lemma joined_upd:
  "joined (g\<lparr>gz := (gz g)\<lparr>zs_stack := st\<rparr>\<rparr>) = (joined g)\<lparr>zs_stack := st\<rparr>"
  "joined (g\<lparr>gz := (gz g)\<lparr>zs_state := p\<rparr>\<rparr>) = (joined g)\<lparr>zs_state := p\<rparr>"
  "joined (g\<lparr>gz := (gz g)\<lparr>zs_incode := c\<rparr>\<rparr>) = (joined g)\<lparr>zs_incode := c\<rparr>"
  "joined (g\<lparr>gz := (gz g)\<lparr>zs_incode := c, zs_finchar := x, zs_stack := st\<rparr>\<rparr>) =
    (joined g)\<lparr>zs_incode := c, zs_finchar := x, zs_stack := st\<rparr>"
  "joined (g\<lparr>gz := read_clear (gz g)\<rparr>) = read_clear (joined g)"
  "joined (g\<lparr>gz := (new_entry ((gz g)\<lparr>zs_stack := []\<rparr>))\<lparr>zs_oldcode := Some (zs_incode (gz g))\<rparr>\<rparr>) =
    (new_entry ((joined g)\<lparr>zs_stack := []\<rparr>))\<lparr>zs_oldcode := Some (zs_incode (joined g))\<rparr>"
  by (simp_all add: joined_def read_clear_def new_entry_def Let_def cong: if_cong split: option.split)

text \<open>The two readers do the same.\<close>

definition same_read ::
  "((zerror + byte list) \<times> zstate) option \<Rightarrow> ((zerror + byte list) \<times> gzstate) option \<Rightarrow> bool"
where
  "same_read x y \<longleftrightarrow> (\<forall>r z. x = Some (r, z) \<longrightarrow> (\<exists>g. y = Some (r, g) \<and> z = joined g))"

lemma same_read_middle:
  assumes IH: "\<And>n g rz. loop False n (joined g) = Some rz \<Longrightarrow> same_read (Some rz) (gz_zread_loop False n g)"
    and body: "(if zs_stack (joined g) = [] then Some (if c = 0 then Inr [] else Inl Underflow, joined g)
        else
          (case put_out c (zs_stack (joined g)) of (count, out, st) \<Rightarrow>
             if st \<noteq> [] then Some (Inr out, (joined g)\<lparr>zs_stack := st\<rparr>)
             else
               Option.bind
                 (loop False count
                   ((new_entry ((joined g)\<lparr>zs_stack := []\<rparr>))\<lparr>zs_oldcode := Some (zs_incode (joined g))\<rparr>))
                 (\<lambda>(r, zs). Some (rmap (\<lambda>more. out @ more) r, zs)))) = Some rz"
  shows "same_read (Some rz) (gz_zread_loop True c g)"
proof -
  obtain n out st where p: "put_out c (zs_stack (gz g)) = (n, out, st)" by (metis prod_cases3)
  consider "zs_stack (gz g) = []" | "zs_stack (gz g) \<noteq> []" "st \<noteq> []" | (on) "zs_stack (gz g) \<noteq> []" "st = []" by blast
  then show ?thesis
  proof cases
    case on
    let ?g = "g\<lparr>gz := (new_entry ((gz g)\<lparr>zs_stack := []\<rparr>))\<lparr>zs_oldcode := Some (zs_incode (gz g))\<rparr>\<rparr>"
    from on p body obtain r z where
      l: "loop False n (joined ?g) = Some (r, z)" "rz = (rmap (\<lambda>more. out @ more) r, z)"
      by (auto simp: joined_upd bind_eq_Some_conv)
    from IH [OF l(1)] obtain g' where "gz_zread_loop False n ?g = Some (r, g')" "z = joined g'"
      by (auto simp: same_read_def)
    with on p l(2) show ?thesis by (subst gz_zread_loop.simps) (auto simp: same_read_def)
  qed (use p body in \<open>subst gz_zread_loop.simps, auto simp: same_read_def joined_upd\<close>)+
qed

lemma same_read_code:
  assumes IH: "\<And>m n g rz. loop m n (joined g) = Some rz \<Longrightarrow> same_read (Some rz) (gz_zread_loop m n g)"
    and body: "(case getcode (joined g) of
           (None, zs) \<Rightarrow> Some (Inr [], zs\<lparr>zs_state := S_EOF\<rparr>)
         | (Some k, zs) \<Rightarrow>
             if k = CLEAR \<and> zs_block_compress zs \<noteq> 0 then loop False c (read_clear zs)
             else if k \<ge> zs_free_ent zs \<and> (k > zs_free_ent zs \<or> zs_oldcode zs = None)
             then Some (Inl EINVAL, zs\<lparr>zs_incode := k\<rparr>)
             else
               Option.bind
                 (if k \<ge> zs_free_ent zs
                  then unwind (tab_prefix zs) (tab_suffix zs) (the (zs_oldcode zs)) (zs_finchar zs # zs_stack zs)
                  else unwind (tab_prefix zs) (tab_suffix zs) k (zs_stack zs))
                 (\<lambda>(i, st).
                    loop True c
                      (zs\<lparr>zs_incode := k, zs_finchar := tab_suffix zs i, zs_stack := tab_suffix zs i # st\<rparr>))) = Some rz"
  shows "same_read (Some rz) (gz_zread_loop False c g)"
proof -
  obtain oc h where gc: "gz_getcode g = (oc, h)" by fastforce
  note zc = gz_getcode_joined [OF gc]
  show ?thesis
  proof (cases oc)
    case None
    with gc zc body show ?thesis by (subst gz_zread_loop.simps) (auto simp: same_read_def joined_upd)
  next
    case (Some k)
    let ?unw = "if k \<ge> zs_free_ent (gz h)
      then unwind (tab_prefix (gz h)) (tab_suffix (gz h)) (the (zs_oldcode (gz h))) (zs_finchar (gz h) # zs_stack (gz h))
      else unwind (tab_prefix (gz h)) (tab_suffix (gz h)) k (zs_stack (gz h))"
    let ?h = "\<lambda>i st. h\<lparr>gz := (gz h)\<lparr>zs_incode := k, zs_finchar := tab_suffix (gz h) i, zs_stack := tab_suffix (gz h) i # st\<rparr>\<rparr>"
    consider (cl) "k = CLEAR \<and> zs_block_compress (gz h) \<noteq> 0"
      | (bad) "\<not> (k = CLEAR \<and> zs_block_compress (gz h) \<noteq> 0)"
          "k \<ge> zs_free_ent (gz h) \<and> (k > zs_free_ent (gz h) \<or> zs_oldcode (gz h) = None)"
      | (good) "\<not> (k = CLEAR \<and> zs_block_compress (gz h) \<noteq> 0)"
          "\<not> (k \<ge> zs_free_ent (gz h) \<and> (k > zs_free_ent (gz h) \<or> zs_oldcode (gz h) = None))" by argo
    then show ?thesis
    proof cases
      case cl
      then have "loop False c (joined (h\<lparr>gz := read_clear (gz h)\<rparr>)) = Some rz"
        using zc Some body by (simp add: joined_upd)
      from IH [OF this] show ?thesis using cl gc Some by (subst gz_zread_loop.simps) simp
    next
      case bad
      then have "rz = (Inl EINVAL, joined (h\<lparr>gz := (gz h)\<lparr>zs_incode := k\<rparr>\<rparr>))"
        using zc Some body by (auto simp: joined_upd)
      then show ?thesis using bad gc Some by (subst gz_zread_loop.simps) (auto simp: same_read_def)
    next
      case good
      then have "Option.bind ?unw (\<lambda>(i, st). loop True c (joined (?h i st))) = Some rz"
        using zc Some body by (auto simp: joined_upd split: if_splits)
      then obtain i st where u: "?unw = Some (i, st)" and l: "loop True c (joined (?h i st)) = Some rz"
        by (auto simp: bind_eq_Some_conv)
      have "gz_zread_loop False c g = gz_zread_loop True c (?h i st)"
        using good gc Some u by (subst gz_zread_loop.simps) (auto split: if_splits)
      with IH [OF l] show ?thesis by simp
    qed
  qed
qed

lemma same_read_loop:
  assumes "zread_loop m c z = Some rz"
  shows "\<forall>g. z = joined g \<longrightarrow> same_read (Some rz) (gz_zread_loop m c g)"
proof (rule zread_loop.raw_induct [OF _ assms], intro allI impI, hypsubst)
  fix loop m c z rz g
  assume IH: "\<And>m c z rz. loop m c z = Some rz \<Longrightarrow> \<forall>g. z = joined g \<longrightarrow> same_read (Some rz) (gz_zread_loop m c g)"
    and body: "(if m then (if zs_stack (joined g) = [] then Some (if c = 0 then Inr [] else Inl Underflow, joined g)
        else
          (case put_out c (zs_stack (joined g)) of (count, out, st) \<Rightarrow>
             if st \<noteq> [] then Some (Inr out, (joined g)\<lparr>zs_stack := st\<rparr>)
             else
               Option.bind
                 (loop False count
                   ((new_entry ((joined g)\<lparr>zs_stack := []\<rparr>))\<lparr>zs_oldcode := Some (zs_incode (joined g))\<rparr>))
                 (\<lambda>(r, zs). Some (rmap (\<lambda>more. out @ more) r, zs)))) else (case getcode (joined g) of
           (None, zs) \<Rightarrow> Some (Inr [], zs\<lparr>zs_state := S_EOF\<rparr>)
         | (Some k, zs) \<Rightarrow>
             if k = CLEAR \<and> zs_block_compress zs \<noteq> 0 then loop False c (read_clear zs)
             else if k \<ge> zs_free_ent zs \<and> (k > zs_free_ent zs \<or> zs_oldcode zs = None)
             then Some (Inl EINVAL, zs\<lparr>zs_incode := k\<rparr>)
             else
               Option.bind
                 (if k \<ge> zs_free_ent zs
                  then unwind (tab_prefix zs) (tab_suffix zs) (the (zs_oldcode zs)) (zs_finchar zs # zs_stack zs)
                  else unwind (tab_prefix zs) (tab_suffix zs) k (zs_stack zs))
                 (\<lambda>(i, st).
                    loop True c
                      (zs\<lparr>zs_incode := k, zs_finchar := tab_suffix zs i, zs_stack := tab_suffix zs i # st\<rparr>)))) = Some rz"
  have IH': "same_read (Some rz) (gz_zread_loop m c g)" if "loop m c (joined g) = Some rz" for m c g rz
    using IH [OF that] by simp
  show "same_read (Some rz) (gz_zread_loop m c g)"
    using same_read_middle [of loop g c rz, OF IH'] same_read_code [of loop c g rz, OF IH'] body by (cases m) simp_all
qed

lemma gz_zread_start_joined:
  "zread_start (joined g) = Inr z \<Longrightarrow> \<exists>g'. gz_zread_start g = Inr g' \<and> z = joined g'"
proof -
  assume z: "zread_start (joined g) = Inr z"
  have m: "3 - min k 3 = 3 - k" for k :: nat by simp
  show ?thesis
    using z unfolding zread_start_def gz_zread_start_def take_in_def Let_def
    by (auto simp: joined_def m cong: if_cong split: if_splits)
qed

lemma gz_read_loop: "zread_loop m c (joined g) = Some (r, z) \<Longrightarrow> \<exists>g'. gz_zread_loop m c g = Some (r, g') \<and> z = joined g'"
  using same_read_loop [of m c "joined g" "(r, z)"] by (auto simp: same_read_def)

text \<open>A request in the middle of the file.\<close>

lemma gz_zread_middle:
  assumes "zread n (joined g) = Some (r, z)" and "zs_state (gz g) \<noteq> S_START"
  shows "\<exists>g'. gz_zread n g = Some (r, g') \<and> z = joined g'"
proof (cases "n = 0 \<or> zs_state (gz g) = S_EOF")
  case True
  with assms show ?thesis by (auto simp: zread_def gz_zread_def)
next
  case False
  then have "zs_state (gz g) = S_MIDDLE" using assms(2) by (cases "zs_state (gz g)") auto
  with False assms(1) gz_read_loop [of True n g r z] show ?thesis by (auto simp: zread_def gz_zread_def)
qed

lemma resumable_state: "resumable mb z tx \<Longrightarrow> zs_state z \<noteq> S_START"
  by (auto simp: resumable_def)

lemma gz_copy_resumable:
  assumes "0 < n"
  shows "resumable mb (joined g) tx \<Longrightarrow> \<exists>g'. gz_copy n g = Some ((tx, False), g')"
proof (induction "length tx" arbitrary: g tx rule: less_induct)
  case less
  from read_resumable [OF less.prems, of n] obtain z where
    z: "zread n (joined g) = Some (Inr (take n tx), z)" "resumable mb z (drop n tx)" by blast
  have "zs_state (gz g) \<noteq> S_START" using resumable_state [OF less.prems] by simp
  from gz_zread_middle [OF z(1) this] obtain g' where
    g': "gz_zread n g = Some (Inr (take n tx), g')" "z = joined g'" by blast
  show ?case
  proof (cases "tx = []")
    case True
    with g'(1) show ?thesis by (subst gz_copy.simps) simp
  next
    case False
    then have "length (drop n tx) < length tx" using assms by (cases tx) auto
    from less.hyps [OF this] z(2) g'(2) obtain g'' where "gz_copy n g' = Some ((drop n tx, False), g'')" by blast
    with False g'(1) assms show ?thesis by (subst gz_copy.simps) simp
  qed
qed

lemma zdopen_start:
  assumes "zopen ''r'' 0 file = Inr z"
  shows "zread_start ((zdopen file)\<lparr>zs_mode := CHR ''r''\<rparr>) = zread_start z"
  using assms by (auto simp: zopen_def zdopen_def zread_start_def Let_def cong: if_cong)

lemma gz_file:
  assumes n: "0 < n" and mb: "12 \<le> mb" "mb \<le> 16" and cs: "encodes INIT_BITS 0 cs body" "coded mb [] INIT_BITS tx cs"
    and f: "pre @ file = header mb @ body"
  shows "\<exists>total. zuncompress n pre file = Some (tx, False, total)"
proof -
  let ?g = "\<lparr>gz = zdopen file, compressed_pre = pre, total_compressed_bytes = 0\<rparr>"
  have j: "joined ?g = (zdopen (header mb @ body))\<lparr>zs_mode := CHR ''r''\<rparr>" by (simp add: joined_def zdopen_def flip: f)
  obtain z0 where z0: "zopen ''r'' 0 (header mb @ body) = Inr z0" by (simp add: zopen_def Let_def)
  obtain z where z: "zread_start z0 = Inr z" "expects mb z tx cs"
    using zread_start_file [OF mb cs z0] by blast
  have "zread_start (joined ?g) = Inr z" unfolding j zdopen_start [OF z0] by (rule z(1))
  from gz_zread_start_joined [OF this] obtain g where g: "gz_zread_start ?g = Inr g" "z = joined g" by blast
  from read_codes [OF z(2), of n] obtain z' where
    z': "zread_loop False n z = Some (Inr (take n tx), z')" "resumable mb z' (drop n tx)" by blast
  from gz_read_loop [OF z'(1) [unfolded g(2)]] obtain g' where
    g': "gz_zread_loop False n g = Some (Inr (take n tx), g')" "z' = joined g'" by blast
  have r: "gz_zread n ?g = Some (Inr (take n tx), g')"
    using n g(1) g'(1) by (simp add: gz_zread_def) (simp add: zdopen_def)
  obtain g'' where c: "gz_copy n g' = Some ((drop n tx, False), g'')"
    using gz_copy_resumable [OF n, of mb g'] z'(2) g'(2) by blast
  have "gz_copy n ?g = Some ((tx, False), if tx = [] then g' else g'')"
    using r c n by (subst gz_copy.simps) auto
  then show ?thesis by (simp add: zuncompress_def)
qed

text \<open>
  C17: \<open>gzip -d\<close> gives back what \<open>compress\<close> has written with the default or 12 to 16 bits, however
  many of the bytes of the file were read before its reader is opened and whatever the size of
  the requests; the stream is left without an error.
\<close>

theorem gunzip_compress:
  assumes "concat chunks \<noteq> []" and "bits = 0 \<or> 12 \<le> bits" and "bits \<le> 16" and "0 < n"
  shows "\<exists>file. compress bits chunks = Some (Inr file) \<and>
    (\<forall>k. \<exists>total. zuncompress n (take k file) (drop k file) = Some (concat chunks, False, total))"
proof -
  obtain c cs where cs: "concat chunks = c # cs" using assms(1) by (cases "concat chunks") auto
  let ?mb = "if bits \<noteq> 0 then bits else 16"
  have mb: "12 \<le> ?mb" "?mb \<le> 16" using assms(2,3) by auto
  obtain body os where f: "compress bits chunks = Some (Inr (header ?mb @ body))"
    "encodes INIT_BITS 0 os body" "coded ?mb [] INIT_BITS (c # cs) os"
    using compress_file [OF cs refl mb] by blast
  have "\<exists>total. zuncompress n (take k (header ?mb @ body)) (drop k (header ?mb @ body)) = Some (c # cs, False, total)" for k
    by (rule gz_file [OF assms(4) mb f(2,3)]) (rule append_take_drop_id)
  with f(1) cs show ?thesis by auto
qed

theorem gunzip_compress_witness:
  "\<exists>file. compress 12 [[97, 98], [97]] = Some (Inr file) \<and>
    (\<forall>k. \<exists>total. zuncompress 4096 (take k file) (drop k file) = Some (concat [[97, 98], [97]], False, total))"
  by (rule gunzip_compress) simp_all

end
