(* ===== verification/Diff.thy ===== *)
theory Diff
  imports Prelude
begin

text \<open>
  \<open>diffutils/diff/diffreg.c\<close>: the comparison of two regular files. Every line is hashed, the
  common prefix and suffix are cut off, the lines between are sorted to find their equal
  partners, Stone's algorithm selects a common subsequence, the pairs it selects are checked
  against the files, and the lines that are left are printed as changes, as a plain
  \<open>diff\<close>, an \<open>ed\<close> script (\<open>-e\<close>), its reverse form (\<open>-f\<close>) or an RCS script (\<open>-n\<close>). A file
  is the string of its characters, a stream the characters not read yet. Line numbers and
  counts are natural numbers, the files being shorter than an \<open>int\<close> counts; allocation does
  not fail, and what \<open>realloc\<close> adds to an array is taken to be zero.
\<close>

record dflags =
  d_forceascii :: bool
  d_foldblanks :: bool
  d_minimal :: bool
  d_ignorecase :: bool
  d_expandtabs :: bool
  d_ignoreblanks :: bool
  d_stripcr :: bool
  d_skipblanklines :: bool
  d_Tflag :: bool

datatype dformat = D_NORMAL | D_EDIT | D_REVERSE | D_NREVERSE

abbreviation (input) CR :: char where "CR \<equiv> CHR 0x0D"

section \<open>Streams\<close>

text \<open>\<open>None\<close> is \<open>EOF\<close>.\<close>

definition fgetchar :: "string \<Rightarrow> char option \<times> string" where
  "fgetchar f = (case f of [] \<Rightarrow> (None, []) | c # f \<Rightarrow> (Some c, f))"

definition chrtran :: "dflags \<Rightarrow> char option \<Rightarrow> int" where
  "chrtran fl c =
     (case c of None \<Rightarrow> -1 | Some c \<Rightarrow> int (if d_ignorecase fl then tolower (code c) else code c))"

definition is_space :: "char option \<Rightarrow> bool" where
  "is_space c = (case c of None \<Rightarrow> False | Some c \<Rightarrow> isspace (code c))"

section \<open>Hashing\<close>

datatype readhash = RH_BINARY | RH_OK | RH_EOF

text \<open>
  The hash of a line. A carriage return that is not stripped is followed by a look at the next
  character, which is then hashed in its place.
\<close>

fun readhash_loop ::
  "dflags \<Rightarrow> nat \<Rightarrow> nat \<Rightarrow> 32 word \<Rightarrow> string \<Rightarrow> readhash \<times> 32 word \<times> string"
where
  "readhash_loop fl i space h0 [] = ((if i = 0 then RH_EOF else RH_OK), h0, [])"
| "readhash_loop fl i space h0 (t # f) =
     (if t = NL then (RH_OK, h0, f)
      else if t = NUL \<and> \<not> d_forceascii fl then (RH_BINARY, h0, f)
      else if t = CR \<and> d_stripcr fl \<and> fst (fgetchar f) = Some NL then (RH_OK, h0, snd (fgetchar f))
      else
        let h = (if t = CR \<and> d_stripcr fl then fst (fgetchar f) else Some t) in
        if t \<in> {CR, TAB, CHR 0x0B, CHR 0x0C, CHR '' ''} \<and> (d_foldblanks fl \<or> d_ignoreblanks fl)
        then readhash_loop fl i (space + 1) h0 f
        else if space \<noteq> 0 \<and> \<not> d_ignoreblanks fl
        then readhash_loop fl (i + 2) 0 (h0 * 127 + word_of_int (chrtran fl h)) f
        else readhash_loop fl (i + 1) space (h0 * 127 + word_of_int (chrtran fl h)) f)"

definition readhash :: "dflags \<Rightarrow> string \<Rightarrow> readhash \<times> 32 word \<times> string" where
  "readhash fl f = readhash_loop fl 0 0 1 f"

lemma readhash_loop_shrinks: "readhash_loop fl i space h0 f = (r, h, f') \<Longrightarrow> length f' \<le> length f - 1"
proof (induction f arbitrary: i space h0)
  case (Cons t f)
  have IH: "readhash_loop fl i space h0 f = (r, h, f') \<Longrightarrow> length f' \<le> length f" for i space h0
    using Cons.IH by (meson diff_le_self le_trans)
  have g: "length (snd (fgetchar f)) \<le> length f" by (simp add: fgetchar_def split: list.split)
  from Cons.prems show ?case
    unfolding readhash_loop.simps Let_def by (simp only: split: if_splits) (use IH g in auto)
qed simp

lemma readhash_shrinks: "(RH_OK, h, f') = readhash fl f \<Longrightarrow> length f' < length f"
proof -
  assume r: "(RH_OK, h, f') = readhash fl f"
  then have "length f' \<le> length f - 1" by (intro readhash_loop_shrinks) (simp add: readhash_def eq_commute)
  moreover have "f \<noteq> []" using r by (auto simp: readhash_def)
  ultimately show ?thesis by (cases f) auto
qed

section \<open>The lines\<close>

text \<open>An entry of \<open>struct line\<close>; \<open>d_value\<close> is the hash as an \<open>int\<close>.\<close>

record dline =
  d_serial :: nat
  d_value :: int

definition no_line :: dline where
  "no_line = \<lparr>d_serial = 0, d_value = 0\<rparr>"

function prepare_loop :: "dflags \<Rightarrow> nat \<Rightarrow> nat \<Rightarrow> dline list \<Rightarrow> string \<Rightarrow> (nat \<times> dline list) option" where
  "prepare_loop fl sz j p f =
     (case readhash fl f of
        (RH_EOF, h, f') \<Rightarrow> Some (j, p)
      | (RH_BINARY, h, f') \<Rightarrow> None
      | (RH_OK, h, f') \<Rightarrow>
          let (sz, p) = (if j = sz then (sz * 3 div 2, p @ replicate (sz * 3 div 2 - sz) no_line) else (sz, p))
          in prepare_loop fl sz (j + 1) (p[j + 1 := (p ! (j + 1))\<lparr>d_value := sint h\<rparr>]) f')"
  by pat_completeness auto
termination
  by (relation "measure (\<lambda>(fl, sz, j, p, f). length f)") (auto dest: readhash_shrinks)

declare prepare_loop.simps [simp del]

text \<open>\<open>None\<close> is a binary file.\<close>

definition prepare :: "dflags \<Rightarrow> string \<Rightarrow> (nat \<times> dline list) option" where
  "prepare fl f =
     (let sz = length f div 25; sz = (if sz < 100 then 100 else sz)
      in prepare_loop fl sz 0 (replicate (sz + 3) no_line) f)"

function prune_prefix :: "dline list \<Rightarrow> nat \<Rightarrow> dline list \<Rightarrow> nat \<Rightarrow> nat \<Rightarrow> nat" where
  "prune_prefix a n b m pref =
     (if pref < n \<and> pref < m \<and> d_value (a ! (pref + 1)) = d_value (b ! (pref + 1))
      then prune_prefix a n b m (pref + 1) else pref)"
  by pat_completeness auto
termination
  by (relation "measure (\<lambda>(a, n, b, m, pref). n - pref)") auto

declare prune_prefix.simps [simp del]

function prune_suffix :: "dline list \<Rightarrow> nat \<Rightarrow> dline list \<Rightarrow> nat \<Rightarrow> nat \<Rightarrow> nat \<Rightarrow> nat" where
  "prune_suffix a n b m pref suff =
     (if suff < n - pref \<and> suff < m - pref \<and> d_value (a ! (n - suff)) = d_value (b ! (m - suff))
      then prune_suffix a n b m pref (suff + 1) else suff)"
  by pat_completeness auto
termination
  by (relation "measure (\<lambda>(a, n, b, m, pref, suff). n - suff)") auto

declare prune_suffix.simps [simp del]

text \<open>The lines from \<open>pref\<close> on, numbered up to \<open>slen\<close>; the entry 0 is not a line.\<close>

definition number_lines :: "nat \<Rightarrow> dline list \<Rightarrow> dline list" where
  "number_lines slen s = map (\<lambda>i. if i \<le> slen then (s ! i)\<lparr>d_serial := i\<rparr> else s ! i) [0..<length s]"

section \<open>Sorting\<close>

text \<open>Shell's sort of the entries 1 to \<open>n\<close> by value and serial, in place.\<close>

definition swap_lines :: "nat \<Rightarrow> nat \<Rightarrow> 'a list \<Rightarrow> 'a list" where
  "swap_lines i j a = a[i := a ! j, j := a ! i]"

function sift :: "nat \<Rightarrow> nat \<Rightarrow> dline list \<Rightarrow> dline list" where
  "sift m ai a =
     (if ai = 0 \<or> m = 0 then a
      else if d_value (a ! (ai + m)) > d_value (a ! ai) \<or>
              d_value (a ! (ai + m)) = d_value (a ! ai) \<and> d_serial (a ! (ai + m)) > d_serial (a ! ai)
      then a
      else sift m (ai - m) (swap_lines ai (ai + m) a))"
  by pat_completeness auto
termination
  by (relation "measure (\<lambda>(m, ai, a). ai)") auto

declare sift.simps [simp del]

definition shell_pass :: "nat \<Rightarrow> nat \<Rightarrow> dline list \<Rightarrow> dline list" where
  "shell_pass n m a = fold (sift m) [1..<n - m + 1] a"

fun shell_loop :: "nat \<Rightarrow> nat \<Rightarrow> dline list \<Rightarrow> dline list" where
  "shell_loop n m a = (if m = 0 then a else shell_loop n (m div 2) (shell_pass n m a))"

declare shell_loop.simps [simp del]

function shell_gap :: "nat \<Rightarrow> nat \<Rightarrow> nat \<Rightarrow> nat" where
  "shell_gap n j m = (if j \<le> n \<and> j \<noteq> 0 then shell_gap n (j * 2) (2 * j - 1) else m)"
  by pat_completeness auto
termination
  by (relation "measure (\<lambda>(n, j, m). Suc n - j)") auto

declare shell_gap.simps [simp del]

definition shellsort :: "dline list \<Rightarrow> nat \<Rightarrow> dline list" where
  "shellsort a n = (if n = 0 then a else shell_loop n (shell_gap n 1 0 div 2) a)"

section \<open>Classes of equal lines\<close>

text \<open>
  The value of each line of \<open>a\<close> becomes the index of the first equal line in \<open>b\<close>, 0 without
  one.
\<close>

function equiv_find :: "nat \<Rightarrow> nat \<Rightarrow> dline list \<Rightarrow> nat \<Rightarrow> nat \<Rightarrow> dline list \<Rightarrow> dline list" where
  "equiv_find n m b i j a =
     (if i \<le> n \<and> j \<le> m then
        if d_value (a ! i) < d_value (b ! j) then equiv_find n m b (i + 1) j (a[i := (a ! i)\<lparr>d_value := 0\<rparr>])
        else if d_value (a ! i) = d_value (b ! j)
        then equiv_find n m b (i + 1) j (a[i := (a ! i)\<lparr>d_value := int j\<rparr>])
        else equiv_find n m b i (j + 1) a
      else if i \<le> n then equiv_find n m b (i + 1) j (a[i := (a ! i)\<lparr>d_value := 0\<rparr>])
      else a)"
  by pat_completeness auto
termination
  by (relation "measure (\<lambda>(n, m, b, i, j, a). (Suc n - i) + (Suc m - j))") auto

declare equiv_find.simps [simp del]

text \<open>
  The serials of \<open>b\<close>, the first one of each class with its sign changed. They are stored one
  after the other in the array \<open>c\<close>, which lies over the lines read before; \<open>None\<close> is a read
  behind the end of the array.
\<close>

function equiv_run :: "dline list \<Rightarrow> nat \<Rightarrow> int list \<Rightarrow> (nat \<times> int list) option" where
  "equiv_run b j c =
     (if j + 1 \<ge> length b then None
      else if d_value (b ! (j + 1)) = d_value (b ! j) then equiv_run b (j + 1) (c @ [int (d_serial (b ! (j + 1)))])
      else Some (j, c))"
  by pat_completeness auto
termination
  by (relation "measure (\<lambda>(b, j, c). length b - j)") auto

declare equiv_run.simps [simp del]

lemma equiv_run_ge: "equiv_run b j c = Some (j', c') \<Longrightarrow> j \<le> j'"
proof (induction b j c rule: equiv_run.induct)
  case (1 b j c)
  from "1.prems" show ?case
    by (subst (asm) equiv_run.simps) (use "1.IH" in \<open>auto split: if_splits\<close>)
qed

function equiv_members :: "nat \<Rightarrow> dline list \<Rightarrow> nat \<Rightarrow> int list \<Rightarrow> int list option" where
  "equiv_members m b j c =
     (if j + 1 \<le> m then
        (case equiv_run b (j + 1) (c @ [- int (d_serial (b ! (j + 1)))]) of
           None \<Rightarrow> None
         | Some (j, c) \<Rightarrow> equiv_members m b j c)
      else Some (c @ [-1]))"
  by pat_completeness auto
termination
  by (relation "measure (\<lambda>(m, b, j, c). m - j)") (auto dest!: equiv_run_ge)

declare equiv_members.simps [simp del]

text \<open>The entry 0 of \<open>member\<close> is not used.\<close>

definition equiv_lines :: "dline list \<Rightarrow> nat \<Rightarrow> dline list \<Rightarrow> nat \<Rightarrow> (dline list \<times> int list) option" where
  "equiv_lines a n b m =
     (case equiv_members m (b[m + 1 := (b ! (m + 1))\<lparr>d_value := 0\<rparr>]) 0 [0] of
        None \<Rightarrow> None
      | Some c \<Rightarrow> Some (equiv_find n m b 1 1 a, c))"

definition unsort :: "dline list \<Rightarrow> nat \<Rightarrow> int list" where
  "unsort f l = fold (\<lambda>i a. a[d_serial (f ! i) := d_value (f ! i)]) [1..<l + 1] (replicate (l + 1) 0)"

section \<open>Stone's algorithm\<close>

record cand =
  cand_x :: nat
  cand_y :: nat
  cand_pred :: nat

text \<open>The best candidates for each length, the greatest length, and the candidates so far.\<close>

record stone =
  klist :: "nat list"
  st_k :: nat
  clist :: "cand list"

abbreviation (input) best_y :: "stone \<Rightarrow> nat \<Rightarrow> nat" where
  "best_y s l \<equiv> cand_y (clist s ! (klist s ! l))"

definition newcand :: "nat \<Rightarrow> nat \<Rightarrow> nat \<Rightarrow> cand list \<Rightarrow> nat \<times> cand list" where
  "newcand x y p cl = (length cl, cl @ [\<lparr>cand_x = x, cand_y = y, cand_pred = p\<rparr>])"

function search_loop :: "stone \<Rightarrow> nat \<Rightarrow> nat \<Rightarrow> nat \<Rightarrow> nat" where
  "search_loop s y i j =
     (let l = (i + j) div 2 in
      if l \<le> i then l + 1
      else if best_y s l > y then search_loop s y i l
      else if best_y s l < y then search_loop s y l j
      else l)"
  by pat_completeness auto
termination
  by (relation "measure (\<lambda>(s, y, i, j). j - i)") (auto simp: Let_def)

declare search_loop.simps [simp del]

definition search_klist :: "stone \<Rightarrow> nat \<Rightarrow> nat" where
  "search_klist s y =
     (if best_y s (st_k s) < y then st_k s + 1 else search_loop s y 0 (st_k s + 1))"

definition put_cand :: "nat \<Rightarrow> nat \<Rightarrow> nat \<Rightarrow> nat \<Rightarrow> stone \<Rightarrow> stone" where
  "put_cand l x y p s =
     (case newcand x y p (clist s) of (q, cl) \<Rightarrow> s\<lparr>clist := cl, klist := (klist s)[l := q]\<rparr>)"

text \<open>
  The members of the class that line \<open>i\<close> of the old file belongs to, from index \<open>j\<close> on. The
  class ends at a number that is not positive, which the array \<open>b\<close> ends with.
\<close>

function stone_class ::
  "nat \<Rightarrow> int list \<Rightarrow> nat \<Rightarrow> nat \<Rightarrow> nat \<Rightarrow> nat \<Rightarrow> nat \<Rightarrow> nat \<Rightarrow> stone \<Rightarrow> stone"
where
  "stone_class bound b i j y oldl oldc numtries s =
     (let next = (\<lambda>oldl oldc numtries s.
        if j + 1 < length b \<and> b ! (j + 1) > 0 \<and> numtries < bound
        then stone_class bound b i (j + 1) (nat (b ! (j + 1))) oldl oldc numtries s else s)
      in
        if y \<le> cand_y (clist s ! oldc) then next oldl oldc numtries s
        else
          let l = search_klist s y;
              oldc = (if l \<noteq> oldl + 1 then klist s ! (l - 1) else oldc)
          in if l \<le> st_k s then
               if best_y s l \<le> y then next oldl oldc numtries s
               else next l (klist s ! l) (numtries + 1) (put_cand l i y oldc s)
             else (put_cand l i y oldc s)\<lparr>st_k := st_k s + 1\<rparr>)"
  by pat_completeness auto
termination
  by (relation "measure (\<lambda>(bound, b, i, j, y, oldl, oldc, numtries, s). length b - j)") auto

declare stone_class.simps [simp del]

definition stone_line :: "nat \<Rightarrow> int list \<Rightarrow> int list \<Rightarrow> nat \<Rightarrow> stone \<Rightarrow> stone" where
  "stone_line bound a b i s =
     (let j = a ! i in
      if j = 0 then s
      else stone_class bound b i (nat j) (nat (- (b ! nat j))) 0 (klist s ! 0) 0 s)"

text \<open>The integer part of the square root.\<close>

function isqrt :: "nat \<Rightarrow> nat \<Rightarrow> nat" where
  "isqrt n k = (if (k + 1) * (k + 1) \<le> n then isqrt n (k + 1) else k)"
  by pat_completeness auto
termination
proof (relation "measure (\<lambda>(n, k). n - k)")
  fix n k :: nat
  assume "(k + 1) * (k + 1) \<le> n"
  moreover have "k < (k + 1) * (k + 1)" by simp
  ultimately have "k < n" by (rule order.strict_trans2 [rotated])
  then show "((n, k + 1), n, k) \<in> measure (\<lambda>(n, k). n - k)" by simp
qed simp

declare isqrt.simps [simp del]

definition stone_bound :: "dflags \<Rightarrow> nat \<Rightarrow> nat" where
  "stone_bound fl n = (if d_minimal fl then 2 ^ 32 - 1 else max 256 (isqrt n 0))"

definition stone :: "dflags \<Rightarrow> int list \<Rightarrow> nat \<Rightarrow> int list \<Rightarrow> stone" where
  "stone fl a n b =
     fold (stone_line (stone_bound fl n) a b) [1..<n + 1]
       (put_cand 0 0 0 0 \<lparr>klist = replicate (n + 2) 0, st_k = 0, clist = []\<rparr>)"

text \<open>The match vector \<open>J\<close>, from the common prefix and suffix and the chain from candidate \<open>p\<close> on.\<close>

partial_function (option) unravel_chain :: "cand list \<Rightarrow> nat \<Rightarrow> nat \<Rightarrow> nat list \<Rightarrow> nat list option" where
  "unravel_chain cl pref p J =
     (let q = cl ! p in
      if cand_y q \<noteq> 0
      then unravel_chain cl pref (cand_pred q) (J[cand_x q + pref := cand_y q + pref])
      else Some J)"

definition unravel :: "nat \<Rightarrow> nat \<Rightarrow> nat \<Rightarrow> nat \<Rightarrow> cand list \<Rightarrow> nat \<Rightarrow> nat list option" where
  "unravel n m pref suff cl p =
     unravel_chain cl pref p
       (map (\<lambda>i. if i \<le> pref then i else if i > n - suff then i + m - n else 0) [0..<n + 1] @ [0])"

declare unravel_chain.simps [code]

section \<open>Checking the pairs\<close>

text \<open>The characters of a line up to its end, the newline or \<open>EOF\<close> counted.\<close>

fun skipline :: "string \<Rightarrow> nat \<times> string" where
  "skipline [] = (1, [])"
| "skipline (c # f) = (if c = NL then (1, f) else (case skipline f of (n, f) \<Rightarrow> (n + 1, f)))"

text \<open>The streams with the counts of the characters read from them.\<close>

record dpair =
  p_old :: string
  p_new :: string
  p_ctold :: nat
  p_ctnew :: nat

definition skip_old :: "dpair \<Rightarrow> dpair" where
  "skip_old p = (case skipline (p_old p) of (n, f) \<Rightarrow> p\<lparr>p_old := f, p_ctold := p_ctold p + n\<rparr>)"

definition skip_new :: "dpair \<Rightarrow> dpair" where
  "skip_new p = (case skipline (p_new p) of (n, f) \<Rightarrow> p\<lparr>p_new := f, p_ctnew := p_ctnew p + n\<rparr>)"

text \<open>The rest of two lines that differ in the characters \<open>c\<close> and \<open>d\<close>.\<close>

definition jackpot :: "char option \<Rightarrow> char option \<Rightarrow> dpair \<Rightarrow> dpair" where
  "jackpot c d p =
     (let p = (if c \<noteq> Some NL \<and> c \<noteq> None then skip_old p else p)
      in if d \<noteq> Some NL \<and> c \<noteq> None then skip_new p else p)"

text \<open>Both next characters, counted.\<close>

definition get_both :: "dpair \<Rightarrow> (char option \<times> char option) \<times> dpair" where
  "get_both p =
     ((fst (fgetchar (p_old p)), fst (fgetchar (p_new p))),
      p\<lparr>p_old := snd (fgetchar (p_old p)), p_new := snd (fgetchar (p_new p))\<rparr>)"

definition count_both :: "dpair \<Rightarrow> dpair" where
  "count_both p = p\<lparr>p_ctold := p_ctold p + 1, p_ctnew := p_ctnew p + 1\<rparr>"

function check_exact :: "dpair \<Rightarrow> bool \<times> dpair" where
  "check_exact p =
     (case get_both (count_both p) of ((c, d), p) \<Rightarrow>
        if c \<noteq> d then (False, jackpot c d p)
        else if c = Some NL \<or> c = None then (True, p)
        else check_exact p)"
  by pat_completeness auto
termination
  by (relation "measure (\<lambda>p. length (p_old p))")
    (auto simp: get_both_def count_both_def fgetchar_def split: list.splits)

declare check_exact.simps [simp del]

text \<open>Blanks after the character \<open>c\<close>, counted.\<close>

fun skip_blanks :: "char option \<Rightarrow> nat \<Rightarrow> string \<Rightarrow> char option \<times> nat \<times> string" where
  "skip_blanks c ct f =
     (if is_space c \<and> c \<noteq> Some NL then
        (case f of [] \<Rightarrow> (None, ct + 1, []) | c # f \<Rightarrow> skip_blanks (Some c) (ct + 1) f)
      else (c, ct, f))"

declare skip_blanks.simps [simp del]

definition after_cr :: "char option \<Rightarrow> nat \<Rightarrow> string \<Rightarrow> nat \<times> string" where
  "after_cr c ct f =
     (if c = Some CR \<and> fst (fgetchar f) = Some NL then (ct + 1, snd (fgetchar f)) else (ct, f))"

lemma skip_blanks_shrinks: "skip_blanks c ct f = (c', ct', f') \<Longrightarrow> length f' \<le> length f \<and> (c = None \<longrightarrow> c' = None)"
proof (induction f arbitrary: c ct)
  case Nil
  then show ?case by (subst (asm) skip_blanks.simps) (auto simp: is_space_def split: if_splits)
next
  case (Cons x f)
  from Cons.prems show ?case
    by (subst (asm) skip_blanks.simps) (use Cons.IH in \<open>fastforce simp: is_space_def split: if_splits\<close>)
qed

text \<open>The comparison with the flags that let lines be equal that are not the same.\<close>

definition skip_blanks_old :: "char option \<Rightarrow> dpair \<Rightarrow> char option \<times> dpair" where
  "skip_blanks_old c p =
     (case skip_blanks c (p_ctold p) (p_old p) of (c, ct, f) \<Rightarrow> (c, p\<lparr>p_ctold := ct, p_old := f\<rparr>))"

definition skip_blanks_new :: "char option \<Rightarrow> dpair \<Rightarrow> char option \<times> dpair" where
  "skip_blanks_new d p =
     (case skip_blanks d (p_ctnew p) (p_new p) of (d, ct, f) \<Rightarrow> (d, p\<lparr>p_ctnew := ct, p_new := f\<rparr>))"

function check_flags :: "dflags \<Rightarrow> dpair \<Rightarrow> bool \<times> dpair" where
  "check_flags fl p =
     (case get_both p of ((c, d), p) \<Rightarrow>
        if (d_foldblanks fl \<or> d_ignoreblanks fl) \<and> c = None \<and> d = Some NL
        then (True, p\<lparr>p_ctnew := p_ctnew p + 1\<rparr>)
        else if (d_foldblanks fl \<or> d_ignoreblanks fl) \<and> c = Some NL \<and> d = None
        then (True, p\<lparr>p_ctold := p_ctold p + 1\<rparr>)
        else
          let p = count_both p in
          if d_stripcr fl \<and> (c = Some CR \<or> d = Some CR) then
            (case after_cr c (p_ctold p) (p_old p) of (ctold, f1) \<Rightarrow>
              case after_cr d (p_ctnew p) (p_new p) of (ctnew, f2) \<Rightarrow>
                (True, \<lparr>p_old = f1, p_new = f2, p_ctold = ctold, p_ctnew = ctnew\<rparr>))
          else
            (case
               (if d_foldblanks fl \<and> is_space c \<and> is_space d \<or>
                   d_ignoreblanks fl \<and> \<not> (d_foldblanks fl \<and> is_space c \<and> is_space d)
                then (case skip_blanks_old c p of (c, p) \<Rightarrow>
                       case skip_blanks_new d p of (d, p) \<Rightarrow> (c, d, p))
                else (c, d, p)) of
             (c, d, p) \<Rightarrow>
               if chrtran fl c \<noteq> chrtran fl d then (False, jackpot c d p)
               else if c = Some NL \<or> c = None then (True, p)
               else check_flags fl p))"
  by pat_completeness auto
termination
  by (relation "measure (\<lambda>(fl, p). length (p_old p))")
    (auto simp: get_both_def count_both_def fgetchar_def Let_def skip_blanks_old_def skip_blanks_new_def
       is_space_def split: list.splits prod.splits if_splits option.splits dest!: skip_blanks_shrinks)

declare check_flags.simps [simp del]

record dcheck =
  ck_J :: "nat list"
  ixold :: "nat list"
  ixnew :: "nat list"
  ck_j :: nat
  ck_pair :: dpair

definition ck_skip_new :: "dcheck \<Rightarrow> dcheck" where
  "ck_skip_new st =
     (let p = skip_new (ck_pair st)
      in st\<lparr>ck_pair := p, ixnew := (ixnew st)[ck_j st := p_ctnew p], ck_j := ck_j st + 1\<rparr>)"

text \<open>The lines of the new file before line \<open>k\<close>.\<close>

function check_skip :: "nat \<Rightarrow> dcheck \<Rightarrow> dcheck" where
  "check_skip k st = (if ck_j st < k then check_skip k (ck_skip_new st) else st)"
  by pat_completeness auto
termination
  by (relation "measure (\<lambda>(k, st). k - ck_j st)") (auto simp: ck_skip_new_def Let_def)

declare check_skip.simps [simp del]

definition check_line :: "dflags \<Rightarrow> nat \<Rightarrow> dcheck \<Rightarrow> dcheck" where
  "check_line fl i st =
     (if ck_J st ! i = 0 then
        (let p = skip_old (ck_pair st) in st\<lparr>ck_pair := p, ixold := (ixold st)[i := p_ctold p]\<rparr>)
      else
        let st = check_skip (ck_J st ! i) st in
        (case (if d_foldblanks fl \<or> d_ignoreblanks fl \<or> d_ignorecase fl \<or> d_stripcr fl
               then check_flags fl (ck_pair st) else check_exact (ck_pair st)) of
           (same, p) \<Rightarrow>
             st\<lparr>ck_pair := p, ck_J := (if same then ck_J st else (ck_J st)[i := 0]),
                ixold := (ixold st)[i := p_ctold p], ixnew := (ixnew st)[ck_j st := p_ctnew p],
                ck_j := ck_j st + 1\<rparr>))"

definition check :: "dflags \<Rightarrow> nat \<Rightarrow> nat \<Rightarrow> nat list \<Rightarrow> string \<Rightarrow> string \<Rightarrow> dcheck" where
  "check fl n m J f1 f2 =
     check_skip (m + 1)
       (fold (check_line fl) [1..<n + 1]
          \<lparr>ck_J = J, ixold = replicate (n + 2) 0, ixnew = replicate (m + 2) 0, ck_j = 1,
           ck_pair = \<lparr>p_old = f1, p_new = f2, p_ctold = 0, p_ctnew = 0\<rparr>\<rparr>)"

section \<open>Printing changes\<close>

text \<open>\<open>%d\<close>.\<close>

fun decimal :: "nat \<Rightarrow> string" where
  "decimal n = (if n < 10 then [chr (48 + n)] else decimal (n div 10) @ [chr (48 + n mod 10)])"

declare decimal.simps [simp del]

definition range_text :: "nat \<Rightarrow> nat \<Rightarrow> string \<Rightarrow> string" where
  "range_text a b separator = decimal (if a > b then b else a) @ (if a < b then separator @ decimal b else [])"

text \<open>
  The characters of a line, \<open>nc\<close> of them, from the stream on. The result says whether the
  lines after it are printed too, whether the file has ended or whether the line is a single
  period that an \<open>ed\<close> script cannot contain.
\<close>

datatype fetched = Printed | Ended | Dot

function fetch_chars ::
  "dflags \<Rightarrow> dformat \<Rightarrow> nat \<Rightarrow> nat \<Rightarrow> nat \<Rightarrow> char \<Rightarrow> string \<Rightarrow> string \<times> fetched"
where
  "fetch_chars fl fmt nc j col lastc f =
     (if \<not> j < nc then ([], Printed)
      else
        let (c, f) = fgetchar f;
            crnl = (d_stripcr fl \<and> c = Some CR \<and> fst (fgetchar f) = Some NL);
            j = (if crnl then j + 1 else j);
            (c, f) = (if crnl then fgetchar f else (c, f))
        in case c of
             None \<Rightarrow>
               ((if fmt \<in> {D_EDIT, D_REVERSE, D_NREVERSE} then []
                 else [NL, CHR 0x5C] @ '' No newline at end of file'' @ [NL]), Ended)
           | Some c \<Rightarrow>
               if c = TAB then
                 let newcol = (col + 8) div 8 * 8;
                     (out, r) = fetch_chars fl fmt nc (j + 1) newcol c f
                 in ((if d_expandtabs fl then replicate (newcol - col) CHR '' '' else [TAB]) @ out, r)
               else if fmt = D_EDIT \<and> j = 1 \<and> c = NL \<and> lastc = CHR ''.'' then (''.'' @ [NL], Dot)
               else
                 let (out, r) = fetch_chars fl fmt nc (j + 1) (col + 1) c f in (c # out, r))"
  by pat_completeness auto
termination
  by (relation "measure (\<lambda>(fl, fmt, nc, j, col, lastc, f). nc - j)") (auto split: if_splits)

declare fetch_chars.simps [simp del]

text \<open>The lines \<open>a\<close> to \<open>b\<close> of a file with the index \<open>ix\<close>: the text and \<open>edoffset\<close>.\<close>

function fetch_lines ::
  "dflags \<Rightarrow> dformat \<Rightarrow> nat list \<Rightarrow> nat \<Rightarrow> nat \<Rightarrow> nat \<Rightarrow> string \<Rightarrow> string \<Rightarrow> string \<times> nat"
where
  "fetch_lines fl fmt ix a i b ch f =
     (if i > b then ([], 0)
      else
        let (out, r) = fetch_chars fl fmt (ix ! i - ix ! (i - 1)) 0 0 NUL (drop (ix ! (i - 1)) f);
            out = ch @ out
        in case r of
             Printed \<Rightarrow> (case fetch_lines fl fmt ix a (i + 1) b ch f of (out', e) \<Rightarrow> (out @ out', e))
           | Ended \<Rightarrow> (out, 0)
           | Dot \<Rightarrow> (out, i - a + 1))"
  by pat_completeness auto
termination
  by (relation "measure (\<lambda>(fl, fmt, ix, a, i, b, ch, f). Suc b - i)") auto

declare fetch_lines.simps [simp del]

text \<open>\<open>None\<close> is the character 0: nothing is printed before a line.\<close>

definition fetch ::
  "dflags \<Rightarrow> dformat \<Rightarrow> nat list \<Rightarrow> nat \<Rightarrow> nat \<Rightarrow> string \<Rightarrow> char option \<Rightarrow> string \<times> nat"
where
  "fetch fl fmt ix a b f ch =
     (if a > b then ([], 0)
      else fetch_lines fl fmt ix a a b
        (case ch of
           None \<Rightarrow> []
         | Some ch \<Rightarrow> [ch, (if d_Tflag fl \<and> fmt = D_NORMAL then TAB else CHR '' '')]) f)"

lemma fetch_lines_offset: "fetch_lines fl fmt ix a i b ch f = (out, e) \<Longrightarrow> a \<le> i \<Longrightarrow> e \<noteq> 0 \<Longrightarrow> i \<le> b"
  by (subst (asm) fetch_lines.simps) (auto split: if_splits)

lemma fetch_offset: "fetch fl fmt ix a b f ch = (out, e) \<Longrightarrow> e \<noteq> 0 \<Longrightarrow> a \<le> b"
  by (auto simp: fetch_def split: if_splits)

text \<open>A line that \<open>-B\<close> skips: nothing before its newline.\<close>

definition blank_line :: "nat list \<Rightarrow> nat \<Rightarrow> string \<Rightarrow> bool" where
  "blank_line ix i f =
     (let l = take (ix ! i - ix ! (i - 1)) (drop (ix ! (i - 1)) f)
      in at0 (if l \<noteq> [] \<and> last l = NL then butlast l else l) = NUL)"

definition ignored :: "dcheck \<Rightarrow> string \<Rightarrow> string \<Rightarrow> nat \<Rightarrow> nat \<Rightarrow> nat \<Rightarrow> nat \<Rightarrow> bool" where
  "ignored ck f1 f2 a b c d \<longleftrightarrow>
     list_all (\<lambda>i. blank_line (ixold ck) i f1) [a..<b + 1] \<and>
     list_all (\<lambda>i. blank_line (ixnew ck) i f2) [c..<d + 1]"

text \<open>The command of a change, before its lines.\<close>

definition change_head :: "dformat \<Rightarrow> nat \<Rightarrow> nat \<Rightarrow> nat \<Rightarrow> nat \<Rightarrow> string" where
  "change_head fmt a b c d =
     (let cmd = (if a > b then CHR ''a'' else if c > d then CHR ''d'' else CHR ''c'') in
      case fmt of
        D_NORMAL \<Rightarrow> range_text a b '','' @ [cmd] @ range_text c d '','' @ [NL]
      | D_EDIT \<Rightarrow> range_text a b '','' @ [cmd, NL]
      | D_REVERSE \<Rightarrow> [cmd] @ range_text a b '' '' @ [NL]
      | D_NREVERSE \<Rightarrow>
          (if a > b then ''a'' @ decimal b @ '' '' @ decimal (d + 1 - c) @ [NL]
           else ''d'' @ decimal a @ '' '' @ decimal (b + 1 - a) @ [NL] @
             (if \<not> c > d then ''a'' @ decimal b @ '' '' @ decimal (d + 1 - c) @ [NL] else [])))"

text \<open>
  A change: the text printed, and whether anything is printed. After a line with a single
  period, printed as two, the script removes one of them and goes on behind it.
\<close>

function change ::
  "dflags \<Rightarrow> dformat \<Rightarrow> dcheck \<Rightarrow> string \<Rightarrow> string \<Rightarrow> nat \<Rightarrow> nat \<Rightarrow> nat \<Rightarrow> nat \<Rightarrow> string \<times> bool"
where
  "change fl fmt ck f1 f2 a b c d =
     (if a > b \<and> c > d then ([], False)
      else if d_skipblanklines fl \<and> ignored ck f1 f2 a b c d then ([], False)
      else
        let old = (if fmt = D_NORMAL then
                     fst (fetch fl fmt (ixold ck) a b f1 (Some CHR ''<'')) @
                     (if a \<le> b \<and> c \<le> d then ''---'' @ [NL] else [])
                   else []);
            (new, edoffset) =
              fetch fl fmt (ixnew ck) c d f2 (if fmt = D_NORMAL then Some CHR ''>'' else None)
        in
          (change_head fmt a b c d @ old @ new @
           (if edoffset \<noteq> 0 \<and> fmt = D_EDIT then
              ''.'' @ [NL] @ decimal (a + edoffset - 1) @ ''s/.//'' @ [NL] @
              fst (change fl fmt ck f1 f2 (a + edoffset) (a + edoffset - 1) (c + edoffset) d)
            else if fmt \<in> {D_EDIT, D_REVERSE} \<and> c \<le> d then ''.'' @ [NL] else []),
           True))"
  by pat_completeness auto
termination
  by (relation "measure (\<lambda>(fl, fmt, ck, f1, f2, a, b, c, d). Suc d - c)")
    (auto dest!: fetch_offset [OF sym] split: if_splits)

declare change.simps [simp del]

text \<open>
  The changes from the match vector, in the order they are printed. The array \<open>J\<close> is a
  function here.
\<close>

type_synonym dchange = "nat \<times> nat \<times> nat \<times> nat"

function skip_same :: "nat \<Rightarrow> (nat \<Rightarrow> nat) \<Rightarrow> nat \<Rightarrow> nat" where
  "skip_same m J i = (if i \<le> m \<and> J i = J (i - 1) + 1 then skip_same m J (i + 1) else i)"
  by pat_completeness auto
termination
  by (relation "measure (\<lambda>(m, J, i). Suc m - i)") auto

function skip_unmatched :: "nat \<Rightarrow> (nat \<Rightarrow> nat) \<Rightarrow> nat \<Rightarrow> nat" where
  "skip_unmatched m J i = (if i < m \<and> J (i + 1) = 0 then skip_unmatched m J (i + 1) else i)"
  by pat_completeness auto
termination
  by (relation "measure (\<lambda>(m, J, i). m - i)") auto

fun skip_same_back :: "(nat \<Rightarrow> nat) \<Rightarrow> nat \<Rightarrow> nat" where
  "skip_same_back J 0 = 0"
| "skip_same_back J (Suc i) =
     (if J (Suc i) = J (Suc i + 1) - 1 \<and> J (Suc i) \<noteq> 0 then skip_same_back J i else Suc i)"

fun skip_unmatched_back :: "(nat \<Rightarrow> nat) \<Rightarrow> nat \<Rightarrow> nat" where
  "skip_unmatched_back J i = (if i > 1 \<and> J (i - 1) = 0 then skip_unmatched_back J (i - 1) else i)"

declare skip_same.simps [simp del] skip_unmatched.simps [simp del] skip_unmatched_back.simps [simp del]

lemma skip_same_ge: "i \<le> skip_same m J i"
  by (induction m J i rule: skip_same.induct) (subst skip_same.simps, auto)

lemma skip_same_more: "i \<le> m \<Longrightarrow> J i = J (i - 1) + 1 \<Longrightarrow> i < skip_same m J i"
  using skip_same_ge [of "i + 1" m J] by (subst skip_same.simps) simp

lemma skip_unmatched_ge: "i \<le> skip_unmatched m J i"
  by (induction m J i rule: skip_unmatched.induct) (subst skip_unmatched.simps, auto)

lemma skip_unmatched_stop: "skip_unmatched m J i < m \<Longrightarrow> J (skip_unmatched m J i + 1) \<noteq> 0"
  by (induction m J i rule: skip_unmatched.induct)
    (subst (asm) (2) skip_unmatched.simps, subst skip_unmatched.simps, auto split: if_splits)

lemma skip_same_back_le: "skip_same_back J i \<le> i"
  by (induction J i rule: skip_same_back.induct) auto

lemma skip_same_back_less: "J i = J (i + 1) - 1 \<and> J i \<noteq> 0 \<Longrightarrow> 1 \<le> i \<Longrightarrow> skip_same_back J i \<noteq> i"
proof (cases i)
  case (Suc k)
  assume c: "J i = J (i + 1) - 1 \<and> J i \<noteq> 0"
  have "skip_same_back J i = skip_same_back J k"
    using c unfolding Suc skip_same_back.simps by (rule if_P)
  with Suc skip_same_back_le [of J k] show ?thesis by simp
qed simp

lemma skip_unmatched_back_le: "skip_unmatched_back J i \<le> i"
  by (induction J i rule: skip_unmatched_back.induct) (subst skip_unmatched_back.simps, auto)

lemma skip_unmatched_back_stop: "skip_unmatched_back J i > 1 \<Longrightarrow> J (skip_unmatched_back J i - 1) \<noteq> 0"
  by (induction J i rule: skip_unmatched_back.induct)
    (subst (asm) (2) skip_unmatched_back.simps, subst skip_unmatched_back.simps, auto split: if_splits)

function changes_down :: "nat \<Rightarrow> (nat \<Rightarrow> nat) \<Rightarrow> nat \<Rightarrow> dchange list" where
  "changes_down m J i0 =
     (if i0 \<le> m then
        let i0 = skip_same m J i0;
            j0 = J (i0 - 1) + 1;
            i1 = skip_unmatched m J (i0 - 1);
            j1 = J (i1 + 1) - 1
        in (i0, i1, j0, j1) # changes_down m (J(i1 := j1)) (i1 + 1)
      else [])"
  by pat_completeness auto
termination
proof (relation "measures [\<lambda>(m, J, i0). Suc m - i0, \<lambda>(m, J, i0). if J i0 = J (i0 - 1) + 1 then 0 else 1]")
  fix m J i0 i0' j0 i1 j1
  assume i: "i0 \<le> m" and d: "i0' = skip_same m J i0" "j0 = J (i0' - 1) + 1" "i1 = skip_unmatched m J (i0' - 1)"
    "j1 = J (i1 + 1) - (1 :: nat)"
  have ge: "i0 \<le> i0'" "i0' - 1 \<le> i1" using skip_same_ge skip_unmatched_ge d by simp_all
  show "((m, J(i1 := j1), i1 + 1), m, J, i0) \<in>
    measures [\<lambda>(m, J, i0). Suc m - i0, \<lambda>(m, J, i0). if J i0 = J (i0 - 1) + 1 then 0 else 1]"
  proof (cases "i1 + 1 = i0")
    case True
    then have "i0' = i0" "i1 < m" "i1 = i0 - 1" using ge i by simp_all
    then have "J i0 \<noteq> J (i0 - 1) + 1" "J i0 \<noteq> 0"
      using skip_same_more [of i0 m J] skip_unmatched_stop [of m J "i0' - 1"] i d True by auto
    then show ?thesis using True d(4) i by auto
  next
    case False
    then show ?thesis using ge i by auto
  qed
qed simp

function changes_up :: "(nat \<Rightarrow> nat) \<Rightarrow> nat \<Rightarrow> dchange list" where
  "changes_up J i0 =
     (if i0 \<ge> 1 then
        let i0 = skip_same_back J i0;
            j0 = J (i0 + 1) - 1;
            i1 = skip_unmatched_back J (i0 + 1);
            j1 = J (i1 - 1) + 1
        in (i1, i0, j1, j0) # changes_up (J(i1 := j1)) (i1 - 1)
      else [])"
  by pat_completeness auto
termination
proof (relation "measures [\<lambda>(J, i0). i0, \<lambda>(J, i0). if J i0 = J (i0 + 1) - 1 \<and> J i0 \<noteq> 0 then 0 else 1]")
  fix J :: "nat \<Rightarrow> nat" and i0 i0' j0 i1 j1
  assume i: "1 \<le> i0" and d: "i0' = skip_same_back J i0" "j0 = J (i0' + 1) - 1" "i1 = skip_unmatched_back J (i0' + 1)"
    "j1 = J (i1 - 1) + (1 :: nat)"
  have le: "i0' \<le> i0" "i1 \<le> i0' + 1" using skip_same_back_le skip_unmatched_back_le d by simp_all
  show "((J(i1 := j1), i1 - 1), J, i0) \<in>
    measures [\<lambda>(J, i0). i0, \<lambda>(J, i0). if J i0 = J (i0 + 1) - 1 \<and> J i0 \<noteq> 0 then 0 else 1]"
  proof (cases "i1 - 1 = i0")
    case True
    then have e: "i0' = i0" "i1 = i0 + 1" using le i by simp_all
    then have "\<not> (J i0 = J (i0 + 1) - 1 \<and> J i0 \<noteq> 0)" using d(1) i skip_same_back_less by metis
    moreover have "J i0 \<noteq> 0" using skip_unmatched_back_stop [of J "i0' + 1"] d(3) e i by simp
    ultimately show ?thesis using e d(4) by auto
  next
    case False
    then show ?thesis using le i by auto
  qed
qed simp

declare changes_down.simps [simp del] changes_up.simps [simp del]

definition changes :: "dformat \<Rightarrow> nat \<Rightarrow> nat \<Rightarrow> nat list \<Rightarrow> dchange list" where
  "changes fmt m n J =
     (let J = (\<lambda>i. J ! i)(0 := 0, m + 1 := n + 1)
      in (if fmt = D_EDIT then changes_up J m else changes_down m J 1) @
         (if m = 0 then [(1, 0, 1, n)] else []))"

fun print_changes :: "dflags \<Rightarrow> dformat \<Rightarrow> dcheck \<Rightarrow> string \<Rightarrow> string \<Rightarrow> dchange list \<Rightarrow> string \<times> bool" where
  "print_changes fl fmt ck f1 f2 [] = ([], False)"
| "print_changes fl fmt ck f1 f2 ((a, b, c, d) # cs) =
     (let (out, any) = change fl fmt ck f1 f2 a b c d;
          (out', any') = print_changes fl fmt ck f1 f2 cs
      in (out @ out', any \<or> any'))"

section \<open>Two files compared\<close>

datatype dresult = D_SAME | D_DIFFER | D_BINARY

abbreviation (input) BUFSIZ :: nat where "BUFSIZ \<equiv> 8192"

definition asciifile :: "string \<Rightarrow> bool" where
  "asciifile f \<longleftrightarrow> NUL \<notin> set (take BUFSIZ f)"

text \<open>\<open>None\<close> is an access outside an array, or a chain that does not end.\<close>

definition match_lines :: "dflags \<Rightarrow> nat \<times> dline list \<Rightarrow> nat \<times> dline list \<Rightarrow> nat list option" where
  "match_lines fl l1 l2 =
     (let (n, file1) = l1; (m, file2) = l2;
          pref = prune_prefix file1 n file2 m 0;
          suff = prune_suffix file1 n file2 m pref 0;
          sn = n - pref - suff; sm = m - pref - suff;
          sfile1 = shellsort (number_lines sn (drop pref file1)) sn;
          sfile2 = shellsort (number_lines sm (drop pref file2)) sm
      in case equiv_lines sfile1 sn sfile2 sm of
           None \<Rightarrow> None
         | Some (sfile1, member) \<Rightarrow>
             let s = stone fl (unsort sfile1 sn) sn member
             in unravel n m pref suff (clist s) (klist s ! st_k s))"

definition diffreg :: "dflags \<Rightarrow> dformat \<Rightarrow> string \<Rightarrow> string \<Rightarrow> (dresult \<times> string) option" where
  "diffreg fl fmt f1 f2 =
     (if f1 = f2 then Some (D_SAME, [])
      else if \<not> d_forceascii fl \<and> (\<not> asciifile f1 \<or> \<not> asciifile f2) then Some (D_BINARY, [])
      else
        case (prepare fl f1, prepare fl f2) of
          (Some (n, l1), Some (m, l2)) \<Rightarrow>
            (case match_lines fl (n, l1) (m, l2) of
               None \<Rightarrow> None
             | Some J \<Rightarrow>
                 let ck = check fl n m J f1 f2;
                     (out, any) = print_changes fl fmt ck f1 f2 (changes fmt n m (ck_J ck))
                 in Some (if any then D_DIFFER else D_SAME, out))
        | _ \<Rightarrow> Some (D_BINARY, []))"

end
