(* ===== verification/DiffStone.thy ===== *)
theory DiffStone
  imports Diff "HOL-Library.Sublist"
begin

text \<open>
  Stone's algorithm: after each line of the old file, the candidates of length \<open>l\<close> end at the
  least line of the new file that a common subsequence of length \<open>l\<close> can end at. What
  \<open>numtries\<close> cuts off counts as lines that do not match.
\<close>

section \<open>Common subsequences of a match relation\<close>

text \<open>
  \<open>M x\<close> lists the lines of the new file that match line \<open>x\<close> of the old one. \<open>reach M i l y\<close>: the
  first \<open>i\<close> lines and the first \<open>y\<close> lines have \<open>l\<close> increasing matches.
\<close>

primrec reach :: "(nat \<Rightarrow> nat list) \<Rightarrow> nat \<Rightarrow> nat \<Rightarrow> nat \<Rightarrow> bool" where
  "reach M 0 l y \<longleftrightarrow> l = 0"
| "reach M (Suc i) l y \<longleftrightarrow>
     reach M i l y \<or>
     (\<exists>k y'. l = Suc k \<and> y' \<in> set (M (Suc i)) \<and> 0 < y' \<and> y' \<le> y \<and> reach M i k (y' - 1))"

lemma reach_0 [simp]: "reach M i 0 y"
  by (induction i) simp_all

lemma reach_mono: "reach M i l y \<Longrightarrow> y \<le> y' \<Longrightarrow> reach M i l y'"
  by (induction i) (fastforce intro: le_trans)+

lemma reach_less: "reach M i (Suc l) y \<Longrightarrow> 0 < y \<and> reach M i l (y - 1)"
proof (induction i arbitrary: l y)
  case (Suc i)
  then consider (old) "reach M i (Suc l) y"
    | (new) y' where "y' \<in> set (M (Suc i))" "0 < y'" "y' \<le> y" "reach M i l (y' - 1)" by auto
  then show ?case
  proof cases
    case old
    with Suc.IH show ?thesis by simp
  next
    case new
    then have "reach M i l (y - 1)" by (auto elim: reach_mono)
    with new show ?thesis by simp
  qed
qed simp

lemma reach_cong: "(\<And>x. x \<le> i \<Longrightarrow> M x = M' x) \<Longrightarrow> reach M i l y = reach M' i l y"
  by (induction i arbitrary: l y) auto

lemma reach_shorter: "reach M i l y \<Longrightarrow> l' \<le> l \<Longrightarrow> reach M i l' y"
proof (induction l)
  case (Suc l)
  from reach_less [OF Suc.prems(1)] have "reach M i l y" by (auto elim: reach_mono)
  with Suc show ?case by (cases "l' = Suc l") auto
qed simp

text \<open>The matches of a common subsequence, the last one first.\<close>

fun matching :: "(nat \<Rightarrow> nat list) \<Rightarrow> nat \<Rightarrow> nat \<Rightarrow> (nat \<times> nat) list \<Rightarrow> bool" where
  "matching M i v [] \<longleftrightarrow> True"
| "matching M i v ((x, y) # ps) \<longleftrightarrow>
     0 < x \<and> x \<le> i \<and> 0 < y \<and> y \<le> v \<and> y \<in> set (M x) \<and> matching M (x - 1) (y - 1) ps"

lemma matching_mono: "matching M i v ps \<Longrightarrow> i \<le> i' \<Longrightarrow> v \<le> v' \<Longrightarrow> matching M i' v' ps"
  by (cases ps) auto

lemma matching_sub: "matching M i v ps \<Longrightarrow> (\<And>x. x \<le> i \<Longrightarrow> set (M x) \<subseteq> set (M' x)) \<Longrightarrow> matching M' i v ps"
proof (induction M i v ps rule: matching.induct)
  case (2 M i v x y ps)
  have "matching M' (x - 1) (y - 1) ps"
  proof (rule "2.IH")
    show "matching M (x - 1) (y - 1) ps" using 2(2) by simp
    from 2(2) have "x \<le> i" by simp
    then show "set (M z) \<subseteq> set (M' z)" if "z \<le> x - 1" for z
      using that by (intro 2(3)) linarith
  qed
  with 2(2) 2(3) [of x] show ?case by auto
qed simp

lemma matching_reach: "matching M i v ps \<Longrightarrow> reach M i (length ps) v"
proof (induction i arbitrary: v ps)
  case 0
  then show ?case by (cases "(M, 0 :: nat, v, ps)" rule: matching.cases) auto
next
  case (Suc i)
  show ?case
  proof (cases ps)
    case (Cons p ps')
    obtain x y where p: "p = (x, y)" by fastforce
    show ?thesis
    proof (cases "x = Suc i")
      case True
      with Suc.prems Cons p have "reach M i (length ps') (y - 1)" using Suc.IH by simp
      with Suc.prems Cons p True show ?thesis by auto
    next
      case False
      with Suc.prems Cons p have "matching M i v ps" by simp
      from Suc.IH [OF this] show ?thesis by simp
    qed
  qed simp
qed

declare reach.simps(2) [simp del]

section \<open>Candidates\<close>

text \<open>The matches behind a candidate.\<close>

inductive chain :: "cand list \<Rightarrow> nat \<Rightarrow> (nat \<times> nat) list \<Rightarrow> bool" where
  chain_end: "p < length cl \<Longrightarrow> cand_y (cl ! p) = 0 \<Longrightarrow> chain cl p []"
| chain_step: "p < length cl \<Longrightarrow> cand_y (cl ! p) \<noteq> 0 \<Longrightarrow> chain cl (cand_pred (cl ! p)) ps \<Longrightarrow>
    chain cl p ((cand_x (cl ! p), cand_y (cl ! p)) # ps)"

lemma chain_less: "chain cl p ps \<Longrightarrow> p < length cl"
  by (cases rule: chain.cases) auto

lemma chain_append: "chain cl p ps \<Longrightarrow> chain (cl @ cl') p ps"
proof (induction rule: chain.induct)
  case (chain_end p cl)
  then show ?case using chain.chain_end [of p "cl @ cl'"] by (simp add: nth_append)
next
  case (chain_step p cl ps)
  then show ?case using chain.chain_step [of p "cl @ cl'" ps] by (simp add: nth_append)
qed

lemma chain_new:
  assumes "chain cl p ps" and "0 < y"
  shows "chain (cl @ [\<lparr>cand_x = x, cand_y = y, cand_pred = p\<rparr>]) (length cl) ((x, y) # ps)"
  using chain.chain_step [of "length cl" "cl @ [\<lparr>cand_x = x, cand_y = y, cand_pred = p\<rparr>]" ps]
    chain_append [OF assms(1)] assms(2) by simp

lemma chain_y: "chain cl p ps \<Longrightarrow> cand_y (cl ! p) = (case ps of [] \<Rightarrow> 0 | (x, y) # _ \<Rightarrow> y)"
  by (cases rule: chain.cases) auto

definition stands_for :: "(nat \<Rightarrow> nat list) \<Rightarrow> nat \<Rightarrow> cand list \<Rightarrow> nat \<Rightarrow> nat \<Rightarrow> bool" where
  "stands_for M i cl p l \<longleftrightarrow>
     (\<exists>ps. chain cl p ps \<and> length ps = l \<and> matching M i (cand_y (cl ! p)) ps)"

lemma stands_for_less: "stands_for M i cl p l \<Longrightarrow> p < length cl"
  by (auto simp: stands_for_def dest: chain_less)

lemma stands_for_append: "stands_for M i cl p l \<Longrightarrow> stands_for M i (cl @ cl') p l"
  using chain_less by (fastforce simp: stands_for_def nth_append intro: chain_append)

lemma stands_for_reach: "stands_for M i cl p l \<Longrightarrow> reach M i l (cand_y (cl ! p))"
  by (auto simp: stands_for_def dest: matching_reach)

lemma stands_for_mono:
  assumes "stands_for M i cl p l" and "i \<le> i'" and "\<And>x. x \<le> i \<Longrightarrow> set (M x) \<subseteq> set (M' x)"
  shows "stands_for M' i' cl p l"
  using assms matching_sub [of M i _ _ M'] matching_mono [of M' i _ _ i'] by (fastforce simp: stands_for_def)

lemma stands_for_new:
  assumes s: "stands_for M i cl p l" and y: "cand_y (cl ! p) < y" "y \<in> set (M (Suc i))"
  shows "stands_for M (Suc i) (cl @ [\<lparr>cand_x = Suc i, cand_y = y, cand_pred = p\<rparr>]) (length cl) (Suc l)"
proof -
  obtain ps where ps: "chain cl p ps" "length ps = l" "matching M i (cand_y (cl ! p)) ps"
    using s by (auto simp: stands_for_def)
  have "matching M i (y - 1) ps" using matching_mono [OF ps(3)] y(1) by simp
  with chain_new [OF ps(1), of y "Suc i"] ps(2) y show ?thesis
    by (auto simp: stands_for_def intro!: exI [of _ "(Suc i, y) # ps"])
qed

text \<open>The state after line \<open>i\<close>, for a new file of \<open>klist\<close> size \<open>N\<close>.\<close>

definition stone_inv :: "nat \<Rightarrow> (nat \<Rightarrow> nat list) \<Rightarrow> nat \<Rightarrow> stone \<Rightarrow> bool" where
  "stone_inv N M i s \<longleftrightarrow>
     length (klist s) = N \<and> st_k s \<le> i \<and>
     (\<forall>l. l \<le> st_k s \<longrightarrow> stands_for M i (clist s) (klist s ! l) l \<and> (\<forall>y. reach M i l y \<longrightarrow> best_y s l \<le> y)) \<and>
     (\<forall>y. \<not> reach M i (Suc (st_k s)) y)"

lemma stone_invD:
  assumes "stone_inv N M i s"
  shows "length (klist s) = N" "st_k s \<le> i"
    "l \<le> st_k s \<Longrightarrow> stands_for M i (clist s) (klist s ! l) l"
    "l \<le> st_k s \<Longrightarrow> reach M i l y \<Longrightarrow> best_y s l \<le> y"
    "\<not> reach M i (Suc (st_k s)) y"
  using assms by (auto simp: stone_inv_def)

lemma best_reach: "stone_inv N M i s \<Longrightarrow> l \<le> st_k s \<Longrightarrow> reach M i l (best_y s l)"
  by (rule stands_for_reach) (rule stone_invD)

lemma best_less:
  assumes "stone_inv N M i s" and "l < l'" and "l' \<le> st_k s"
  shows "best_y s l < best_y s l'"
proof -
  have "reach M i (Suc l) (best_y s l')"
    using reach_shorter [OF best_reach [OF assms(1,3)]] assms(2) by simp
  from reach_less [OF this] have "0 < best_y s l'" "reach M i l (best_y s l' - 1)" by simp_all
  moreover from this(2) have "best_y s l \<le> best_y s l' - 1"
    using assms by (intro stone_invD(4) [OF assms(1)]) simp_all
  ultimately show ?thesis by simp
qed

lemma best_iff: "stone_inv N M i s \<Longrightarrow> l \<le> st_k s \<Longrightarrow> reach M i l y \<longleftrightarrow> best_y s l \<le> y"
  using best_reach stone_invD(4) reach_mono by blast

lemma best_0: "stone_inv N M i s \<Longrightarrow> best_y s 0 = 0"
  using stone_invD(4) [of N M i s 0 0] by simp

section \<open>Searching the candidates\<close>

lemma search_loop_correct:
  "i < j \<Longrightarrow> best_y s i < y \<Longrightarrow> (j \<le> k \<Longrightarrow> y < best_y s j) \<Longrightarrow> j \<le> Suc k \<Longrightarrow>
     (\<And>a b. a < b \<Longrightarrow> b \<le> k \<Longrightarrow> best_y s a < best_y s b) \<Longrightarrow>
     i < search_loop s y i j \<and> search_loop s y i j \<le> j \<and> best_y s (search_loop s y i j - 1) < y \<and>
       (search_loop s y i j \<le> k \<longrightarrow> y \<le> best_y s (search_loop s y i j))"
proof (induction s y i j rule: search_loop.induct)
  case (1 s y i j)
  define l where "l = (i + j) div 2"
  show ?case
  proof (cases "l \<le> i")
    case True
    then have "j = i + 1" using "1.prems"(1) by (simp add: l_def)
    moreover have "search_loop s y i j = l + 1" using True by (subst search_loop.simps) (simp add: l_def Let_def)
    moreover have "l = i" using True "1.prems"(1) by (simp add: l_def)
    ultimately show ?thesis using "1.prems" by auto
  next
    case False
    then have l: "i < l" "l < j" using "1.prems"(1) by (auto simp: l_def)
    consider (gt) "y < best_y s l" | (lt) "best_y s l < y" | (eq) "best_y s l = y" by linarith
    then show ?thesis
    proof cases
      case gt
      then have "search_loop s y i j = search_loop s y i l"
        using False by (subst search_loop.simps) (simp add: l_def Let_def)
      moreover have "i < search_loop s y i l \<and> search_loop s y i l \<le> l \<and> best_y s (search_loop s y i l - 1) < y \<and>
         (search_loop s y i l \<le> k \<longrightarrow> y \<le> best_y s (search_loop s y i l))"
        using "1.IH"(1) [OF l_def] False gt l "1.prems" by simp
      ultimately show ?thesis using l by simp
    next
      case lt
      then have "search_loop s y i j = search_loop s y l j"
        using False by (subst search_loop.simps) (simp add: l_def Let_def)
      moreover have "l < search_loop s y l j \<and> search_loop s y l j \<le> j \<and> best_y s (search_loop s y l j - 1) < y \<and>
         (search_loop s y l j \<le> k \<longrightarrow> y \<le> best_y s (search_loop s y l j))"
        using "1.IH"(2) [OF l_def] False lt l "1.prems" by simp
      ultimately show ?thesis using l by simp
    next
      case eq
      then have "search_loop s y i j = l"
        using False by (subst search_loop.simps) (simp add: l_def Let_def)
      moreover have "best_y s (l - 1) < best_y s l" using "1.prems"(4,5) l by simp
      ultimately show ?thesis using l eq by simp
    qed
  qed
qed

lemma search_klist_correct:
  assumes inv: "stone_inv N M i s" and y: "0 < y" and l: "l = search_klist s y"
  shows "0 < l" "l \<le> Suc (st_k s)" "best_y s (l - 1) < y" "l \<le> st_k s \<Longrightarrow> y \<le> best_y s l"
proof -
  have "0 < l \<and> l \<le> Suc (st_k s) \<and> best_y s (l - 1) < y \<and> (l \<le> st_k s \<longrightarrow> y \<le> best_y s l)"
  proof (cases "best_y s (st_k s) < y")
    case True
    then show ?thesis by (simp add: l search_klist_def)
  next
    case False
    have "l = search_loop s y 0 (st_k s + 1)" using False by (simp add: l search_klist_def)
    with search_loop_correct [of 0 "st_k s + 1" s y "st_k s"] best_0 [OF inv] best_less [OF inv] y
    show ?thesis by simp
  qed
  then show "0 < l" "l \<le> Suc (st_k s)" "best_y s (l - 1) < y" "l \<le> st_k s \<Longrightarrow> y \<le> best_y s l" by simp_all
qed

section \<open>A line of the old file\<close>

lemma reach_row:
  "reach (M(Suc i := Y @ [y])) (Suc i) l v \<longleftrightarrow>
     reach (M(Suc i := Y)) (Suc i) l v \<or> (\<exists>k. l = Suc k \<and> 0 < y \<and> y \<le> v \<and> reach M i k (y - 1))"
proof -
  have "reach (M(Suc i := Z)) i k u = reach M i k u" for Z k u by (rule reach_cong) simp
  then show ?thesis unfolding reach.simps(2) by auto
qed

lemma row_empty: "stone_inv N M i s \<Longrightarrow> stone_inv N (M(Suc i := [])) (Suc i) s"
proof -
  assume inv: "stone_inv N M i s"
  have r: "reach (M(Suc i := [])) (Suc i) l v = reach M i l v" for l v
    using reach_cong [of i "M(Suc i := [])" M] by (simp add: reach.simps(2))
  have "stands_for (M(Suc i := [])) (Suc i) (clist s) (klist s ! l) l" if "l \<le> st_k s" for l
    by (rule stands_for_mono [OF stone_invD(3) [OF inv that]]) auto
  with inv show ?thesis by (simp add: stone_inv_def r)
qed

lemma row_skip:
  assumes inv: "stone_inv N (M(Suc i := Y)) (Suc i) s"
    and no: "\<And>l. l < st_k s \<Longrightarrow> reach M i l (y - 1) \<Longrightarrow> best_y s (Suc l) \<le> y" "\<not> reach M i (st_k s) (y - 1)"
  shows "stone_inv N (M(Suc i := Y @ [y])) (Suc i) s"
  unfolding stone_inv_def
proof (intro conjI allI impI)
  note d = stone_invD [OF inv]
  show "length (klist s) = N" "st_k s \<le> Suc i" by (rule d)+
  show "\<not> reach (M(Suc i := Y @ [y])) (Suc i) (Suc (st_k s)) v" for v
    using d(5) no(2) by (simp add: reach_row)
  fix l assume l: "l \<le> st_k s"
  show "stands_for (M(Suc i := Y @ [y])) (Suc i) (clist s) (klist s ! l) l"
    by (rule stands_for_mono [OF d(3) [OF l]]) auto
  fix v assume "reach (M(Suc i := Y @ [y])) (Suc i) l v"
  then consider "reach (M(Suc i := Y)) (Suc i) l v" | k where "l = Suc k" "y \<le> v" "reach M i k (y - 1)"
    unfolding reach_row by blast
  then show "best_y s l \<le> v"
  proof cases
    case 1
    then show ?thesis by (rule d(4) [OF l])
  next
    case (2 k)
    with no(1) [of k] l show ?thesis by simp
  qed
qed

lemma row_done:
  assumes "stone_inv N M i s0"
  shows "stone_inv N (M(Suc i := Y)) (Suc i) s \<Longrightarrow> st_k s = Suc (st_k s0) \<Longrightarrow>
     \<forall>y\<in>set rest. best_y s (st_k s) < y \<Longrightarrow> stone_inv N (M(Suc i := Y @ rest)) (Suc i) s"
proof (induction rest rule: rev_induct)
  case (snoc y rest)
  have inv: "stone_inv N (M(Suc i := Y @ rest)) (Suc i) s"
    using snoc.prems(3) by (intro snoc.IH [OF snoc.prems(1,2)]) simp
  have "best_y s l \<le> best_y s (st_k s)" if "l \<le> st_k s" for l
    using best_less [OF inv, of l "st_k s"] that by (cases "l = st_k s") auto
  with snoc.prems(3) have "l \<le> st_k s \<Longrightarrow> best_y s l \<le> y" for l by fastforce
  moreover have "\<not> reach M i (st_k s) (y - 1)" using stone_invD(5) [OF assms] snoc.prems(2) by simp
  ultimately have "stone_inv N (M(Suc i := (Y @ rest) @ [y])) (Suc i) s"
    by (intro row_skip [OF inv]) simp_all
  then show ?case by (simp only: append_assoc)
qed simp

lemma put_cand_sel [simp]:
  "clist (put_cand l x y p s) = clist s @ [\<lparr>cand_x = x, cand_y = y, cand_pred = p\<rparr>]"
  "klist (put_cand l x y p s) = (klist s)[l := length (clist s)]" "st_k (put_cand l x y p s) = st_k s"
  by (simp_all add: put_cand_def newcand_def)

lemma row_put:
  assumes inv: "stone_inv N (M(Suc i := Y)) (Suc i) s" and y: "0 < y"
    and l: "l \<le> st_k s" "l \<le> i" "Suc l < N"
    and p: "stands_for M i (clist s) p l" "cand_y (clist s ! p) < y"
    and new: "k' = max (st_k s) (Suc l)" "Suc l \<le> st_k s \<Longrightarrow> y < best_y s (Suc l)"
    and no: "\<And>l'. l' < st_k s \<Longrightarrow> l' \<noteq> l \<Longrightarrow> reach M i l' (y - 1) \<Longrightarrow> best_y s (Suc l') \<le> y"
      "\<not> reach M i k' (y - 1)"
  shows "stone_inv N (M(Suc i := Y @ [y])) (Suc i) ((put_cand (Suc l) (Suc i) y p s)\<lparr>st_k := k'\<rparr>)"
    (is "stone_inv N ?M _ ?s")
  unfolding stone_inv_def
proof (intro conjI allI impI)
  note d = stone_invD [OF inv]
  show "length (klist ?s) = N" using d(1) by simp
  show "st_k ?s \<le> Suc i" using d(2) l(2) by (simp add: new(1))
  have "\<not> reach (M(Suc i := Y)) (Suc i) (Suc k') v" for v
  proof
    assume "reach (M(Suc i := Y)) (Suc i) (Suc k') v"
    then have "reach (M(Suc i := Y)) (Suc i) (Suc (st_k s)) v" by (rule reach_shorter) (simp add: new(1))
    with d(5) show False by blast
  qed
  then show "\<not> reach ?M (Suc i) (Suc (st_k ?s)) v" for v
    using no(2) by (simp add: reach_row)
  fix l' assume l': "l' \<le> st_k ?s"
  have klist: "klist ?s ! l' = (if l' = Suc l then length (clist s) else klist s ! l')"
    using l(3) d(1) by (simp add: nth_list_update)
  have old: "stands_for (M(Suc i := Y)) (Suc i) (clist s) (klist s ! l') l'" if "l' \<noteq> Suc l"
    using l' that l(1) by (intro d(3)) (simp add: new(1))
  show "stands_for ?M (Suc i) (clist ?s) (klist ?s ! l') l'"
  proof (cases "l' = Suc l")
    case True
    have "stands_for ?M i (clist s) p l" by (rule stands_for_mono [OF p(1)]) auto
    from stands_for_new [OF this p(2)] show ?thesis using True klist by simp
  next
    case False
    have "stands_for ?M (Suc i) (clist s) (klist s ! l') l'" by (rule stands_for_mono [OF old [OF False]]) auto
    from stands_for_append [OF this] show ?thesis using False klist by simp
  qed
  fix v assume "reach ?M (Suc i) l' v"
  then consider "reach (M(Suc i := Y)) (Suc i) l' v" | k where "l' = Suc k" "y \<le> v" "reach M i k (y - 1)"
    unfolding reach_row by blast
  note reached = this
  show "best_y ?s l' \<le> v"
  proof (cases "l' = Suc l")
    case True
    have "y \<le> v"
    proof (cases rule: reached)
      case 1
      show ?thesis
      proof (cases "Suc l \<le> st_k s")
        case le: True
        with 1 True have "best_y s (Suc l) \<le> v" using d(4) by simp
        with new(2) [OF le] show ?thesis by simp
      next
        case False
        with l(1) have "Suc l = Suc (st_k s)" by simp
        with 1 True d(5) show ?thesis by simp
      qed
    qed
    with True klist show ?thesis by (simp add: nth_append)
  next
    case False
    then have le: "l' \<le> st_k s" using l' l(1) by (simp add: new(1))
    have "best_y s l' \<le> v"
    proof (cases rule: reached)
      case 1
      then show ?thesis by (rule d(4) [OF le])
    next
      case (2 k)
      with no(1) [of k] le False show ?thesis by simp
    qed
    with False klist stands_for_less [OF old [OF False]] show ?thesis by (simp add: nth_append)
  qed
qed

text \<open>
  Within a line: \<open>oldl\<close> is the last length that was replaced, \<open>oldc\<close> a candidate of the line
  before, of that length or one that is passed already.
\<close>

definition row_inv :: "nat \<Rightarrow> (nat \<Rightarrow> nat list) \<Rightarrow> nat \<Rightarrow> stone \<Rightarrow> nat list \<Rightarrow> nat \<Rightarrow> nat \<Rightarrow> nat \<Rightarrow> stone \<Rightarrow> bool" where
  "row_inv N M i s0 Y y oldl oldc s \<longleftrightarrow>
     stone_inv N (M(Suc i := Y)) (Suc i) s \<and> st_k s = st_k s0 \<and> (\<exists>cl. clist s = clist s0 @ cl) \<and>
     (\<forall>l. oldl < l \<and> l \<le> st_k s \<longrightarrow> klist s ! l = klist s0 ! l) \<and> oldl \<le> st_k s \<and> best_y s oldl < y \<and>
     (\<exists>q. oldl \<le> q \<and> q \<le> st_k s \<and> oldc = klist s0 ! q \<and>
        (oldl < q \<longrightarrow> q < st_k s \<and> best_y s0 (Suc q) < y))"

lemma row_invD:
  assumes "row_inv N M i s0 Y y oldl oldc s"
  shows "stone_inv N (M(Suc i := Y)) (Suc i) s" "st_k s = st_k s0" "\<exists>cl. clist s = clist s0 @ cl"
    "oldl < l \<Longrightarrow> l \<le> st_k s \<Longrightarrow> klist s ! l = klist s0 ! l" "oldl \<le> st_k s" "best_y s oldl < y"
    "\<exists>q. oldl \<le> q \<and> q \<le> st_k s \<and> oldc = klist s0 ! q \<and>
       (oldl < q \<longrightarrow> q < st_k s \<and> best_y s0 (Suc q) < y)"
  using assms unfolding row_inv_def by blast+

lemma row_inv_later: "row_inv N M i s0 Y y oldl oldc s \<Longrightarrow> y < y' \<Longrightarrow> row_inv N M i s0 Y y' oldl oldc s"
  unfolding row_inv_def by (elim conjE exE, intro conjI) (auto intro: less_trans)

text \<open>The best candidates of the line before.\<close>

lemma row_old:
  assumes inv0: "stone_inv N M i s0" and r: "row_inv N M i s0 Y y oldl oldc s" and q: "q \<le> st_k s"
  shows "clist s ! (klist s0 ! q) = clist s0 ! (klist s0 ! q)" "stands_for M i (clist s) (klist s0 ! q) q"
    "oldl < q \<Longrightarrow> best_y s q = best_y s0 q"
proof -
  obtain cl where cl: "clist s = clist s0 @ cl" using row_invD(3) [OF r] by blast
  have s: "stands_for M i (clist s0) (klist s0 ! q) q"
    using q row_invD(2) [OF r] by (intro stone_invD(3) [OF inv0]) simp
  show e: "clist s ! (klist s0 ! q) = clist s0 ! (klist s0 ! q)"
    using stands_for_less [OF s] by (simp add: cl nth_append)
  show "stands_for M i (clist s) (klist s0 ! q) q" unfolding cl by (rule stands_for_append [OF s])
  show "oldl < q \<Longrightarrow> best_y s q = best_y s0 q" using row_invD(4) [OF r] q e by simp
qed

lemma row_best:
  assumes inv0: "stone_inv N M i s0" and r: "row_inv N M i s0 Y y oldl oldc s" and l: "l \<le> st_k s"
  shows "reach M i l (v - 1) \<longleftrightarrow> best_y s0 l \<le> v - 1"
  using best_iff [OF inv0] l row_invD(2) [OF r] by simp

text \<open>Where \<open>y\<close> is placed, and the candidate before it.\<close>

lemma row_place:
  assumes inv0: "stone_inv N M i s0" and r: "row_inv N M i s0 Y y oldl oldc s"
    and l: "Suc l = search_klist s y" and y: "\<not> y \<le> cand_y (clist s ! oldc)"
    and p: "p = (if Suc l \<noteq> oldl + 1 then klist s ! l else oldc)"
    and new: "Suc l \<le> st_k s \<Longrightarrow> best_y s (Suc l) \<noteq> y"
  shows "l \<le> st_k s" "stands_for M i (clist s) p l" "cand_y (clist s ! p) < y"
    "Suc l \<le> st_k s \<Longrightarrow> y < best_y s (Suc l)" "oldl \<le> l"
proof -
  note d = row_invD [OF r]
  note f = search_klist_correct [OF d(1) _ l]
  have y0: "0 < y" using d(6) by simp
  show lk: "l \<le> st_k s" using f(2) [OF y0] by simp
  show "Suc l \<le> st_k s \<Longrightarrow> y < best_y s (Suc l)" using f(4) [OF y0] new by fastforce
  have up: "y \<le> best_y s (Suc l)" if "Suc l \<le> st_k s" by (rule f(4) [OF y0 that])
  show ol: "oldl \<le> l"
  proof (rule ccontr)
    assume "\<not> oldl \<le> l"
    then have "Suc l \<le> oldl" by simp
    then have "best_y s (Suc l) \<le> best_y s oldl"
      using best_less [OF d(1), of "Suc l" oldl] d(5) by (cases "Suc l = oldl") auto
    with up d(5,6) \<open>Suc l \<le> oldl\<close> show False by simp
  qed
  have "stands_for M i (clist s) p l \<and> cand_y (clist s ! p) < y"
  proof (cases "l = oldl")
    case True
    obtain q where q: "oldl \<le> q" "q \<le> st_k s" "oldc = klist s0 ! q"
      "oldl < q \<longrightarrow> q < st_k s \<and> best_y s0 (Suc q) < y" using d(7) by blast
    have "q = oldl"
    proof (rule ccontr)
      assume "q \<noteq> oldl"
      then have lt: "oldl < q" "q < st_k s" "best_y s0 (Suc q) < y" using q by simp_all
      then have "best_y s (Suc q) < y" using row_old(3) [OF inv0 r, of "Suc q"] by simp
      moreover have "best_y s (Suc l) < best_y s (Suc q)"
        using lt True by (intro best_less [OF d(1)]) simp_all
      ultimately show False using up lt True by simp
    qed
    with True q p y row_old(2) [OF inv0 r, of q] show ?thesis by simp
  next
    case False
    then have "oldl < l" using ol by simp
    then show ?thesis
      using False p d(4) [of l] lk row_old(2) [OF inv0 r, of l] f(3) [OF y0] by simp
  qed
  then show "stands_for M i (clist s) p l" "cand_y (clist s ! p) < y" by simp_all
qed

lemma row_pass:
  assumes inv0: "stone_inv N M i s0" and r: "row_inv N M i s0 Y y oldl oldc s"
    and y: "y \<le> cand_y (clist s ! oldc)"
  shows "stone_inv N (M(Suc i := Y @ [y])) (Suc i) s"
proof -
  note d = row_invD [OF r]
  obtain q where q: "oldl \<le> q" "q \<le> st_k s" "oldc = klist s0 ! q"
    "oldl < q \<longrightarrow> q < st_k s \<and> best_y s0 (Suc q) < y" using d(7) by blast
  have yq: "y \<le> best_y s0 q" using y row_old(1) [OF inv0 r q(2)] q(3) by simp
  have "q = oldl"
  proof (rule ccontr)
    assume "q \<noteq> oldl"
    then have "q < st_k s" "best_y s0 (Suc q) < y" using q by simp_all
    moreover from this have "best_y s0 q < best_y s0 (Suc q)" using d(2) by (intro best_less [OF inv0]) simp_all
    ultimately show False using yq by simp
  qed
  then have low: "best_y s0 l \<ge> y" if "oldl \<le> l" "l \<le> st_k s" for l
    using yq best_less [OF inv0, of oldl l] that d(2) by (cases "l = oldl") auto
  show ?thesis
  proof (rule row_skip [OF d(1)])
    show "\<not> reach M i (st_k s) (y - 1)" using low [of "st_k s"] d(5,6) row_best [OF inv0 r, of "st_k s" y] by simp
    fix l assume l: "l < st_k s" "reach M i l (y - 1)"
    then have "best_y s0 l < y" using row_best [OF inv0 r, of l y] d(6) by simp
    then have "Suc l \<le> oldl" using low [of l] l(1) by (metis Suc_leI leD less_imp_le_nat not_le_imp_less)
    then have "best_y s (Suc l) \<le> best_y s oldl"
      using best_less [OF d(1), of "Suc l" oldl] d(5) by (cases "Suc l = oldl") auto
    with d(6) show "best_y s (Suc l) \<le> y" by simp
  qed
qed

lemma row_same:
  assumes inv0: "stone_inv N M i s0" and r: "row_inv N M i s0 Y y oldl oldc s"
    and l: "Suc l \<le> st_k s" "best_y s (Suc l) = y" and y: "y < y'"
  shows "row_inv N M i s0 (Y @ [y]) y' oldl (if Suc l \<noteq> oldl + 1 then klist s ! l else oldc) s"
    "stone_inv N (M(Suc i := Y @ [y])) (Suc i) s"
proof -
  note d = row_invD [OF r]
  have ol: "oldl < Suc l"
  proof (rule ccontr)
    assume "\<not> oldl < Suc l"
    then have "best_y s (Suc l) \<le> best_y s oldl"
      using best_less [OF d(1), of "Suc l" oldl] d(5) by (cases "Suc l = oldl") auto
    with d(6) l(2) show False by simp
  qed
  have high: "best_y s0 l' \<ge> y" if "Suc l \<le> l'" "l' \<le> st_k s" for l'
  proof -
    have "best_y s (Suc l) \<le> best_y s l'"
      using best_less [OF d(1), of "Suc l" l'] that by (cases "Suc l = l'") auto
    with row_old(3) [OF inv0 r that(2)] ol that l(2) show ?thesis by simp
  qed
  show s: "stone_inv N (M(Suc i := Y @ [y])) (Suc i) s"
  proof (rule row_skip [OF d(1)])
    show "\<not> reach M i (st_k s) (y - 1)" using high [of "st_k s"] l d(6) row_best [OF inv0 r, of "st_k s" y] by simp
    fix l' assume l': "l' < st_k s" "reach M i l' (y - 1)"
    then have "best_y s0 l' < y" using row_best [OF inv0 r, of l' y] d(6) by simp
    then have "Suc l' \<le> Suc l" using high [of l'] l' by (meson leD less_imp_le_nat not_less_eq_eq)
    then have "best_y s (Suc l') \<le> best_y s (Suc l)"
      using best_less [OF d(1), of "Suc l'" "Suc l"] l(1) by (cases "l' = l") auto
    with l(2) show "best_y s (Suc l') \<le> y" by simp
  qed
  obtain q where q: "oldl \<le> q" "q \<le> st_k s" "oldc = klist s0 ! q"
    "oldl < q \<longrightarrow> q < st_k s \<and> best_y s0 (Suc q) < y" using d(7) by blast
  have "\<exists>q. oldl \<le> q \<and> q \<le> st_k s \<and> (if Suc l \<noteq> oldl + 1 then klist s ! l else oldc) = klist s0 ! q \<and>
     (oldl < q \<longrightarrow> q < st_k s \<and> best_y s0 (Suc q) < y')"
  proof (cases "Suc l = oldl + 1")
    case True
    with q y show ?thesis by (intro exI [of _ q]) auto
  next
    case False
    with ol l d(4) [of l] row_old(3) [OF inv0 r l(1)] y show ?thesis by (intro exI [of _ l]) auto
  qed
  with s d y show "row_inv N M i s0 (Y @ [y]) y' oldl (if Suc l \<noteq> oldl + 1 then klist s ! l else oldc) s"
    unfolding row_inv_def by (intro conjI) (auto intro: less_trans)
qed

lemma row_new:
  assumes inv0: "stone_inv N M i s0" and r: "row_inv N M i s0 Y y oldl oldc s" and N: "Suc i < N"
    and l: "l \<le> st_k s" "oldl \<le> l" and p: "stands_for M i (clist s) p l" "cand_y (clist s ! p) < y"
    and b: "best_y s l < y" and new: "Suc l \<le> st_k s \<Longrightarrow> y < best_y s (Suc l)"
  shows "stone_inv N (M(Suc i := Y @ [y])) (Suc i)
      ((put_cand (Suc l) (Suc i) y p s)\<lparr>st_k := max (st_k s) (Suc l)\<rparr>)"
    "Suc l \<le> st_k s \<Longrightarrow> y < y' \<Longrightarrow>
       row_inv N M i s0 (Y @ [y]) y' (Suc l) (klist s ! Suc l) (put_cand (Suc l) (Suc i) y p s)"
proof -
  note d = row_invD [OF r]
  have li: "l \<le> i" using l(1) d(2) stone_invD(2) [OF inv0] by simp
  have high: "best_y s0 l' > y" if "Suc l \<le> l'" "l' \<le> st_k s" for l'
  proof -
    have "best_y s (Suc l) \<le> best_y s l'"
      using best_less [OF d(1), of "Suc l" l'] that by (cases "Suc l = l'") auto
    with row_old(3) [OF inv0 r that(2)] l(2) that new show ?thesis by simp
  qed
  show st: "stone_inv N (M(Suc i := Y @ [y])) (Suc i)
      ((put_cand (Suc l) (Suc i) y p s)\<lparr>st_k := max (st_k s) (Suc l)\<rparr>)"
  proof (rule row_put [OF d(1) _ l(1) li _ p refl new])
    show "0 < y" using d(6) by simp
    show "Suc l < N" using li N by simp
    show "\<not> reach M i (max (st_k s) (Suc l)) (y - 1)"
    proof (cases "Suc l \<le> st_k s")
      case True
      with high [of "st_k s"] row_best [OF inv0 r, of "st_k s" y] show ?thesis by (simp add: max_def)
    next
      case False
      then have "max (st_k s) (Suc l) = Suc (st_k s0)" using l(1) d(2) by simp
      with stone_invD(5) [OF inv0] show ?thesis by simp
    qed
    fix l' assume l': "l' < st_k s" "l' \<noteq> l" "reach M i l' (y - 1)"
    then have "best_y s0 l' < y" using row_best [OF inv0 r, of l' y] d(6) by simp
    then have "Suc l' \<le> l" using high [of l'] l' by (metis Suc_leI leD less_imp_le_nat nat_neq_iff)
    then have "best_y s (Suc l') \<le> best_y s l"
      using best_less [OF d(1), of "Suc l'" l] l(1) by (cases "Suc l' = l") auto
    with b show "best_y s (Suc l') \<le> y" by simp
  qed
  assume lk: "Suc l \<le> st_k s" and y': "y < y'"
  let ?s = "put_cand (Suc l) (Suc i) y p s"
  have len: "Suc l < length (klist s)" using stone_invD(1) [OF d(1)] li N by simp
  have "?s\<lparr>st_k := max (st_k s) (Suc l)\<rparr> = ?s" using lk by (simp add: put_cand_def newcand_def max_def)
  with st have "stone_inv N (M(Suc i := Y @ [y])) (Suc i) ?s" by simp
  moreover have "klist s ! Suc l = klist s0 ! Suc l" using d(4) l(2) lk by simp
  ultimately show "row_inv N M i s0 (Y @ [y]) y' (Suc l) (klist s ! Suc l) ?s"
    using d(2,3,4) l(2) lk y' len unfolding row_inv_def
    by (intro conjI exI [of _ "Suc l"]) (auto simp: nth_list_update nth_append)
qed

text \<open>The members of a class from an index of \<open>member\<close> on.\<close>

definition members :: "int list \<Rightarrow> nat \<Rightarrow> nat list" where
  "members b j = map nat (takeWhile (\<lambda>x. 0 < x) (drop j b))"

lemma members_step:
  "j < length b \<and> b ! j > 0 \<Longrightarrow> members b j = nat (b ! j) # members b (j + 1)"
  "\<not> (j < length b \<and> b ! j > 0) \<Longrightarrow> members b j = []"
  by (cases "j < length b"; simp add: members_def Cons_nth_drop_Suc [symmetric])+

abbreviation (input) class_goes :: "nat \<Rightarrow> int list \<Rightarrow> nat \<Rightarrow> nat \<Rightarrow> bool" where
  "class_goes bound b j nt \<equiv> j + 1 < length b \<and> b ! (j + 1) > 0 \<and> nt < bound"

lemma row_inv_keep:
  assumes "row_inv N M i s0 Y y oldl oldc s" and "stone_inv N (M(Suc i := Y @ [y])) (Suc i) s" and "y < y'"
  shows "row_inv N M i s0 (Y @ [y]) y' oldl oldc s"
  using row_inv_later [OF assms(1,3)] assms(2) unfolding row_inv_def by blast

lemma stone_class_step:
  assumes inv0: "stone_inv N M i s0" and N: "Suc i < N" and r: "row_inv N M i s0 Y y oldl oldc s"
  obtains (go) oldl' oldc' nt' s' where
      "stone_class bound b (Suc i) j y oldl oldc nt s =
         (if class_goes bound b j nt'
          then stone_class bound b (Suc i) (j + 1) (nat (b ! (j + 1))) oldl' oldc' nt' s' else s')"
      "nt' \<le> nt + 1" "stone_inv N (M(Suc i := Y @ [y])) (Suc i) s'"
      "\<And>y'. y < y' \<Longrightarrow> row_inv N M i s0 (Y @ [y]) y' oldl' oldc' s'"
  | (extend) s' where "stone_class bound b (Suc i) j y oldl oldc nt s = s'"
      "stone_inv N (M(Suc i := Y @ [y])) (Suc i) s'" "st_k s' = Suc (st_k s0)" "best_y s' (st_k s') = y"
proof -
  note d = row_invD [OF r]
  have y0: "0 < y" using d(6) by simp
  show thesis
  proof (cases "y \<le> cand_y (clist s ! oldc)")
    case True
    show thesis
    proof (rule go)
      show "stone_class bound b (Suc i) j y oldl oldc nt s =
         (if class_goes bound b j nt
          then stone_class bound b (Suc i) (j + 1) (nat (b ! (j + 1))) oldl oldc nt s else s)"
        using True by (subst stone_class.simps) (simp add: Let_def)
      show st: "stone_inv N (M(Suc i := Y @ [y])) (Suc i) s" by (rule row_pass [OF inv0 r True])
      show "row_inv N M i s0 (Y @ [y]) y' oldl oldc s" if "y < y'" for y' by (rule row_inv_keep [OF r st that])
    qed simp
  next
    case False
    obtain l where l: "Suc l = search_klist s y"
      using search_klist_correct(1) [OF d(1) y0 refl] by (cases "search_klist s y") auto
    define p where "p = (if Suc l \<noteq> oldl + 1 then klist s ! l else oldc)"
    show thesis
    proof (cases "Suc l \<le> st_k s \<and> best_y s (Suc l) \<le> y")
      case True
      have "best_y s (Suc l) = y"
        using True search_klist_correct(4) [OF d(1) y0 l] by simp
      note same = row_same [OF inv0 r _ this, folded p_def]
      show thesis
      proof (rule go)
        show "stone_class bound b (Suc i) j y oldl oldc nt s =
           (if class_goes bound b j nt
            then stone_class bound b (Suc i) (j + 1) (nat (b ! (j + 1))) oldl p nt s else s)"
          using True False by (subst stone_class.simps) (simp add: Let_def l [symmetric] p_def)
        show "stone_inv N (M(Suc i := Y @ [y])) (Suc i) s" using same(2) True by blast
        show "row_inv N M i s0 (Y @ [y]) y' oldl p s" if "y < y'" for y' using same(1) True that by blast
      qed simp
    next
      case new: False
      have ne: "Suc l \<le> st_k s \<Longrightarrow> best_y s (Suc l) \<noteq> y" using new by auto
      have place: "l \<le> st_k s" "stands_for M i (clist s) p l" "cand_y (clist s ! p) < y"
        "Suc l \<le> st_k s \<longrightarrow> y < best_y s (Suc l)" "oldl \<le> l"
        using row_place [OF inv0 r l False p_def] ne by blast+
      have b: "best_y s l < y" using search_klist_correct(3) [OF d(1) y0 l] by simp
      note put = row_new [OF inv0 r N place(1,5,2,3) b place(4) [rule_format]]
      let ?s = "put_cand (Suc l) (Suc i) y p s"
      show thesis
      proof (cases "Suc l \<le> st_k s")
        case True
        show thesis
        proof (rule go)
          show "stone_class bound b (Suc i) j y oldl oldc nt s =
             (if class_goes bound b j (nt + 1)
              then stone_class bound b (Suc i) (j + 1) (nat (b ! (j + 1))) (Suc l) (klist s ! Suc l) (nt + 1) ?s
              else ?s)"
            using True False new by (subst stone_class.simps) (simp add: Let_def l [symmetric] p_def)
          have "?s\<lparr>st_k := max (st_k s) (Suc l)\<rparr> = ?s" using True by (simp add: put_cand_def newcand_def max_def)
          with put(1) show "stone_inv N (M(Suc i := Y @ [y])) (Suc i) ?s" by simp
          show "row_inv N M i s0 (Y @ [y]) y' (Suc l) (klist s ! Suc l) ?s" if "y < y'" for y'
            by (rule put(2)) (use True that in simp_all)
        qed simp
      next
        case False': False
        have k: "st_k s = l" using False' place(1) by simp
        have len: "Suc l < length (klist s)"
          using stone_invD(1) [OF d(1)] stone_invD(2) [OF inv0] d(2) k N by simp
        show thesis
        proof (rule extend)
          show "stone_class bound b (Suc i) j y oldl oldc nt s = ?s\<lparr>st_k := max (st_k s) (Suc l)\<rparr>"
            using False' False k by (subst stone_class.simps) (simp add: Let_def l [symmetric] p_def)
        qed (use put(1) k d(2) len in simp_all)
      qed
    qed
  qed
qed

lemma stone_class_correct:
  assumes inv0: "stone_inv N M i s0" and N: "Suc i < N"
  shows "members b (j + 1) = rest \<Longrightarrow> row_inv N M i s0 Y y oldl oldc s \<Longrightarrow> sorted_wrt (<) (y # rest) \<Longrightarrow>
    \<exists>Z. prefix Z (y # rest) \<and>
      stone_inv N (M(Suc i := Y @ Z)) (Suc i) (stone_class bound b (Suc i) j y oldl oldc nt s) \<and>
      (nt + length rest < bound \<longrightarrow> Z = y # rest)"
proof (induction rest arbitrary: j Y y oldl oldc nt s)
  case Nil
  then have stop: "class_goes bound b j nt' = False" for nt' using members_step(1) [of "j + 1" b] by auto
  from inv0 N Nil(2) show ?case
  proof (cases rule: stone_class_step [where bound = bound and b = b and j = j and nt = nt])
    case (go oldl' oldc' nt' s')
    have "stone_class bound b (Suc i) j y oldl oldc nt s = s'" using go(1) by (simp only: stop if_False)
    with go(3) show ?thesis by (intro exI [of _ "[y]"]) (simp del: fun_upd_apply)
  next
    case extend
    then show ?thesis by (intro exI [of _ "[y]"]) (simp del: fun_upd_apply)
  qed
next
  case (Cons z rest)
  have m: "j + 1 < length b \<and> b ! (j + 1) > 0"
    using Cons.prems(1) members_step(2) [of "j + 1" b] by fastforce
  then have z: "nat (b ! (j + 1)) = z" "members b (j + 1 + 1) = rest"
    using Cons.prems(1) members_step(1) [of "j + 1" b] by simp_all
  have yz: "y < z" "sorted_wrt (<) (z # rest)" using Cons.prems(3) by simp_all
  from inv0 N Cons.prems(2) show ?case
  proof (cases rule: stone_class_step [where bound = bound and b = b and j = j and nt = nt])
    case (go oldl' oldc' nt' s')
    show ?thesis
    proof (cases "nt' < bound")
      case True
      obtain Z where Z: "prefix Z (z # rest)"
        "stone_inv N (M(Suc i := (Y @ [y]) @ Z)) (Suc i) (stone_class bound b (Suc i) (j + 1) z oldl' oldc' nt' s')"
        "nt' + length rest < bound \<longrightarrow> Z = z # rest"
        using Cons.IH [OF z(2) go(4) [OF yz(1)] yz(2), of nt'] by blast
      have "stone_inv N (M(Suc i := Y @ y # Z)) (Suc i) (stone_class bound b (Suc i) j y oldl oldc nt s)"
        using Z(2) go(1) m True z(1) by (simp del: fun_upd_apply)
      with Z(1,3) go(2) show ?thesis by (intro exI [of _ "y # Z"]) (auto simp del: fun_upd_apply)
    next
      case False
      with go m show ?thesis by (intro exI [of _ "[y]"]) (auto simp del: fun_upd_apply)
    qed
  next
    case (extend s')
    have "stone_inv N (M(Suc i := (Y @ [y]) @ z # rest)) (Suc i) s'"
      using yz extend(4) by (intro row_done [OF inv0 extend(2,3)]) auto
    with extend(1) show ?thesis by (intro exI [of _ "y # z # rest"]) (simp del: fun_upd_apply)
  qed
qed

section \<open>All lines\<close>

definition matches :: "int list \<Rightarrow> int list \<Rightarrow> nat \<Rightarrow> nat list" where
  "matches a b i = (if a ! i = 0 then [] else nat (- (b ! nat (a ! i))) # members b (nat (a ! i) + 1))"

lemma stone_line_correct:
  assumes inv: "stone_inv N M i s" and N: "Suc i < N" and m: "sorted_wrt (<) (0 # matches a b (Suc i))"
  shows "\<exists>Z. prefix Z (matches a b (Suc i)) \<and>
    stone_inv N (M(Suc i := Z)) (Suc i) (stone_line bound a b (Suc i) s) \<and>
    (length (matches a b (Suc i)) \<le> bound \<longrightarrow> Z = matches a b (Suc i))"
proof (cases "a ! Suc i = 0")
  case True
  with row_empty [OF inv] show ?thesis
    by (intro exI [of _ "[]"]) (simp add: stone_line_def matches_def del: fun_upd_apply)
next
  case False
  let ?j = "nat (a ! Suc i)"
  let ?y = "nat (- (b ! ?j))"
  have ms: "matches a b (Suc i) = ?y # members b (?j + 1)" using False by (simp add: matches_def)
  have "row_inv N M i s [] ?y 0 (klist s ! 0) s"
    using row_empty [OF inv] best_0 [OF inv] m ms by (auto simp: row_inv_def)
  moreover have "sorted_wrt (<) (?y # members b (?j + 1))" using m ms by simp
  ultimately have "\<exists>Z. prefix Z (?y # members b (?j + 1)) \<and>
      stone_inv N (M(Suc i := [] @ Z)) (Suc i) (stone_class bound b (Suc i) ?j ?y 0 (klist s ! 0) 0 s) \<and>
      (0 + length (members b (?j + 1)) < bound \<longrightarrow> Z = ?y # members b (?j + 1))"
    by (rule stone_class_correct [OF inv N refl])
  with False ms show ?thesis by (simp add: stone_line_def Let_def Suc_le_eq)
qed

theorem stone_correct:
  assumes "\<And>i. 0 < i \<Longrightarrow> i \<le> n \<Longrightarrow> sorted_wrt (<) (0 # matches a b i)"
  shows "\<exists>M. (\<forall>i. prefix (M i) (matches a b i)) \<and> stone_inv (n + 2) M n (stone fl a n b) \<and>
    (\<forall>i. 0 < i \<and> i \<le> n \<and> length (matches a b i) \<le> stone_bound fl n \<longrightarrow> M i = matches a b i)"
proof -
  let ?s = "put_cand 0 0 0 0 \<lparr>klist = replicate (n + 2) 0, st_k = 0, clist = []\<rparr>"
  let ?b = "stone_bound fl n"
  have "\<exists>M. (\<forall>i. prefix (M i) (matches a b i)) \<and>
      stone_inv (n + 2) M k (fold (stone_line ?b a b) [1..<k + 1] ?s) \<and>
      (\<forall>i. 0 < i \<and> i \<le> k \<and> length (matches a b i) \<le> ?b \<longrightarrow> M i = matches a b i)" if "k \<le> n" for k
    using that
  proof (induction k)
    case 0
    have "chain [\<lparr>cand_x = 0, cand_y = 0, cand_pred = 0\<rparr>] 0 []" by (rule chain_end) simp_all
    then show ?case
      by (intro exI [of _ "\<lambda>i. []"]) (auto simp: stone_inv_def stands_for_def put_cand_def newcand_def)
  next
    case (Suc k)
    then obtain M where M: "\<forall>i. prefix (M i) (matches a b i)"
      "stone_inv (n + 2) M k (fold (stone_line ?b a b) [1..<k + 1] ?s)"
      "\<forall>i. 0 < i \<and> i \<le> k \<and> length (matches a b i) \<le> ?b \<longrightarrow> M i = matches a b i" by auto
    obtain Z where Z: "prefix Z (matches a b (Suc k))"
      "stone_inv (n + 2) (M(Suc k := Z)) (Suc k)
         (stone_line ?b a b (Suc k) (fold (stone_line ?b a b) [1..<k + 1] ?s))"
      "length (matches a b (Suc k)) \<le> ?b \<longrightarrow> Z = matches a b (Suc k)"
      using stone_line_correct [OF M(2) _ assms [of "Suc k"], of ?b] Suc.prems by auto
    have "fold (stone_line ?b a b) [1..<Suc k + 1] ?s =
        stone_line ?b a b (Suc k) (fold (stone_line ?b a b) [1..<k + 1] ?s)"
      by simp
    moreover have "\<forall>i. prefix ((M(Suc k := Z)) i) (matches a b i)" using M(1) Z(1) by simp
    moreover have "\<forall>i. 0 < i \<and> i \<le> Suc k \<and> length (matches a b i) \<le> ?b \<longrightarrow> (M(Suc k := Z)) i = matches a b i"
      using M(3) Z(3) by (simp add: le_Suc_eq)
    ultimately show ?case using Z(2) by metis
  qed
  from this [of n] show ?thesis by (simp add: stone_def)
qed

end
