(* ===== verification/DiffSort.thy ===== *)
theory DiffSort
  imports DiffStone
begin

text \<open>
  The lines sorted and put into classes: for every line of the old file \<open>class\<close> and \<open>member\<close>
  list the lines of the new file with the same value, in order.
\<close>

section \<open>Shell's sort\<close>

text \<open>An array that holds the lines 1 to \<open>n\<close> with the values \<open>v\<close>, in any order.\<close>

definition holds_lines :: "nat \<Rightarrow> (nat \<Rightarrow> int) \<Rightarrow> dline list \<Rightarrow> bool" where
  "holds_lines n v a \<longleftrightarrow>
     n < length a \<and>
     (\<forall>i. 0 < i \<and> i \<le> n \<longrightarrow> 0 < d_serial (a ! i) \<and> d_serial (a ! i) \<le> n \<and> d_value (a ! i) = v (d_serial (a ! i))) \<and>
     (\<forall>y. 0 < y \<and> y \<le> n \<longrightarrow> (\<exists>i. 0 < i \<and> i \<le> n \<and> d_serial (a ! i) = y))"

lemma holds_linesD:
  assumes "holds_lines n v a"
  shows "n < length a"
    "0 < i \<Longrightarrow> i \<le> n \<Longrightarrow> 0 < d_serial (a ! i)" "0 < i \<Longrightarrow> i \<le> n \<Longrightarrow> d_serial (a ! i) \<le> n"
    "0 < i \<Longrightarrow> i \<le> n \<Longrightarrow> d_value (a ! i) = v (d_serial (a ! i))"
    "0 < y \<Longrightarrow> y \<le> n \<Longrightarrow> \<exists>i. 0 < i \<and> i \<le> n \<and> d_serial (a ! i) = y"
  using assms by (auto simp: holds_lines_def)

lemma holds_lines_cong:
  assumes h: "holds_lines n v a" and l: "length a' = length a" and e: "\<And>k. k \<le> n \<Longrightarrow> a' ! k = a ! k"
  shows "holds_lines n v a'"
proof -
  note d = holds_linesD [OF h]
  have "\<exists>i. 0 < i \<and> i \<le> n \<and> d_serial (a' ! i) = y" if y: "0 < y" "y \<le> n" for y
  proof -
    from d(5) [OF y] obtain i where "0 < i" "i \<le> n" "d_serial (a ! i) = y" by blast
    with e show ?thesis by (intro exI [of _ i]) simp
  qed
  with d(1-4) l e show ?thesis by (simp add: holds_lines_def)
qed

lemma holds_lines_inj:
  assumes h: "holds_lines n v a" and i: "0 < i" "i \<le> n" and j: "0 < j" "j \<le> n"
    and e: "d_serial (a ! i) = d_serial (a ! j)"
  shows "i = j"
proof -
  have "(\<lambda>i. d_serial (a ! i)) ` {1..n} = {1..n}"
  proof (intro equalityI subsetI)
    fix y assume "y \<in> (\<lambda>i. d_serial (a ! i)) ` {1..n}"
    then show "y \<in> {1..n}" using holds_linesD(2,3) [OF h] by (auto simp: Suc_le_eq)
  next
    fix y assume "y \<in> {1..n}"
    then obtain i where "0 < i" "i \<le> n" "d_serial (a ! i) = y" using holds_linesD(5) [OF h, of y] by auto
    then show "y \<in> (\<lambda>i. d_serial (a ! i)) ` {1..n}" by (intro image_eqI [of _ _ i]) auto
  qed
  then have "card ((\<lambda>i. d_serial (a ! i)) ` {1..n}) = card {1..n}" by (simp only:)
  then have "inj_on (\<lambda>i. d_serial (a ! i)) {1..n}" by (rule eq_card_imp_inj_on [OF finite_atLeastAtMost])
  from inj_onD [OF this e] i j show ?thesis by simp
qed

lemma swap_nth:
  "i < length a \<Longrightarrow> j < length a \<Longrightarrow>
     swap_lines i j a ! k = (if k = j then a ! i else if k = i then a ! j else a ! k)"
  by (simp add: swap_lines_def nth_list_update)

lemma swap_length [simp]: "length (swap_lines i j a) = length a"
  by (simp add: swap_lines_def)

lemma holds_lines_swap:
  assumes h: "holds_lines n v a" and i: "0 < i" "i \<le> n" and j: "0 < j" "j \<le> n"
  shows "holds_lines n v (swap_lines i j a)"
proof -
  note d = holds_linesD [OF h]
  have l: "i < length a" "j < length a" using i j d(1) by simp_all
  have "\<exists>k. 0 < k \<and> k \<le> n \<and> d_serial (swap_lines i j a ! k) = y" if "0 < y" "y \<le> n" for y
  proof -
    from d(5) [OF that] obtain k where k: "0 < k" "k \<le> n" "d_serial (a ! k) = y" by blast
    let ?k = "if k = i then j else if k = j then i else k"
    have "swap_lines i j a ! ?k = a ! k" using l by (simp add: swap_nth)
    with k i j show ?thesis by (intro exI [of _ ?k]) auto
  qed
  with d i j show ?thesis by (simp add: holds_lines_def swap_nth [OF l])
qed

text \<open>The order of the sort, by value and then by serial.\<close>

definition line_le :: "dline \<Rightarrow> dline \<Rightarrow> bool" where
  "line_le p q \<longleftrightarrow> d_value p < d_value q \<or> d_value p = d_value q \<and> d_serial p \<le> d_serial q"

lemma line_le_trans: "line_le p q \<Longrightarrow> line_le q r \<Longrightarrow> line_le p r"
  by (auto simp: line_le_def)

lemma line_le_linear: "line_le p q \<or> line_le q p"
  by (auto simp: line_le_def)

definition sorted_but :: "nat \<Rightarrow> nat \<Rightarrow> dline list \<Rightarrow> bool" where
  "sorted_but n h a \<longleftrightarrow> (\<forall>p q. 0 < p \<and> p < q \<and> q \<le> n \<and> q \<noteq> h \<longrightarrow> line_le (a ! p) (a ! q))"

lemma sorted_butD: "sorted_but n h a \<Longrightarrow> 0 < p \<Longrightarrow> p < q \<Longrightarrow> q \<le> n \<Longrightarrow> q \<noteq> h \<Longrightarrow> line_le (a ! p) (a ! q)"
  by (simp add: sorted_but_def)

lemma sift_holds:
  "holds_lines n v a \<Longrightarrow> ai + m \<le> n \<Longrightarrow> holds_lines n v (sift m ai a) \<and> length (sift m ai a) = length a"
proof (induction m ai a rule: sift.induct)
  case (1 m ai a)
  show ?case
  proof (cases "ai = 0 \<or> m = 0 \<or> d_value (a ! (ai + m)) > d_value (a ! ai) \<or>
      d_value (a ! (ai + m)) = d_value (a ! ai) \<and> d_serial (a ! (ai + m)) > d_serial (a ! ai)")
    case True
    with 1 show ?thesis by (subst (1 2) sift.simps) auto
  next
    case False
    then have "sift m ai a = sift m (ai - m) (swap_lines ai (ai + m) a)" by (subst sift.simps) auto
    moreover have "holds_lines n v (swap_lines ai (ai + m) a)"
      using False "1.prems" by (intro holds_lines_swap) auto
    ultimately show ?thesis using "1.IH" False "1.prems" by auto
  qed
qed

lemma sift_beyond: "n < p \<Longrightarrow> ai + m \<le> n \<Longrightarrow> n < length a \<Longrightarrow> sift m ai a ! p = a ! p"
proof (induction m ai a rule: sift.induct)
  case (1 m ai a)
  show ?case
  proof (cases "ai = 0 \<or> m = 0 \<or> d_value (a ! (ai + m)) > d_value (a ! ai) \<or>
      d_value (a ! (ai + m)) = d_value (a ! ai) \<and> d_serial (a ! (ai + m)) > d_serial (a ! ai)")
    case True
    then show ?thesis by (subst sift.simps) auto
  next
    case False
    then have "sift m ai a = sift m (ai - m) (swap_lines ai (ai + m) a)" by (subst sift.simps) auto
    moreover have "swap_lines ai (ai + m) a ! p = a ! p" using "1.prems" by (simp add: swap_nth)
    ultimately show ?thesis using "1.IH" False "1.prems" by auto
  qed
qed

text \<open>With gap 1 an element is inserted into those before it.\<close>

lemma sift_1_sorted:
  "sorted_but k (ai + 1) a \<Longrightarrow> ai < k \<Longrightarrow> k < length a \<Longrightarrow> sorted_but k 0 (sift 1 ai a)"
proof (induction ai arbitrary: a)
  case 0
  have "sorted_but k 0 a" using 0 by (auto simp: sorted_but_def)
  then show ?case by (subst sift.simps) simp
next
  case (Suc ai)
  let ?h = "Suc ai + 1"
  show ?case
  proof (cases "line_le (a ! ?h) (a ! Suc ai)")
    case False
    then have less: "d_value (a ! ?h) > d_value (a ! Suc ai) \<or>
        d_value (a ! ?h) = d_value (a ! Suc ai) \<and> d_serial (a ! ?h) > d_serial (a ! Suc ai)"
      by (auto simp: line_le_def)
    have "sorted_but k 0 a"
      unfolding sorted_but_def
    proof (intro allI impI)
      fix p q assume pq: "0 < p \<and> p < q \<and> q \<le> k \<and> q \<noteq> 0"
      show "line_le (a ! p) (a ! q)"
      proof (cases "q = ?h")
        case True
        have "line_le (a ! p) (a ! Suc ai)"
        proof (cases "p = Suc ai")
          case False
          with True pq Suc.prems(2) show ?thesis by (intro sorted_butD [OF Suc.prems(1)]) simp_all
        qed (simp add: line_le_def)
        moreover have "line_le (a ! Suc ai) (a ! ?h)" using False line_le_linear by blast
        ultimately show ?thesis using True line_le_trans by blast
      next
        case False
        with pq show ?thesis by (intro sorted_butD [OF Suc.prems(1)]) simp_all
      qed
    qed
    then show ?thesis using less by (subst sift.simps) auto
  next
    case True
    let ?a = "swap_lines (Suc ai) ?h a"
    have "sorted_but k (ai + 1) ?a"
      unfolding sorted_but_def
    proof (intro allI impI)
      fix p q assume pq: "0 < p \<and> p < q \<and> q \<le> k \<and> q \<noteq> ai + 1"
      note s = sorted_butD [OF Suc.prems(1)]
      have n: "?a ! r = (if r = ?h then a ! Suc ai else if r = Suc ai then a ! ?h else a ! r)" for r
        using Suc.prems(2,3) by (simp add: swap_nth)
      consider "p = Suc ai" "q = ?h" | "p = ?h" "q \<noteq> ?h" | "p = Suc ai" "q \<noteq> ?h" | "q = ?h" "p < Suc ai"
        | "p \<noteq> Suc ai" "p \<noteq> ?h" "q \<noteq> ?h" using pq by force
      then show "line_le (?a ! p) (?a ! q)"
      proof cases
        case 1
        with True n show ?thesis by simp
      next
        case 2
        with pq n s [of "Suc ai" q] show ?thesis by simp
      next
        case 3
        with pq n s [of ?h q] show ?thesis by simp
      next
        case 4
        with pq n s [of p "Suc ai"] show ?thesis by simp
      next
        case 5
        with pq n s [of p q] show ?thesis by simp
      qed
    qed
    then have "sorted_but k 0 (sift 1 ai ?a)" using Suc.prems by (intro Suc.IH) simp_all
    moreover have "sift 1 (Suc ai) a = sift 1 ai ?a" using True by (subst sift.simps) (auto simp: line_le_def)
    ultimately show ?thesis by simp
  qed
qed

lemma shell_pass_fold:
  assumes "0 < m" and "m \<le> n"
  shows "holds_lines n v a \<Longrightarrow> k \<le> n - m \<Longrightarrow>
    holds_lines n v (fold (sift m) [1..<k + 1] a) \<and> length (fold (sift m) [1..<k + 1] a) = length a \<and>
    (\<forall>p>n. fold (sift m) [1..<k + 1] a ! p = a ! p) \<and>
    (m = 1 \<longrightarrow> sorted_but (k + 1) 0 (fold (sift m) [1..<k + 1] a))"
proof (induction k)
  case 0
  then show ?case by (auto simp: sorted_but_def)
next
  case (Suc k)
  let ?a = "fold (sift m) [1..<k + 1] a"
  have IH: "holds_lines n v ?a" "length ?a = length a" "\<forall>p>n. ?a ! p = a ! p" "m = 1 \<longrightarrow> sorted_but (k + 1) 0 ?a"
    using Suc by simp_all
  have km: "Suc k + m \<le> n" using Suc.prems(2) assms by simp
  have e: "fold (sift m) [1..<Suc k + 1] a = sift m (Suc k) ?a" by simp
  have "sorted_but (Suc k + 1) 0 (sift m (Suc k) ?a)" if "m = 1"
  proof -
    have "sorted_but (Suc k + 1) (Suc k + 1) ?a" using IH(4) that by (auto simp: sorted_but_def)
    with that sift_1_sorted [of "Suc k + 1" "Suc k" ?a] km holds_linesD(1) [OF IH(1)] show ?thesis by simp
  qed
  moreover have "sift m (Suc k) ?a ! p = a ! p" if "p > n" for p
    using sift_beyond [OF that km holds_linesD(1) [OF IH(1)]] IH(3) that by simp
  ultimately show ?case using sift_holds [OF IH(1) km] IH(2) unfolding e by simp
qed

lemma shell_pass_correct:
  assumes "0 < m" and "m \<le> n" and "holds_lines n v a"
  shows "holds_lines n v (shell_pass n m a)" "length (shell_pass n m a) = length a"
    "p > n \<Longrightarrow> shell_pass n m a ! p = a ! p" "m = 1 \<Longrightarrow> sorted_but n 0 (shell_pass n m a)"
  using shell_pass_fold [OF assms order_refl] assms(1,2) by (auto simp: shell_pass_def)

lemma shell_loop_correct:
  "holds_lines n v a \<Longrightarrow> m \<le> n \<Longrightarrow>
     holds_lines n v (shell_loop n m a) \<and> length (shell_loop n m a) = length a \<and>
     (\<forall>p>n. shell_loop n m a ! p = a ! p) \<and> (0 < m \<longrightarrow> sorted_but n 0 (shell_loop n m a))"
proof (induction n m a rule: shell_loop.induct)
  case (1 n m a)
  show ?case
  proof (cases "m = 0")
    case True
    with "1.prems" show ?thesis by (subst (1 2 3) shell_loop.simps) simp
  next
    case False
    then have e: "shell_loop n m a = shell_loop n (m div 2) (shell_pass n m a)" by (subst shell_loop.simps) simp
    note p = shell_pass_correct [OF _ "1.prems"(2,1)]
    have IH: "holds_lines n v (shell_loop n (m div 2) (shell_pass n m a)) \<and>
        length (shell_loop n (m div 2) (shell_pass n m a)) = length (shell_pass n m a) \<and>
        (\<forall>p>n. shell_loop n (m div 2) (shell_pass n m a) ! p = shell_pass n m a ! p) \<and>
        (0 < m div 2 \<longrightarrow> sorted_but n 0 (shell_loop n (m div 2) (shell_pass n m a)))"
      using False "1.prems"(2) p(1) by (intro "1.IH") simp_all
    have "sorted_but n 0 (shell_loop n (m div 2) (shell_pass n m a))"
    proof (cases "m = 1")
      case True
      then have "shell_loop n (m div 2) (shell_pass n m a) = shell_pass n m a" by (subst shell_loop.simps) simp
      with p(4) True show ?thesis by simp
    next
      case m1: False
      with False have "0 < m div 2" by simp
      with IH show ?thesis by blast
    qed
    with IH p(2,3) False show ?thesis unfolding e by auto
  qed
qed

lemma shell_gap_bounds: "j \<noteq> 0 \<Longrightarrow> m \<le> 2 * n \<Longrightarrow> (2 \<le> n \<Longrightarrow> j \<le> n \<or> 2 \<le> m) \<Longrightarrow>
    shell_gap n j m \<le> 2 * n \<and> (2 \<le> n \<longrightarrow> 2 \<le> shell_gap n j m)"
proof (induction n j m rule: shell_gap.induct)
  case (1 n j m)
  show ?case
  proof (cases "j \<le> n")
    case True
    have "2 \<le> 2 * j - 1 \<or> j * 2 \<le> n" if "2 \<le> n" using that "1.prems"(1) by (cases "j = 1") auto
    then have "shell_gap n (j * 2) (2 * j - 1) \<le> 2 * n \<and> (2 \<le> n \<longrightarrow> 2 \<le> shell_gap n (j * 2) (2 * j - 1))"
      using True "1.prems" by (intro "1.IH") auto
    with True "1.prems"(1) show ?thesis by (subst (1 2) shell_gap.simps) simp
  next
    case False
    with "1.prems" show ?thesis by (subst (1 2) shell_gap.simps) simp
  qed
qed

theorem shellsort_correct:
  assumes "holds_lines n v a"
  shows "holds_lines n v (shellsort a n)" "length (shellsort a n) = length a"
    "p > n \<Longrightarrow> shellsort a n ! p = a ! p" "sorted_but n 0 (shellsort a n)"
proof -
  have "holds_lines n v (shellsort a n) \<and> length (shellsort a n) = length a \<and>
      (\<forall>p>n. shellsort a n ! p = a ! p) \<and> sorted_but n 0 (shellsort a n)"
  proof (cases "n = 0")
    case True
    with assms show ?thesis by (simp add: shellsort_def sorted_but_def)
  next
    case False
    let ?m = "shell_gap n 1 0 div 2"
    have g: "shell_gap n 1 0 \<le> 2 * n" "2 \<le> n \<longrightarrow> 2 \<le> shell_gap n 1 0"
      using shell_gap_bounds [of 1 0 n] False by simp_all
    have l: "holds_lines n v (shell_loop n ?m a) \<and> length (shell_loop n ?m a) = length a \<and>
        (\<forall>p>n. shell_loop n ?m a ! p = a ! p) \<and> (0 < ?m \<longrightarrow> sorted_but n 0 (shell_loop n ?m a))"
      using g(1) by (intro shell_loop_correct [OF assms]) simp
    moreover have "sorted_but n 0 (shell_loop n ?m a)"
    proof (cases "2 \<le> n")
      case True
      with l g(2) show ?thesis by (simp add: div_greater_zero_iff)
    qed (auto simp: sorted_but_def)
    ultimately show ?thesis using False by (simp add: shellsort_def)
  qed
  then show "holds_lines n v (shellsort a n)" "length (shellsort a n) = length a"
    "p > n \<Longrightarrow> shellsort a n ! p = a ! p" "sorted_but n 0 (shellsort a n)" by simp_all
qed

section \<open>Classes\<close>

lemma sorted_values: "sorted_but n 0 a \<Longrightarrow> 0 < p \<Longrightarrow> p \<le> q \<Longrightarrow> q \<le> n \<Longrightarrow> d_value (a ! p) \<le> d_value (a ! q)"
  using sorted_butD [of n 0 a p q] by (cases "p = q") (auto simp: line_le_def)

text \<open>The signs of \<open>member\<close>: an entry begins a class when its value is not that of the entry before.\<close>

definition begins :: "dline list \<Rightarrow> nat \<Rightarrow> bool" where
  "begins b j \<longleftrightarrow> j = 1 \<or> d_value (b ! j) \<noteq> d_value (b ! (j - 1))"

definition member_entry :: "dline list \<Rightarrow> nat \<Rightarrow> int" where
  "member_entry b j = (if begins b j then - int (d_serial (b ! j)) else int (d_serial (b ! j)))"

lemma equiv_run_correct:
  "0 < j \<Longrightarrow> j \<le> m \<Longrightarrow> m + 1 < length b \<Longrightarrow> d_value (b ! (m + 1)) \<notin> d_value ` (\<lambda>i. b ! i) ` {j..m} \<Longrightarrow>
     \<exists>j'. equiv_run b j c = Some (j', c @ map (member_entry b) [j + 1..<j' + 1]) \<and> j \<le> j' \<and> j' \<le> m \<and>
       begins b (j' + 1)"
proof (induction b j c rule: equiv_run.induct)
  case (1 b j c)
  show ?case
  proof (cases "d_value (b ! (j + 1)) = d_value (b ! j)")
    case True
    with "1.prems" have jm: "j + 1 \<le> m" by (cases "j = m") auto
    then have "d_value (b ! (m + 1)) \<notin> d_value ` (\<lambda>i. b ! i) ` {j + 1..m}" using "1.prems"(4) by auto
    then have "\<exists>j'. equiv_run b (j + 1) (c @ [int (d_serial (b ! (j + 1)))]) =
          Some (j', (c @ [int (d_serial (b ! (j + 1)))]) @ map (member_entry b) [j + 1 + 1..<j' + 1]) \<and>
        j + 1 \<le> j' \<and> j' \<le> m \<and> begins b (j' + 1)"
      using "1.prems" True jm by (intro "1.IH") simp_all
    then obtain j' where j': "j + 1 \<le> j'" "j' \<le> m" "begins b (j' + 1)"
      "equiv_run b (j + 1) (c @ [int (d_serial (b ! (j + 1)))]) =
         Some (j', (c @ [int (d_serial (b ! (j + 1)))]) @ map (member_entry b) [j + 1 + 1..<j' + 1])" by blast
    have "equiv_run b j c = equiv_run b (j + 1) (c @ [int (d_serial (b ! (j + 1)))])"
      using True "1.prems"(2,3) by (subst equiv_run.simps) simp
    moreover have "[j + 1..<j' + 1] = (j + 1) # [j + 1 + 1..<j' + 1]" using j'(1) by (simp add: upt_rec)
    moreover have "member_entry b (j + 1) = int (d_serial (b ! (j + 1)))"
      using True "1.prems"(1) by (simp add: member_entry_def begins_def)
    ultimately show ?thesis using j' by (intro exI [of _ j']) simp
  next
    case False
    then have "equiv_run b j c = Some (j, c)" using "1.prems"(2,3) by (subst equiv_run.simps) simp
    with False "1.prems" show ?thesis by (intro exI [of _ j]) (simp add: begins_def)
  qed
qed

lemma equiv_members_correct:
  "m + 1 < length b \<Longrightarrow> d_value (b ! (m + 1)) \<notin> d_value ` (\<lambda>i. b ! i) ` {1..m} \<Longrightarrow> begins b (j + 1) \<Longrightarrow> j \<le> m \<Longrightarrow>
     equiv_members m b j c = Some (c @ map (member_entry b) [j + 1..<m + 1] @ [-1])"
proof (induction m b j c rule: equiv_members.induct)
  case (1 m b j c)
  show ?case
  proof (cases "j + 1 \<le> m")
    case True
    let ?c = "c @ [- int (d_serial (b ! (j + 1)))]"
    have "d_value (b ! (m + 1)) \<notin> d_value ` (\<lambda>i. b ! i) ` {j + 1..m}" using "1.prems"(2) by auto
    then obtain j' where j': "equiv_run b (j + 1) ?c = Some (j', ?c @ map (member_entry b) [j + 1 + 1..<j' + 1])"
      "j + 1 \<le> j'" "j' \<le> m" "begins b (j' + 1)"
      using equiv_run_correct [of "j + 1" m b ?c] "1.prems"(1) True by auto
    have "equiv_members m b j c = equiv_members m b j' (?c @ map (member_entry b) [j + 1 + 1..<j' + 1])"
      using True j'(1) by (subst equiv_members.simps) simp
    also have "\<dots> = Some ((?c @ map (member_entry b) [j + 1 + 1..<j' + 1]) @ map (member_entry b) [j' + 1..<m + 1] @ [-1])"
      using True j' "1.prems" by (intro "1.IH" [OF True j'(1) refl]) simp_all
    finally have "equiv_members m b j c =
      Some ((?c @ map (member_entry b) [j + 1 + 1..<j' + 1]) @ map (member_entry b) [j' + 1..<m + 1] @ [-1])" .
    moreover have "[j + 1..<m + 1] = (j + 1) # [j + 1 + 1..<j' + 1] @ [j' + 1..<m + 1]"
      using j' True upt_add_eq_append [of "j + 1" "j' + 1" "m - j'"] upt_conv_Cons [of "j + 1" "j' + 1"] by simp
    ultimately show ?thesis using "1.prems"(3) by (simp add: member_entry_def)
  next
    case False
    with "1.prems" show ?thesis by (subst equiv_members.simps) simp
  qed
qed

text \<open>What \<open>equiv_find\<close> stores for the value \<open>x\<close>: the first entry of its class, or 0.\<close>

definition found :: "nat \<Rightarrow> (nat \<Rightarrow> int) \<Rightarrow> int \<Rightarrow> int \<Rightarrow> bool" where
  "found m vb x f \<longleftrightarrow>
     f = 0 \<and> (\<forall>j. 0 < j \<and> j \<le> m \<longrightarrow> vb j \<noteq> x) \<or>
     (\<exists>j. 0 < j \<and> j \<le> m \<and> f = int j \<and> vb j = x \<and> (\<forall>j'. 0 < j' \<and> j' < j \<longrightarrow> vb j' < x))"

definition find_post ::
  "nat \<Rightarrow> nat \<Rightarrow> (nat \<Rightarrow> int) \<Rightarrow> (nat \<Rightarrow> int) \<Rightarrow> nat \<Rightarrow> dline list \<Rightarrow> dline list \<Rightarrow> bool"
where
  "find_post n m vb va i a r \<longleftrightarrow>
     length r = length a \<and> (\<forall>k. k < length a \<longrightarrow> d_serial (r ! k) = d_serial (a ! k)) \<and>
     (\<forall>k<i. r ! k = a ! k) \<and> (\<forall>k. i \<le> k \<and> k \<le> n \<longrightarrow> found m vb (va k) (d_value (r ! k)))"

lemma find_post_store:
  assumes r: "find_post n m vb va (i + 1) (a[i := (a ! i)\<lparr>d_value := f\<rparr>]) r"
    and f: "found m vb (va i) f" and i: "i \<le> n" "n < length a"
  shows "find_post n m vb va i a r"
proof -
  have "d_serial (a[i := (a ! i)\<lparr>d_value := f\<rparr>] ! k) = d_serial (a ! k)" if "k < length a" for k
    using that by (cases "k = i") auto
  moreover have "r ! i = (a ! i)\<lparr>d_value := f\<rparr>" using r i by (simp add: find_post_def)
  then have "found m vb (va k) (d_value (r ! k))" if "i \<le> k" "k \<le> n" for k
    using r f that by (cases "k = i") (auto simp: find_post_def)
  ultimately show ?thesis using r by (simp add: find_post_def)
qed

lemma equiv_find_correct:
  "n < length a \<Longrightarrow> 0 < i \<Longrightarrow> 0 < j \<Longrightarrow>
   (\<And>k. i \<le> k \<Longrightarrow> k \<le> n \<Longrightarrow> d_value (a ! k) = va k) \<Longrightarrow>
   (\<And>k k'. i \<le> k \<Longrightarrow> k \<le> k' \<Longrightarrow> k' \<le> n \<Longrightarrow> va k \<le> va k') \<Longrightarrow>
   (\<And>k k'. 0 < k \<Longrightarrow> k \<le> k' \<Longrightarrow> k' \<le> m \<Longrightarrow> d_value (b ! k) \<le> d_value (b ! k')) \<Longrightarrow>
   (\<And>j' k. 0 < j' \<Longrightarrow> j' < j \<Longrightarrow> j' \<le> m \<Longrightarrow> i \<le> k \<Longrightarrow> k \<le> n \<Longrightarrow> d_value (b ! j') < va k) \<Longrightarrow>
   find_post n m (\<lambda>j. d_value (b ! j)) va i a (equiv_find n m b i j a)"
proof (induction n m b i j a rule: equiv_find.induct)
  case (1 n m b i j a)
  let ?vb = "\<lambda>j. d_value (b ! j)"
  let ?a = "\<lambda>f. a[i := (a ! i)\<lparr>d_value := f\<rparr>]"
  note prems = "1.prems"
  show ?case
  proof (cases "i \<le> n")
    case False
    then have "equiv_find n m b i j a = a" by (subst equiv_find.simps) simp
    with False show ?thesis by (auto simp: find_post_def)
  next
    case i: True
    have ai: "d_value (a ! i) = va i" using prems(4) i by simp
    have up: "\<And>k. i + 1 \<le> k \<Longrightarrow> k \<le> n \<Longrightarrow> d_value (?a f ! k) = va k" for f using prems(4) by simp
    show ?thesis
    proof (cases "j \<le> m")
      case False
      have e: "equiv_find n m b i j a = equiv_find n m b (i + 1) j (?a 0)"
        using i False by (subst equiv_find.simps) simp
      have "?vb j' \<noteq> va i" if "0 < j'" "j' \<le> m" for j'
        using prems(7) [of j' i] False i that by simp
      then have f: "found m ?vb (va i) 0" by (simp add: found_def)
      have "find_post n m ?vb va (i + 1) (?a 0) (equiv_find n m b (i + 1) j (?a 0))"
        by (rule "1.IH"(4)) (use False i prems(1,2,3,5,6,7) up in simp_all)
      from find_post_store [OF this f i prems(1)] show ?thesis by (simp only: e)
    next
      case j: True
      consider (lt) "va i < ?vb j" | (eq) "va i = ?vb j" | (gt) "?vb j < va i" by linarith
      then show ?thesis
      proof cases
        case lt
        have e: "equiv_find n m b i j a = equiv_find n m b (i + 1) j (?a 0)"
          using i j ai lt by (subst equiv_find.simps) simp
        have "?vb j' \<noteq> va i" if "0 < j'" "j' \<le> m" for j'
          using prems(6) [of j j'] prems(7) [of j' i] prems(3) that lt i by (cases "j' < j") auto
        then have f: "found m ?vb (va i) 0" by (simp add: found_def)
        have "find_post n m ?vb va (i + 1) (?a 0) (equiv_find n m b (i + 1) j (?a 0))"
          by (rule "1.IH"(1)) (use lt ai i j prems(1,2,3,5,6,7) up in simp_all)
        from find_post_store [OF this f i prems(1)] show ?thesis by (simp only: e)
      next
        case eq
        have e: "equiv_find n m b i j a = equiv_find n m b (i + 1) j (?a (int j))"
          using i j ai eq by (subst equiv_find.simps) simp
        have f: "found m ?vb (va i) (int j)"
          unfolding found_def
        proof (intro disjI2 exI [of _ j] conjI allI impI)
          show "?vb j' < va i" if "0 < j' \<and> j' < j" for j' using prems(7) [of j' i] that i j by simp
        qed (use eq j prems(3) in simp_all)
        have "find_post n m ?vb va (i + 1) (?a (int j)) (equiv_find n m b (i + 1) j (?a (int j)))"
          by (rule "1.IH"(2)) (use eq ai i j prems(1,2,3,5,6,7) up in simp_all)
        from find_post_store [OF this f i prems(1)] show ?thesis by (simp only: e)
      next
        case gt
        have e: "equiv_find n m b i j a = equiv_find n m b i (j + 1) a"
          using i j ai gt by (subst equiv_find.simps) simp
        have "?vb j' < va k" if "0 < j'" "j' < j + 1" "j' \<le> m" "i \<le> k" "k \<le> n" for j' k
          using prems(7) [of j' k] prems(5) [of i k] gt that by (cases "j' = j") auto
        moreover have "\<not> d_value (a ! i) < ?vb j" "d_value (a ! i) \<noteq> ?vb j" using gt ai by simp_all
        ultimately have "find_post n m ?vb va i a (equiv_find n m b i (j + 1) a)"
          using i j prems(1-6) by (intro "1.IH"(3)) (simp_all only: add_pos_pos zero_less_one not_False_eq_True)
        then show ?thesis by (simp only: e)
      qed
    qed
  qed
qed

lemma unsort_fold:
  assumes inj: "\<And>i j. 0 < i \<Longrightarrow> i \<le> l \<Longrightarrow> 0 < j \<Longrightarrow> j \<le> l \<Longrightarrow> d_serial (f ! i) = d_serial (f ! j) \<Longrightarrow> i = j"
    and le: "\<And>i. 0 < i \<Longrightarrow> i \<le> l \<Longrightarrow> d_serial (f ! i) \<le> l"
  shows "k \<le> l \<Longrightarrow> 0 < i \<Longrightarrow> i \<le> k \<Longrightarrow>
    length (fold (\<lambda>i a. a[d_serial (f ! i) := d_value (f ! i)]) [1..<k + 1] (replicate (l + 1) 0)) = l + 1 \<and>
    fold (\<lambda>i a. a[d_serial (f ! i) := d_value (f ! i)]) [1..<k + 1] (replicate (l + 1) 0) ! d_serial (f ! i) =
      d_value (f ! i)"
proof (induction k arbitrary: i)
  case (Suc k)
  let ?a = "fold (\<lambda>i a. a[d_serial (f ! i) := d_value (f ! i)]) [1..<k + 1] (replicate (l + 1) (0 :: int))"
  have len: "length ?a = l + 1" using Suc by (cases "k = 0") auto
  show ?case
  proof (cases "i = Suc k")
    case True
    with le [of i] Suc.prems len show ?thesis by simp
  next
    case False
    then have "?a ! d_serial (f ! i) = d_value (f ! i)" using Suc by simp
    moreover have "d_serial (f ! i) \<noteq> d_serial (f ! Suc k)" using inj [of i "Suc k"] False Suc.prems by auto
    ultimately show ?thesis using len by simp
  qed
qed simp

lemma unsort_nth:
  assumes h: "holds_lines n v a" and f: "\<And>i. 0 < i \<Longrightarrow> i \<le> n \<Longrightarrow> d_serial (f ! i) = d_serial (a ! i)"
    and i: "0 < i" "i \<le> n"
  shows "unsort f n ! d_serial (a ! i) = d_value (f ! i)"
proof -
  have "i' = j" if "0 < i'" "i' \<le> n" "0 < j" "j \<le> n" "d_serial (f ! i') = d_serial (f ! j)" for i' j
    using that holds_lines_inj [OF h that(1-4)] by (simp add: f)
  moreover have "d_serial (f ! j) \<le> n" if "0 < j" "j \<le> n" for j using that holds_linesD(3) [OF h] by (simp add: f)
  ultimately show ?thesis
    using unsort_fold [of n f n i] i by (simp add: unsort_def f)
qed

lemma set_takeWhile_upt: "k \<in> set (takeWhile P [j..<N]) \<longleftrightarrow> j \<le> k \<and> k < N \<and> (\<forall>k'. j \<le> k' \<and> k' \<le> k \<longrightarrow> P k')"
proof (induction "N - j" arbitrary: j)
  case 0
  then show ?case by auto
next
  case (Suc d)
  then have "[j..<N] = j # [Suc j..<N]" by (simp add: upt_conv_Cons)
  moreover have "k \<in> set (takeWhile P [Suc j..<N]) \<longleftrightarrow>
      Suc j \<le> k \<and> k < N \<and> (\<forall>k'. Suc j \<le> k' \<and> k' \<le> k \<longrightarrow> P k')"
    using Suc(2) by (intro Suc(1)) simp
  moreover have "(\<forall>k'. j \<le> k' \<and> k' \<le> k \<longrightarrow> P k') \<longleftrightarrow> P j \<and> (\<forall>k'. Suc j \<le> k' \<and> k' \<le> k \<longrightarrow> P k')" if "j \<le> k"
    using that by (simp add: Suc_le_eq) (metis le_neq_implies_less le_refl less_imp_le)
  ultimately show ?case using Suc(2) by (cases "k = j") auto
qed

lemma takeWhile_snoc: "\<not> P x \<Longrightarrow> takeWhile P (xs @ [x]) = takeWhile P xs"
  by (induction xs) simp_all

lemma sorted_wrt_takeWhile: "sorted_wrt R xs \<Longrightarrow> sorted_wrt R (takeWhile P xs)"
  by (induction xs) (auto dest: set_takeWhileD)

section \<open>The matching lines\<close>

text \<open>The new file's lines as \<open>equiv\<close> meets them: sorted, with the sentinel behind the last one.\<close>

definition sorted_lines :: "nat \<Rightarrow> (nat \<Rightarrow> int) \<Rightarrow> dline list \<Rightarrow> bool" where
  "sorted_lines m v b \<longleftrightarrow>
     holds_lines m v b \<and> sorted_but m 0 b \<and> m + 1 < length b \<and> d_value (b ! (m + 1)) = 0 \<and>
     (\<forall>y. 0 < y \<and> y \<le> m \<longrightarrow> v y \<noteq> 0)"

definition member_list :: "nat \<Rightarrow> dline list \<Rightarrow> int list" where
  "member_list m b = 0 # map (member_entry b) [1..<m + 1] @ [-1]"

lemma sorted_linesD:
  assumes "sorted_lines m v b"
  shows "holds_lines m v b" "sorted_but m 0 b" "m + 1 < length b" "d_value (b ! (m + 1)) = 0"
    "0 < k \<Longrightarrow> k \<le> m \<Longrightarrow> 0 < d_serial (b ! k)" "0 < k \<Longrightarrow> k \<le> m \<Longrightarrow> d_value (b ! k) \<noteq> 0"
  using assms holds_linesD(2-4) [of m v b k] by (auto simp: sorted_lines_def)

lemma members_eq: "sorted_lines m v b \<Longrightarrow> equiv_members m b 0 [0] = Some (member_list m b)"
proof -
  assume b: "sorted_lines m v b"
  note d = sorted_linesD [OF b]
  have "d_value (b ! (m + 1)) \<notin> d_value ` (\<lambda>i. b ! i) ` {1..m}"
    unfolding d(4) using d(6) by (auto simp: Suc_le_eq)
  with equiv_members_correct [OF d(3) this, of 0 "[0]"] show ?thesis by (simp add: begins_def member_list_def)
qed

lemma member_nth: "0 < j \<Longrightarrow> j \<le> m \<Longrightarrow> member_list m b ! j = member_entry b j"
  by (cases j) (simp_all add: member_list_def nth_append del: upt_Suc)

lemma class_tail:
  assumes b: "sorted_lines m v b" and j: "0 < j" "j \<le> m + 1"
  shows "members (member_list m b) j = map (\<lambda>k. d_serial (b ! k)) (takeWhile (\<lambda>k. \<not> begins b k) [j..<m + 1])"
proof -
  have "drop j (member_list m b) = map (member_entry b) [j..<m + 1] @ [-1]"
    using j by (cases j) (simp_all add: member_list_def drop_map del: upt_Suc)
  then have "members (member_list m b) j = map nat (takeWhile (\<lambda>x. 0 < x) (map (member_entry b) [j..<m + 1]))"
    by (simp add: members_def takeWhile_snoc)
  also have "\<dots> = map nat (map (member_entry b) (takeWhile (\<lambda>k. 0 < member_entry b k) [j..<m + 1]))"
    by (simp add: takeWhile_map comp_def del: upt_Suc)
  also have "takeWhile (\<lambda>k. 0 < member_entry b k) [j..<m + 1] = takeWhile (\<lambda>k. \<not> begins b k) [j..<m + 1]"
    using sorted_linesD(5) [OF b] j(1) by (intro takeWhile_cong refl) (auto simp: member_entry_def)
  also have "map nat (map (member_entry b) (takeWhile (\<lambda>k. \<not> begins b k) [j..<m + 1])) =
      map (\<lambda>k. d_serial (b ! k)) (takeWhile (\<lambda>k. \<not> begins b k) [j..<m + 1])"
    by (auto simp: member_entry_def dest: set_takeWhileD)
  finally show ?thesis .
qed

text \<open>The entries of a class are those from its first one on.\<close>

definition class_list :: "nat \<Rightarrow> dline list \<Rightarrow> nat \<Rightarrow> nat list" where
  "class_list m b j = j # takeWhile (\<lambda>k. \<not> begins b k) [j + 1..<m + 1]"

lemma class_list_iff:
  "0 < j \<Longrightarrow> j \<le> m \<Longrightarrow> k \<in> set (class_list m b j) \<longleftrightarrow>
     j \<le> k \<and> k \<le> m \<and> (\<forall>k'. j < k' \<and> k' \<le> k \<longrightarrow> \<not> begins b k')"
  unfolding class_list_def set_simps insert_iff set_takeWhile_upt by (cases "k = j") auto

lemma class_list_set:
  assumes b: "sorted_lines m v b" and j: "0 < j" "j \<le> m" "begins b j"
  shows "set (class_list m b j) = {k. 0 < k \<and> k \<le> m \<and> d_value (b ! k) = d_value (b ! j)}"
proof (intro set_eqI iffI)
  fix k assume "k \<in> set (class_list m b j)"
  then have k: "j \<le> k" "k \<le> m" "\<forall>k'. j < k' \<and> k' \<le> k \<longrightarrow> \<not> begins b k'"
    by (simp_all add: class_list_iff [OF j(1,2)])
  have "k' \<le> k \<Longrightarrow> j \<le> k' \<Longrightarrow> d_value (b ! k') = d_value (b ! j)" for k'
  proof (induction k')
    case (Suc k')
    show ?case
    proof (cases "j = Suc k'")
      case False
      with Suc k(3) have "\<not> begins b (Suc k')" by simp
      with Suc False show ?thesis by (simp add: begins_def)
    qed simp
  qed (use j in simp)
  from this [of k] k(1,2) j show "k \<in> {k. 0 < k \<and> k \<le> m \<and> d_value (b ! k) = d_value (b ! j)}" by simp
next
  fix k assume "k \<in> {k. 0 < k \<and> k \<le> m \<and> d_value (b ! k) = d_value (b ! j)}"
  then have k: "0 < k" "k \<le> m" "d_value (b ! k) = d_value (b ! j)" by simp_all
  note mono = sorted_values [OF sorted_linesD(2) [OF b]]
  have jk: "j \<le> k"
  proof (rule ccontr)
    assume "\<not> j \<le> k"
    then have "d_value (b ! k) \<le> d_value (b ! (j - 1))" "d_value (b ! (j - 1)) \<le> d_value (b ! j)"
      using mono [of k "j - 1"] mono [of "j - 1" j] k j by simp_all
    with k(3) j(3) \<open>\<not> j \<le> k\<close> k(1) show False by (auto simp: begins_def)
  qed
  have "\<not> begins b k'" if "j < k'" "k' \<le> k" for k'
  proof -
    have same: "d_value (b ! e) = d_value (b ! j)" if "j \<le> e" "e \<le> k" for e
      using mono [of j e] mono [of e k] that k j by simp
    have "j \<le> k' - 1" "k' - 1 \<le> k" using that by linarith+
    with same [of k'] same [of "k' - 1"] that j show ?thesis by (simp add: begins_def)
  qed
  with jk k show "k \<in> set (class_list m b j)" by (simp add: class_list_iff [OF j(1,2)])
qed

lemma class_sorted:
  assumes b: "sorted_lines m v b" and j: "0 < j" "j \<le> m" "begins b j"
  shows "sorted_wrt (<) (map (\<lambda>k. d_serial (b ! k)) (class_list m b j))"
proof -
  note d = sorted_linesD [OF b]
  have "sorted_wrt (<) (class_list m b j)"
    unfolding class_list_def sorted_wrt.simps
    using sorted_wrt_takeWhile [OF sorted_wrt_upt] by (auto simp: set_takeWhile_upt simp del: upt_Suc)
  then have "sorted_wrt (\<lambda>k k'. d_serial (b ! k) < d_serial (b ! k')) (class_list m b j)"
  proof (rule sorted_wrt_mono_rel [rotated])
    fix k k' assume kk: "k \<in> set (class_list m b j)" "k' \<in> set (class_list m b j)" "k < k'"
    then have k: "0 < k" "k \<le> m" "0 < k'" "k' \<le> m" "d_value (b ! k) = d_value (b ! k')"
      unfolding class_list_set [OF assms] by simp_all
    have "line_le (b ! k) (b ! k')" using k kk(3) by (intro sorted_butD [OF d(2)]) simp_all
    then have "d_serial (b ! k) \<le> d_serial (b ! k')" using k(5) by (simp add: line_le_def)
    moreover have "d_serial (b ! k) \<noteq> d_serial (b ! k')"
      using holds_lines_inj [OF d(1) k(1-4)] kk(3) by auto
    ultimately show "d_serial (b ! k) < d_serial (b ! k')" by simp
  qed
  then show ?thesis by (simp add: sorted_wrt_map)
qed

lemma serials_of_value:
  assumes "holds_lines m v b"
  shows "(\<lambda>k. d_serial (b ! k)) ` {k. 0 < k \<and> k \<le> m \<and> d_value (b ! k) = x} = {y. 0 < y \<and> y \<le> m \<and> v y = x}"
proof (intro set_eqI iffI)
  fix y assume "y \<in> (\<lambda>k. d_serial (b ! k)) ` {k. 0 < k \<and> k \<le> m \<and> d_value (b ! k) = x}"
  then obtain k where "0 < k" "k \<le> m" "d_value (b ! k) = x" "y = d_serial (b ! k)" by auto
  with holds_linesD(2-4) [OF assms, of k] show "y \<in> {y. 0 < y \<and> y \<le> m \<and> v y = x}" by simp
next
  fix y assume y: "y \<in> {y. 0 < y \<and> y \<le> m \<and> v y = x}"
  then obtain k where k: "0 < k" "k \<le> m" "d_serial (b ! k) = y" using holds_linesD(5) [OF assms, of y] by auto
  with holds_linesD(4) [OF assms k(1,2)] y
  show "y \<in> (\<lambda>k. d_serial (b ! k)) ` {k. 0 < k \<and> k \<le> m \<and> d_value (b ! k) = x}" by auto
qed

lemma class_members:
  assumes b: "sorted_lines m v b" and f: "found m (\<lambda>j. d_value (b ! j)) x (int j)" and j: "0 < j"
  shows "set (nat (- (member_list m b ! j)) # members (member_list m b) (j + 1)) = {y. 0 < y \<and> y \<le> m \<and> v y = x}"
    "sorted_wrt (<) (0 # nat (- (member_list m b ! j)) # members (member_list m b) (j + 1))"
proof -
  from f j have jm: "j \<le> m" "d_value (b ! j) = x" "\<forall>j'. 0 < j' \<and> j' < j \<longrightarrow> d_value (b ! j') < x"
    by (auto simp: found_def)
  have "begins b j" using jm(2) jm(3) [rule_format, of "j - 1"] j by (cases "j = 1") (auto simp: begins_def)
  note bj = j jm(1) this
  have e: "nat (- (member_list m b ! j)) # members (member_list m b) (j + 1) =
      map (\<lambda>k. d_serial (b ! k)) (class_list m b j)"
    using class_tail [OF b, of "j + 1"] bj by (simp add: class_list_def member_nth member_entry_def)
  show set: "set (nat (- (member_list m b ! j)) # members (member_list m b) (j + 1)) = {y. 0 < y \<and> y \<le> m \<and> v y = x}"
    unfolding e set_map class_list_set [OF b bj] jm(2) by (rule serials_of_value [OF sorted_linesD(1) [OF b]])
  show "sorted_wrt (<) (0 # nat (- (member_list m b ! j)) # members (member_list m b) (j + 1))"
    unfolding sorted_wrt.simps(2) [of _ 0] set unfolding e using class_sorted [OF b bj] by simp
qed

section \<open>The matching lines\<close>

theorem equiv_correct:
  assumes a: "holds_lines n v1 a" "sorted_but n 0 a"
    and b: "holds_lines m v2 b" "sorted_but m 0 b" "m + 1 < length b"
    and nonzero: "\<And>y. 0 < y \<Longrightarrow> y \<le> m \<Longrightarrow> v2 y \<noteq> 0"
  shows "\<exists>a' mem. equiv_lines a n b m = Some (a', mem) \<and>
    (\<forall>x. 0 < x \<and> x \<le> n \<longrightarrow>
       set (matches (unsort a' n) mem x) = {y. 0 < y \<and> y \<le> m \<and> v2 y = v1 x} \<and>
       sorted_wrt (<) (0 # matches (unsort a' n) mem x))"
proof -
  define b' where "b' = b[m + 1 := (b ! (m + 1))\<lparr>d_value := 0\<rparr>]"
  have same: "k \<le> m \<Longrightarrow> b' ! k = b ! k" for k by (simp add: b'_def)
  have b': "sorted_lines m v2 b'"
    unfolding sorted_lines_def
  proof (intro conjI)
    show "holds_lines m v2 b'" by (rule holds_lines_cong [OF b(1) _ same]) (simp_all add: b'_def)
    show "sorted_but m 0 b'" using b(2) same by (simp add: sorted_but_def)
  qed (use b(3) nonzero in \<open>simp_all add: b'_def\<close>)
  let ?a' = "equiv_find n m b 1 1 a" and ?mem = "member_list m b'"
  have e: "equiv_lines a n b m = Some (?a', ?mem)"
    using members_eq [OF b'] by (simp add: equiv_lines_def b'_def)
  have post: "find_post n m (\<lambda>j. d_value (b ! j)) (\<lambda>i. d_value (a ! i)) 1 a ?a'"
    using holds_linesD(1) [OF a(1)] sorted_values [OF a(2)] sorted_values [OF b(2)]
    by (intro equiv_find_correct) simp_all
  have "set (matches (unsort ?a' n) ?mem x) = {y. 0 < y \<and> y \<le> m \<and> v2 y = v1 x} \<and>
      sorted_wrt (<) (0 # matches (unsort ?a' n) ?mem x)" if x: "0 < x" "x \<le> n" for x
  proof -
    obtain i where i: "0 < i" "i \<le> n" "d_serial (a ! i) = x" using holds_linesD(5) [OF a(1) x] by blast
    have serial: "d_serial (?a' ! k) = d_serial (a ! k)" if "0 < k" "k \<le> n" for k
      using post holds_linesD(1) [OF a(1)] that by (simp add: find_post_def)
    have u: "unsort ?a' n ! x = d_value (?a' ! i)" using unsort_nth [OF a(1) serial i(1,2)] i(3) by simp
    have va: "d_value (a ! i) = v1 x" using holds_linesD(4) [OF a(1) i(1,2)] i(3) by simp
    have "found m (\<lambda>j. d_value (b ! j)) (d_value (a ! i)) (d_value (?a' ! i))"
      using post i by (simp add: find_post_def)
    then have f: "found m (\<lambda>j. d_value (b ! j)) (v1 x) (d_value (?a' ! i))" by (simp only: va)
    show ?thesis
    proof (cases "d_value (?a' ! i) = 0")
      case True
      then have none: "\<forall>j. 0 < j \<and> j \<le> m \<longrightarrow> d_value (b ! j) \<noteq> v1 x" using f by (auto simp: found_def)
      have "{y. 0 < y \<and> y \<le> m \<and> v2 y = v1 x} = {}"
        unfolding serials_of_value [OF b(1), symmetric] using none by auto
      then show ?thesis using True u by (simp add: matches_def)
    next
      case False
      then obtain j where j: "0 < j" "d_value (?a' ! i) = int j" using f by (auto simp: found_def)
      have "found m (\<lambda>j. d_value (b' ! j)) (v1 x) (int j)"
        using f j same by (auto simp: found_def)
      from class_members [OF b' this j(1)] show ?thesis using False u j(2) by (simp add: matches_def)
    qed
  qed
  with e show ?thesis by blast
qed

end
