(* ===== verification/DiffMatch.thy ===== *)
theory DiffMatch
  imports DiffSort
begin

text \<open>
  The match vector \<open>J\<close> of two files of lines: an increasing matching of lines with the same
  hash, and one that no other exceeds when nothing is cut off.
\<close>

section \<open>Files of lines\<close>

definition file_of :: "string list \<Rightarrow> string" where
  "file_of ls = concat (map (\<lambda>l. l @ [NL]) ls)"

lemma file_of_simps [simp]: "file_of [] = []" "file_of (l # ls) = l @ NL # file_of ls"
  "file_of (ls @ ls') = file_of ls @ file_of ls'"
  by (simp_all add: file_of_def)

text \<open>Lines without a newline in them and, unless \<open>-a\<close> is given, without a NUL.\<close>

definition lines_ok :: "dflags \<Rightarrow> string list \<Rightarrow> bool" where
  "lines_ok fl ls \<longleftrightarrow> (\<forall>l\<in>set ls. NL \<notin> set l \<and> (d_forceascii fl \<or> NUL \<notin> set l))"

text \<open>Flags that let no different lines be equal.\<close>

definition exact :: "dflags \<Rightarrow> bool" where
  "exact fl \<longleftrightarrow> \<not> d_foldblanks fl \<and> \<not> d_ignoreblanks fl \<and> \<not> d_ignorecase fl \<and> \<not> d_stripcr fl"

definition line_hash :: "string \<Rightarrow> int" where
  "line_hash l = sint (foldl (\<lambda>h c. h * 127 + word_of_nat (code c)) (1 :: 32 word) l)"

section \<open>Preparation\<close>

lemma readhash_loop_line:
  assumes "exact fl"
  shows "NL \<notin> set l \<Longrightarrow> d_forceascii fl \<or> NUL \<notin> set l \<Longrightarrow>
    readhash_loop fl i 0 h0 (l @ NL # f) = (RH_OK, foldl (\<lambda>h c. h * 127 + word_of_nat (code c)) h0 l, f)"
  using assms by (induction l arbitrary: i h0) (auto simp: exact_def Let_def chrtran_def)

lemma prepare_loop_lines:
  assumes fl: "exact fl"
  shows "lines_ok fl ls \<Longrightarrow> j \<le> sz \<Longrightarrow> 2 \<le> sz \<Longrightarrow> length p = sz + 3 \<Longrightarrow>
    \<exists>p'. prepare_loop fl sz j p (file_of ls) = Some (j + length ls, p') \<and> j + length ls + 3 \<le> length p' \<and>
      (\<forall>k. 0 < k \<and> k \<le> j \<longrightarrow> d_value (p' ! k) = d_value (p ! k)) \<and>
      (\<forall>k<length ls. d_value (p' ! (j + 1 + k)) = line_hash (ls ! k))"
proof (induction ls arbitrary: sz j p)
  case Nil
  have "prepare_loop fl sz j p [] = Some (j, p)"
    by (subst prepare_loop.simps) (simp add: readhash_def)
  with Nil show ?case by simp
next
  case (Cons l ls)
  define sz' where "sz' = (if j = sz then sz * 3 div 2 else sz)"
  define p1 where "p1 = (if j = sz then p @ replicate (sz * 3 div 2 - sz) no_line else p)"
  define p2 where "p2 = p1[j + 1 := (p1 ! (j + 1))\<lparr>d_value := line_hash l\<rparr>]"
  have l: "NL \<notin> set l" "d_forceascii fl \<or> NUL \<notin> set l" "lines_ok fl ls"
    using Cons.prems(1) by (auto simp: lines_ok_def)
  have p1: "length p1 = sz' + 3" "j + 1 \<le> sz'" "2 \<le> sz'" "\<And>k. k \<le> j \<Longrightarrow> p1 ! k = p ! k"
    using Cons.prems(2-4) by (auto simp: p1_def sz'_def nth_append)
  have p2: "length p2 = sz' + 3" "\<And>k. k \<le> j \<Longrightarrow> p2 ! k = p ! k" "d_value (p2 ! (j + 1)) = line_hash l"
    using p1 by (simp_all add: p2_def)
  have "prepare_loop fl sz j p (file_of (l # ls)) = prepare_loop fl sz' (j + 1) p2 (file_of ls)"
    using readhash_loop_line [OF fl l(1,2), of 0 1 "file_of ls"]
    by (subst prepare_loop.simps) (simp add: readhash_def sz'_def p1_def p2_def line_hash_def)
  moreover obtain p' where p': "prepare_loop fl sz' (j + 1) p2 (file_of ls) = Some (j + 1 + length ls, p')"
    "j + 1 + length ls + 3 \<le> length p'"
    "\<forall>k. 0 < k \<and> k \<le> j + 1 \<longrightarrow> d_value (p' ! k) = d_value (p2 ! k)"
    "\<forall>k<length ls. d_value (p' ! (j + 1 + 1 + k)) = line_hash (ls ! k)"
    using Cons.IH [OF l(3) p1(2,3) p2(1)] by blast
  moreover have "d_value (p' ! (j + 1 + k)) = line_hash ((l # ls) ! k)" if "k < length (l # ls)" for k
    using that p'(3,4) p2(3) by (cases k) auto
  ultimately show ?case using p2(2) by (intro exI [of _ p']) simp
qed

lemma prepare_lines:
  assumes "exact fl" and "lines_ok fl ls"
  obtains p where "prepare fl (file_of ls) = Some (length ls, p)" "length ls + 3 \<le> length p"
    "\<And>k. 0 < k \<Longrightarrow> k \<le> length ls \<Longrightarrow> d_value (p ! k) = line_hash (ls ! (k - 1))"
proof -
  define sz where "sz = (if length (file_of ls) div 25 < 100 then 100 else length (file_of ls) div 25)"
  then have "2 \<le> sz" by simp
  obtain p where p: "prepare_loop fl sz 0 (replicate (sz + 3) no_line) (file_of ls) = Some (length ls, p)"
    "length ls + 3 \<le> length p" "\<forall>k<length ls. d_value (p ! (1 + k)) = line_hash (ls ! k)"
    using prepare_loop_lines [OF assms _ \<open>2 \<le> sz\<close>, of 0 "replicate (sz + 3) no_line"] by auto
  have "prepare fl (file_of ls) = Some (length ls, p)"
    using p(1) by (simp only: prepare_def sz_def Let_def)
  moreover have "d_value (p ! k) = line_hash (ls ! (k - 1))" if "0 < k" "k \<le> length ls" for k
    using p(3) that by (cases k) auto
  ultimately show thesis using that p(2) by blast
qed

section \<open>The common prefix and suffix\<close>

lemma prune_prefix_correct:
  "pref \<le> n \<Longrightarrow> pref \<le> m \<Longrightarrow> (\<And>k. 0 < k \<Longrightarrow> k \<le> pref \<Longrightarrow> d_value (a ! k) = d_value (b ! k)) \<Longrightarrow>
   prune_prefix a n b m pref \<le> n \<and> prune_prefix a n b m pref \<le> m \<and>
   (\<forall>k. 0 < k \<and> k \<le> prune_prefix a n b m pref \<longrightarrow> d_value (a ! k) = d_value (b ! k))"
proof (induction a n b m pref rule: prune_prefix.induct)
  case (1 a n b m pref)
  show ?case
  proof (cases "pref < n \<and> pref < m \<and> d_value (a ! (pref + 1)) = d_value (b ! (pref + 1))")
    case True
    then have e: "prune_prefix a n b m pref = prune_prefix a n b m (pref + 1)" by (subst prune_prefix.simps) simp
    have "d_value (a ! k) = d_value (b ! k)" if "0 < k" "k \<le> pref + 1" for k
      using "1.prems"(3) [of k] True that by (cases "k = pref + 1") auto
    with True show ?thesis unfolding e by (intro "1.IH") simp_all
  next
    case False
    then have "prune_prefix a n b m pref = pref" by (subst prune_prefix.simps) (rule if_not_P)
    with "1.prems" show ?thesis by simp
  qed
qed

lemma prune_suffix_correct:
  "suff \<le> n - pref \<Longrightarrow> suff \<le> m - pref \<Longrightarrow>
   (\<And>k. k < suff \<Longrightarrow> d_value (a ! (n - k)) = d_value (b ! (m - k))) \<Longrightarrow>
   prune_suffix a n b m pref suff \<le> n - pref \<and> prune_suffix a n b m pref suff \<le> m - pref \<and>
   (\<forall>k < prune_suffix a n b m pref suff. d_value (a ! (n - k)) = d_value (b ! (m - k)))"
proof (induction a n b m pref suff rule: prune_suffix.induct)
  case (1 a n b m pref suff)
  show ?case
  proof (cases "suff < n - pref \<and> suff < m - pref \<and> d_value (a ! (n - suff)) = d_value (b ! (m - suff))")
    case True
    then have e: "prune_suffix a n b m pref suff = prune_suffix a n b m pref (suff + 1)"
      by (subst prune_suffix.simps) simp
    have "d_value (a ! (n - k)) = d_value (b ! (m - k))" if "k < suff + 1" for k
      using "1.prems"(3) [of k] True that by (cases "k = suff") auto
    with True show ?thesis unfolding e by (intro "1.IH") simp_all
  next
    case False
    then have "prune_suffix a n b m pref suff = suff" by (subst prune_suffix.simps) (rule if_not_P)
    with "1.prems" show ?thesis by simp
  qed
qed

lemma number_lines_holds:
  assumes "pref + sn < length p"
  shows "holds_lines sn (\<lambda>i. d_value (p ! (pref + i))) (number_lines sn (drop pref p))"
    "length (number_lines sn (drop pref p)) = length p - pref"
proof -
  have n: "number_lines sn (drop pref p) ! i = (p ! (pref + i))\<lparr>d_serial := i\<rparr>" if "i \<le> sn" for i
    using that assms by (simp add: number_lines_def)
  show l: "length (number_lines sn (drop pref p)) = length p - pref" by (simp add: number_lines_def)
  show "holds_lines sn (\<lambda>i. d_value (p ! (pref + i))) (number_lines sn (drop pref p))"
    unfolding holds_lines_def
  proof (intro conjI allI impI)
    fix y assume "0 < y \<and> y \<le> sn"
    then show "\<exists>i>0. i \<le> sn \<and> d_serial (number_lines sn (drop pref p) ! i) = y"
      by (intro exI [of _ y]) (simp add: n)
  qed (use assms l n in simp_all)
qed

section \<open>From the chain to the match vector\<close>

definition set_pair :: "nat \<Rightarrow> nat \<times> nat \<Rightarrow> nat list \<Rightarrow> nat list" where
  "set_pair pref xy J = J[fst xy + pref := snd xy + pref]"

lemma set_pair_simp [simp]: "set_pair pref (x, y) J = J[x + pref := y + pref]"
  by (simp add: set_pair_def)

lemma unravel_chain_eq: "chain cl p ps \<Longrightarrow> unravel_chain cl pref p J = Some (fold (set_pair pref) ps J)"
proof (induction arbitrary: J rule: chain.induct)
  case (chain_end p cl)
  then show ?case by (subst unravel_chain.simps) simp
next
  case (chain_step p cl ps)
  then show ?case by (subst unravel_chain.simps) (simp add: Let_def)
qed

lemma matching_bounds: "matching M i v ps \<Longrightarrow> (x, y) \<in> set ps \<Longrightarrow> 0 < x \<and> x \<le> i \<and> 0 < y \<and> y \<le> v \<and> y \<in> set (M x)"
  by (induction M i v ps rule: matching.induct) fastforce+

lemma matching_order:
  "matching M i v ps \<Longrightarrow> (x, y) \<in> set ps \<Longrightarrow> (x', y') \<in> set ps \<Longrightarrow> (x < x' \<longrightarrow> y < y') \<and> (x = x' \<longrightarrow> y = y')"
proof (induction M i v ps rule: matching.induct)
  case (2 M i v a b ps)
  then have tail: "matching M (a - 1) (b - 1) ps" "0 < a" "0 < b" by simp_all
  have below: "u < a \<and> w < b" if "(u, w) \<in> set ps" for u w
    using matching_bounds [OF tail(1) that] tail(2,3) by linarith
  have mem: "(x, y) = (a, b) \<or> (x, y) \<in> set ps" "(x', y') = (a, b) \<or> (x', y') \<in> set ps"
    using "2.prems"(2,3) by auto
  show ?case
  proof (cases "(x, y) \<in> set ps \<and> (x', y') \<in> set ps")
    case True
    with "2.IH" [OF tail(1)] show ?thesis by blast
  next
    case False
    with mem below [of x y] below [of x' y'] show ?thesis by auto
  qed
qed simp

lemma matching_distinct: "matching M i v ps \<Longrightarrow> distinct (map fst ps)"
proof (induction M i v ps rule: matching.induct)
  case (2 M i v a b ps)
  then have "matching M (a - 1) (b - 1) ps" "0 < a" by simp_all
  with "2.IH" show ?case using matching_bounds [of M "a - 1" "b - 1" ps a] by fastforce
qed simp

lemma fold_set_pair:
  "matching M i v ps \<Longrightarrow> i + pref < length J \<Longrightarrow>
   length (fold (set_pair pref) ps J) = length J \<and>
   (\<forall>x y. (x, y) \<in> set ps \<longrightarrow> fold (set_pair pref) ps J ! (x + pref) = y + pref) \<and>
   (\<forall>k. (\<forall>x y. (x, y) \<in> set ps \<longrightarrow> k \<noteq> x + pref) \<longrightarrow> fold (set_pair pref) ps J ! k = J ! k)"
proof (induction M i v ps arbitrary: J rule: matching.induct)
  case (2 M i v a b ps)
  then have ab: "matching M (a - 1) (b - 1) ps" "0 < a" "a \<le> i" by simp_all
  let ?J = "J[a + pref := b + pref]"
  have "a - 1 + pref < length ?J" using "2.prems"(2) ab by simp
  from "2.IH" [OF ab(1) this]
  have IH: "length (fold (set_pair pref) ps ?J) = length ?J"
    "\<And>x y. (x, y) \<in> set ps \<Longrightarrow> fold (set_pair pref) ps ?J ! (x + pref) = y + pref"
    "\<And>k. (\<And>x y. (x, y) \<in> set ps \<Longrightarrow> k \<noteq> x + pref) \<Longrightarrow> fold (set_pair pref) ps ?J ! k = ?J ! k"
    by blast+
  have ne: "a \<noteq> x" if "(x, y) \<in> set ps" for x y using matching_bounds [OF ab(1) that] ab(2) by linarith
  have "fold (set_pair pref) ps ?J ! (a + pref) = ?J ! (a + pref)" using ne by (intro IH(3)) auto
  also have "\<dots> = b + pref" using "2.prems"(2) ab by simp
  finally have a: "fold (set_pair pref) ps ?J ! (a + pref) = b + pref" .
  have "fold (set_pair pref) ps ?J ! k = J ! k" if k: "\<forall>x y. (x, y) \<in> set ((a, b) # ps) \<longrightarrow> k \<noteq> x + pref" for k
  proof -
    have "fold (set_pair pref) ps ?J ! k = ?J ! k" using k by (intro IH(3)) auto
    moreover have "k \<noteq> a + pref" using k by auto
    ultimately show ?thesis by simp
  qed
  with IH(1,2) a show ?case by auto
qed simp

text \<open>
  A match vector: increasing where it is not 0, and pairing only lines that are related by \<open>E\<close>.
\<close>

definition match_vec :: "(nat \<Rightarrow> nat \<Rightarrow> bool) \<Rightarrow> nat \<Rightarrow> nat \<Rightarrow> nat list \<Rightarrow> bool" where
  "match_vec E n m J \<longleftrightarrow>
     length J = n + 2 \<and>
     (\<forall>k. 0 < k \<and> k \<le> n \<and> J ! k \<noteq> 0 \<longrightarrow> J ! k \<le> m \<and> E k (J ! k)) \<and>
     (\<forall>k k'. 0 < k \<and> k < k' \<and> k' \<le> n \<and> J ! k \<noteq> 0 \<and> J ! k' \<noteq> 0 \<longrightarrow> J ! k < J ! k')"

text \<open>The vector of a matching between the common prefix and the common suffix.\<close>

lemma unravel_correct:
  assumes ps: "chain cl p ps" "matching M (n - pref - suff) (m - pref - suff) ps"
    and E: "\<And>x y. 0 < x \<Longrightarrow> y \<in> set (M x) \<Longrightarrow> E (pref + x) (pref + y)"
    and le: "pref + suff \<le> n" "pref + suff \<le> m"
    and Epre: "\<And>k. 0 < k \<Longrightarrow> k \<le> pref \<Longrightarrow> E k k"
    and Esuf: "\<And>k. k < suff \<Longrightarrow> E (n - k) (m - k)"
  obtains J where "unravel n m pref suff cl p = Some J" "match_vec E n m J"
    "card {k. 0 < k \<and> k \<le> n \<and> J ! k \<noteq> 0} = pref + length ps + suff"
proof -
  define J0 where "J0 = map (\<lambda>i. if i \<le> pref then i else if i > n - suff then i + m - n else 0) [0..<n + 1] @ [0]"
  define J where "J = fold (set_pair pref) ps J0"
  have J0: "length J0 = n + 2"
    "\<And>k. k \<le> n \<Longrightarrow> J0 ! k = (if k \<le> pref then k else if n - suff < k then k + m - n else 0)"
    unfolding J0_def by (simp_all add: nth_append del: upt_Suc)
  have "n - pref - suff + pref < length J0" using J0(1) le by simp
  note f = fold_set_pair [OF ps(2) this, folded J_def]
  have J: "length J = n + 2" "\<And>x y. (x, y) \<in> set ps \<Longrightarrow> J ! (x + pref) = y + pref"
    "\<And>k. (\<And>x y. (x, y) \<in> set ps \<Longrightarrow> k \<noteq> x + pref) \<Longrightarrow> J ! k = J0 ! k"
    using f J0(1) by (simp, blast, blast)
  have u: "unravel n m pref suff cl p = Some J"
    unfolding unravel_def J0_def [symmetric] J_def by (rule unravel_chain_eq [OF ps(1)])
  note b = matching_bounds [OF ps(2)]
  have low: "J ! k = k" if "0 < k" "k \<le> pref" for k
  proof -
    have "J ! k = J0 ! k" using b that by (intro J(3)) fastforce
    with that le J0(2) [of k] show ?thesis by simp
  qed
  have high: "J ! k = k + m - n" if "n - suff < k" "k \<le> n" for k
  proof -
    have "k \<noteq> x + pref" if "(x, y) \<in> set ps" for x y using b [OF that] \<open>n - suff < k\<close> le by linarith
    then have "J ! k = J0 ! k" by (rule J(3))
    with that le J0(2) [of k] show ?thesis by simp
  qed
  have mid: "J ! k \<noteq> 0 \<longleftrightarrow> k - pref \<in> fst ` set ps"
    "J ! k \<noteq> 0 \<Longrightarrow> (k - pref, J ! k - pref) \<in> set ps \<and> pref < J ! k"
    if k: "pref < k" "k \<le> n - suff" for k
  proof -
    have yes: "J ! k = y + pref \<and> 0 < y" if "(k - pref, y) \<in> set ps" for y
      using J(2) [OF that] b [OF that] k by simp
    have no: "J ! k = 0" if "k - pref \<notin> fst ` set ps"
    proof -
      have "J ! k = J0 ! k" using that by (intro J(3)) (force simp: image_iff)
      with k J0(2) [of k] show ?thesis by simp
    qed
    show "J ! k \<noteq> 0 \<longleftrightarrow> k - pref \<in> fst ` set ps" using yes no by fastforce
    show "(k - pref, J ! k - pref) \<in> set ps \<and> pref < J ! k" if "J ! k \<noteq> 0"
    proof -
      obtain y where "(k - pref, y) \<in> set ps" using no \<open>J ! k \<noteq> 0\<close> by fastforce
      with yes [OF this] show ?thesis by simp
    qed
  qed
  have mv: "match_vec E n m J"
    unfolding match_vec_def
  proof (intro conjI allI impI)
    show "length J = n + 2" by (rule J(1))
  next
    fix k assume k: "0 < k \<and> k \<le> n \<and> J ! k \<noteq> 0"
    consider "k \<le> pref" | "n - suff < k" | "pref < k" "k \<le> n - suff" by linarith
    then have "J ! k \<le> m \<and> E k (J ! k)"
    proof cases
      case 1
      then show ?thesis using low [of k] Epre [of k] k le by simp
    next
      case 2
      then have "n - k < suff" "k + m - n = m - (n - k)" "n - (n - k) = k" "k + m - n \<le> m" using k le by linarith+
      then show ?thesis using high [OF 2] Esuf [of "n - k"] k by simp
    next
      case 3
      then have e: "(k - pref, J ! k - pref) \<in> set ps" "pref < J ! k" using mid(2) k by simp_all
      then have "J ! k \<le> m" using b [OF e(1)] le by linarith
      moreover have "E (pref + (k - pref)) (pref + (J ! k - pref))" using b [OF e(1)] by (intro E) simp_all
      ultimately show ?thesis using 3 e(2) by simp
    qed
    then show "J ! k \<le> m" "E k (J ! k)" by simp_all
  next
    fix k k' assume k: "0 < k \<and> k < k' \<and> k' \<le> n \<and> J ! k \<noteq> 0 \<and> J ! k' \<noteq> 0"
    have range: "pref < J ! l" "J ! l \<le> m - suff" if "pref < l" "l \<le> n - suff" "J ! l \<noteq> 0" for l
    proof -
      note e = mid(2) [OF that]
      show "pref < J ! l" using e by simp
      show "J ! l \<le> m - suff" using b [of "l - pref" "J ! l - pref"] e le by linarith
    qed
    consider "k' \<le> pref" | "k \<le> pref" "pref < k'" "k' \<le> n - suff" | "k \<le> pref" "n - suff < k'"
      | "pref < k" "k' \<le> n - suff" | "pref < k" "k \<le> n - suff" "n - suff < k'" | "n - suff < k" by linarith
    then show "J ! k < J ! k'"
    proof cases
      case 1
      then show ?thesis using low [of k] low [of k'] k by simp
    next
      case 2
      then show ?thesis using low [of k] range(1) [of k'] k by simp
    next
      case 3
      then show ?thesis using low [of k] high [of k'] k le by simp
    next
      case 4
      then have e: "(k - pref, J ! k - pref) \<in> set ps" "(k' - pref, J ! k' - pref) \<in> set ps"
        "pref < J ! k" "pref < J ! k'"
        using mid(2) [of k] mid(2) [of k'] k by simp_all
      have "k - pref < k' - pref" using 4 k by linarith
      with matching_order [OF ps(2) e(1,2)] e(3,4) show ?thesis by linarith
    next
      case 5
      then show ?thesis using range(2) [of k] high [of k'] k le by simp
    next
      case 6
      then have "J ! k = k + m - n" "J ! k' = k' + m - n" using high k by simp_all
      moreover have "k + m - n < k' + m - n" using 6 k le by linarith
      ultimately show ?thesis by simp
    qed
  qed
  have "{k. 0 < k \<and> k \<le> n \<and> J ! k \<noteq> 0} = {1..pref} \<union> (\<lambda>x. x + pref) ` fst ` set ps \<union> {n - suff<..n}"
  proof (rule set_eqI)
    fix k
    have range: "pref < x + pref \<and> x + pref \<le> n - suff" if "x \<in> fst ` set ps" for x
    proof -
      from that obtain y where "(x, y) \<in> set ps" by (metis imageE prod.collapse)
      from b [OF this] le show ?thesis by linarith
    qed
    consider "k = 0" | "0 < k" "k \<le> pref" | "pref < k" "k \<le> n - suff" | "n - suff < k" "k \<le> n" | "n < k" by linarith
    then show "k \<in> {k. 0 < k \<and> k \<le> n \<and> J ! k \<noteq> 0} \<longleftrightarrow>
        k \<in> {1..pref} \<union> (\<lambda>x. x + pref) ` fst ` set ps \<union> {n - suff<..n}"
    proof cases
      case 3
      have "k \<in> (\<lambda>x. x + pref) ` fst ` set ps \<longleftrightarrow> k - pref \<in> fst ` set ps"
        using 3 by (force simp: image_iff)
      then show ?thesis using 3 mid(1) [OF 3] le by auto
    next
      case 4
      then show ?thesis using high [OF 4] le by auto
    qed (use range low le in \<open>fastforce+\<close>)
  qed
  moreover have "card ({1..pref} \<union> (\<lambda>x. x + pref) ` fst ` set ps \<union> {n - suff<..n}) =
      card {1..pref} + card ((\<lambda>x. x + pref) ` fst ` set ps) + card {n - suff<..n}"
  proof -
    have in_range: "pref < x + pref \<and> x + pref \<le> n - suff" if "(x, y) \<in> set ps" for x y
      using b [OF that] le by linarith
    have "{1..pref} \<inter> (\<lambda>x. x + pref) ` fst ` set ps = {}" using in_range by fastforce
    moreover have "({1..pref} \<union> (\<lambda>x. x + pref) ` fst ` set ps) \<inter> {n - suff<..n} = {}"
      using in_range le by fastforce
    ultimately show ?thesis by (simp add: card_Un_disjoint)
  qed
  moreover have "card ((\<lambda>x. x + pref) ` fst ` set ps) = length ps"
    using matching_distinct [OF ps(2)] distinct_card [of "map fst ps"]
    by (subst card_image) (auto simp: inj_on_def)
  ultimately have "card {k. 0 < k \<and> k \<le> n \<and> J ! k \<noteq> 0} = pref + length ps + suff" using le by simp
  with that u mv show thesis by blast
qed

section \<open>Common subsequences\<close>

lemma subseq_revI: "subseq xs ys \<Longrightarrow> subseq (rev xs) (rev ys)"
proof (induction xs ys rule: list_emb.induct)
  case (list_emb_Cons2 x y xs ys)
  then show ?case by (simp add: subseq_append')
qed auto

lemma subseq_rev: "subseq (rev xs) (rev ys) = subseq xs ys"
  using subseq_revI [of xs ys] subseq_revI [of "rev xs" "rev ys"] by auto

lemma subseq_snocE:
  assumes "subseq (zs @ [z]) (xs @ [x])"
  shows "subseq (zs @ [z]) xs \<or> z = x \<and> subseq zs xs"
proof -
  have "subseq (z # rev zs) (x # rev xs)" using subseq_revI [OF assms] by simp
  then have "subseq (z # rev zs) (rev xs) \<or> z = x \<and> subseq (rev zs) (rev xs)"
    by (cases "z = x") auto
  then show ?thesis using subseq_rev [of "zs @ [z]" xs] subseq_rev [of zs xs] by simp
qed

lemma subseq_last:
  "subseq (zs @ [z]) (map v [1..<y + 1]) \<Longrightarrow> \<exists>y'>0. y' \<le> y \<and> v y' = z \<and> subseq zs (map v [1..<y'])"
proof (induction y)
  case (Suc y)
  then have "subseq (zs @ [z]) (map v [1..<y + 1] @ [v (Suc y)])" by simp
  from subseq_snocE [OF this] show ?case
  proof
    assume "subseq (zs @ [z]) (map v [1..<y + 1])"
    from Suc.IH [OF this] show ?thesis by (auto intro: le_SucI)
  next
    assume "z = v (Suc y) \<and> subseq zs (map v [1..<y + 1])"
    then show ?thesis by (intro exI [of _ "Suc y"]) (simp del: upt_Suc)
  qed
qed simp

text \<open>A common subsequence reaches the end of both files.\<close>

lemma subseq_reach:
  assumes M: "\<And>x y. 0 < x \<Longrightarrow> x \<le> n \<Longrightarrow> 0 < y \<Longrightarrow> y \<le> m \<Longrightarrow> v y = u x \<Longrightarrow> y \<in> set (M x)"
  shows "i \<le> n \<Longrightarrow> y \<le> m \<Longrightarrow> subseq zs (map u [1..<i + 1]) \<Longrightarrow> subseq zs (map v [1..<y + 1]) \<Longrightarrow>
    reach M i (length zs) y"
proof (induction i arbitrary: zs y)
  case (Suc i)
  show ?case
  proof (cases zs rule: rev_cases)
    case (snoc zs' z)
    then have "subseq (zs' @ [z]) (map u [1..<i + 1] @ [u (Suc i)])" using Suc.prems(3) by simp
    from subseq_snocE [OF this] show ?thesis
    proof
      assume "subseq (zs' @ [z]) (map u [1..<i + 1])"
      then have "reach M i (length zs) y" using Suc.prems snoc by (intro Suc.IH) simp_all
      then show ?thesis unfolding reach.simps(2) by (rule disjI1)
    next
      assume z: "z = u (Suc i) \<and> subseq zs' (map u [1..<i + 1])"
      obtain y' where y': "0 < y'" "y' \<le> y" "v y' = z" "subseq zs' (map v [1..<y'])"
        using subseq_last [of zs' z v y] Suc.prems(4) snoc by auto
      have "reach M i (length zs') (y' - 1)"
      proof (rule Suc.IH)
        show "subseq zs' (map u [1..<i + 1])" using z by simp
        show "subseq zs' (map v [1..<y' - 1 + 1])" using y' by simp
      qed (use Suc.prems y' in simp_all)
      moreover have "y' \<in> set (M (Suc i))" using Suc.prems y' z by (intro M) simp_all
      ultimately show ?thesis using y' snoc by (auto simp: reach.simps(2))
    qed
  qed simp
qed simp

lemma common_prefix:
  "subseq zs (ps @ xs) \<Longrightarrow> subseq zs (ps @ ys) \<Longrightarrow>
   \<exists>zs'. subseq zs' xs \<and> subseq zs' ys \<and> length zs \<le> length ps + length zs'"
proof (induction ps arbitrary: zs)
  case (Cons p ps)
  show ?case
  proof (cases zs)
    case (Cons z zs')
    then have "subseq zs' (ps @ xs) \<and> subseq zs' (ps @ ys)"
      using Cons.prems by (auto split: if_splits dest: subseq_Cons')
    with Cons.IH [of zs'] Cons show ?thesis by auto
  qed auto
qed auto

lemma common_context:
  assumes "subseq zs (ps @ xs @ ss)" "subseq zs (ps @ ys @ ss)"
  shows "\<exists>zs'. subseq zs' xs \<and> subseq zs' ys \<and> length zs \<le> length ps + length zs' + length ss"
proof -
  obtain z1 where z1: "subseq z1 (xs @ ss)" "subseq z1 (ys @ ss)" "length zs \<le> length ps + length z1"
    using common_prefix [OF assms] by blast
  have "subseq (rev z1) (rev ss @ rev xs)" "subseq (rev z1) (rev ss @ rev ys)"
    using subseq_revI [OF z1(1)] subseq_revI [OF z1(2)] by simp_all
  then obtain z2 where z2: "subseq z2 (rev xs)" "subseq z2 (rev ys)" "length (rev z1) \<le> length (rev ss) + length z2"
    using common_prefix by blast
  then have "subseq (rev z2) xs" "subseq (rev z2) ys"
    using z2(1,2) subseq_rev [of z2 "rev xs"] subseq_rev [of z2 "rev ys"]
    using subseq_rev [of "rev z2" xs] subseq_rev [of "rev z2" ys] by simp_all
  with z1(3) z2(3) show ?thesis by (intro exI [of _ "rev z2"]) simp
qed

section \<open>Matching two files\<close>

definition same_value :: "dline list \<Rightarrow> dline list \<Rightarrow> nat \<Rightarrow> nat \<Rightarrow> bool" where
  "same_value p q k l \<longleftrightarrow> d_value (p ! k) = d_value (q ! l)"

lemma map_split: "a \<le> b \<Longrightarrow> b \<le> c \<Longrightarrow> map f [a..<c] = map f [a..<b] @ map f [b..<c]"
  using upt_add_eq_append [of a b "c - b"] by simp

lemma map_shift: "map (\<lambda>i. f (k + i)) [1..<n + 1] = map f [k + 1..<k + n + 1]"
proof -
  have "map (\<lambda>i. f (k + i)) [1..<n + 1] ! j = map f [k + 1..<k + n + 1] ! j" if "j < n" for j
    using that by (simp del: upt_Suc)
  then show ?thesis by (intro nth_equalityI) (simp_all del: upt_Suc)
qed

theorem match_lines_correct:
  assumes p: "n + 3 \<le> length p" and q: "m + 3 \<le> length q"
    and nonzero: "\<And>l. 0 < l \<Longrightarrow> l \<le> m \<Longrightarrow> d_value (q ! l) \<noteq> 0"
  obtains J where "match_lines fl (n, p) (m, q) = Some J" "match_vec (same_value p q) n m J"
    "d_minimal fl \<and> m < 2 ^ 32 \<and> subseq zs (map (\<lambda>k. d_value (p ! k)) [1..<n + 1]) \<and>
       subseq zs (map (\<lambda>l. d_value (q ! l)) [1..<m + 1]) \<longrightarrow> length zs \<le> card {k. 0 < k \<and> k \<le> n \<and> J ! k \<noteq> 0}"
proof -
  define pref where "pref = prune_prefix p n q m 0"
  define suff where "suff = prune_suffix p n q m pref 0"
  define sn where "sn = n - pref - suff"
  define sm where "sm = m - pref - suff"
  have pre: "pref \<le> n" "pref \<le> m" "\<And>k. 0 < k \<Longrightarrow> k \<le> pref \<Longrightarrow> d_value (p ! k) = d_value (q ! k)"
    using prune_prefix_correct [of 0 n m p q] by (simp_all add: pref_def)
  have suf: "suff \<le> n - pref" "suff \<le> m - pref" "\<And>k. k < suff \<Longrightarrow> d_value (p ! (n - k)) = d_value (q ! (m - k))"
    using prune_suffix_correct [of 0 n pref m p q] by (simp_all add: suff_def)
  let ?u = "\<lambda>i. d_value (p ! (pref + i))" and ?v = "\<lambda>i. d_value (q ! (pref + i))"
  let ?a = "shellsort (number_lines sn (drop pref p)) sn" and ?b = "shellsort (number_lines sm (drop pref q)) sm"
  have a: "holds_lines sn ?u ?a" "sorted_but sn 0 ?a"
    using shellsort_correct(1,4) [OF number_lines_holds(1)] p pre(1) by (simp_all add: sn_def)
  have b: "holds_lines sm ?v ?b" "sorted_but sm 0 ?b" "length ?b = length q - pref"
    using shellsort_correct(1,2,4) [OF number_lines_holds(1)] number_lines_holds(2) q pre(2) by (simp_all add: sm_def)
  have lb: "sm + 1 < length ?b" using b(3) q pre(2) by (simp add: sm_def)
  have nz: "?v y \<noteq> 0" if "0 < y" "y \<le> sm" for y using that suf(2) pre(2) by (intro nonzero) (simp_all add: sm_def)
  obtain a' mem where e: "equiv_lines ?a sn ?b sm = Some (a', mem)"
    and classes: "\<And>x. 0 < x \<Longrightarrow> x \<le> sn \<Longrightarrow> set (matches (unsort a' sn) mem x) = {y. 0 < y \<and> y \<le> sm \<and> ?v y = ?u x}"
      "\<And>x. 0 < x \<Longrightarrow> x \<le> sn \<Longrightarrow> sorted_wrt (<) (0 # matches (unsort a' sn) mem x)"
    using equiv_correct [OF a b(1,2) lb nz] by blast
  let ?st = "stone fl (unsort a' sn) sn mem"
  obtain M where M: "\<And>i. prefix (M i) (matches (unsort a' sn) mem i)" "stone_inv (sn + 2) M sn ?st"
    "\<And>i. 0 < i \<Longrightarrow> i \<le> sn \<Longrightarrow> length (matches (unsort a' sn) mem i) \<le> stone_bound fl sn \<Longrightarrow>
       M i = matches (unsort a' sn) mem i"
    using stone_correct [of sn "unsort a' sn" mem fl, OF classes(2)] by metis
  obtain ps where ps: "chain (clist ?st) (klist ?st ! st_k ?st) ps" "length ps = st_k ?st"
    "matching M sn (best_y ?st (st_k ?st)) ps"
    using stone_invD(3) [OF M(2) order_refl] by (auto simp: stands_for_def)
  have sub: "y \<in> set (matches (unsort a' sn) mem x)" if "y \<in> set (M x)" for x y
    using M(1) [of x] that by (auto simp: prefix_def)
  have "0 < x \<and> x \<le> sn" if "(x, y) \<in> set ps" for x y using matching_bounds [OF ps(3) that] by simp
  have mps: "matching M sn sm ps"
  proof (cases ps)
    case (Cons xy ps')
    obtain x y where xy: "xy = (x, y)" by fastforce
    have "0 < x" "x \<le> sn" "y \<in> set (M x)" using ps(3) Cons xy by simp_all
    then have "y \<le> sm" using sub classes(1) [of x] by auto
    with ps(3) Cons xy show ?thesis by simp
  qed simp
  define M' where "M' x = (if x \<le> sn then M x else [])" for x
  have mps': "matching M' sn sm ps" by (rule matching_sub [OF mps]) (simp add: M'_def)
  have E: "same_value p q (pref + x) (pref + y)" if "0 < x" "y \<in> set (M' x)" for x y
    using that sub [of y x] classes(1) [of x] by (auto simp: M'_def same_value_def split: if_splits)
  obtain J where J: "unravel n m pref suff (clist ?st) (klist ?st ! st_k ?st) = Some J"
    "match_vec (same_value p q) n m J" "card {k. 0 < k \<and> k \<le> n \<and> J ! k \<noteq> 0} = pref + length ps + suff"
  proof (rule unravel_correct [where E = "same_value p q" and M = M', OF ps(1) mps' [unfolded sn_def sm_def] E])
    show "pref + suff \<le> n" "pref + suff \<le> m" using pre(1,2) suf(1,2) by simp_all
    show "same_value p q k k" if "0 < k" "k \<le> pref" for k using pre(3) [OF that] by (simp add: same_value_def)
    show "same_value p q (n - k) (m - k)" if "k < suff" for k using suf(3) [OF that] by (simp add: same_value_def)
  qed
  have "match_lines fl (n, p) (m, q) = Some J"
    by (simp only: match_lines_def Let_def prod.case pref_def [symmetric] suff_def [symmetric] sn_def [symmetric]
        sm_def [symmetric] e option.case J(1))
  moreover have "length zs \<le> card {k. 0 < k \<and> k \<le> n \<and> J ! k \<noteq> 0}"
    if mini: "d_minimal fl" "m < 2 ^ 32" and zs: "subseq zs (map (\<lambda>k. d_value (p ! k)) [1..<n + 1])"
      "subseq zs (map (\<lambda>l. d_value (q ! l)) [1..<m + 1])"
  proof -
    have full: "M x = matches (unsort a' sn) mem x" if x: "0 < x" "x \<le> sn" for x
    proof (rule M(3) [OF x])
      have "distinct (matches (unsort a' sn) mem x)"
        using classes(2) [OF x] strict_sorted_iff by auto
      then have "length (matches (unsort a' sn) mem x) = card {y. 0 < y \<and> y \<le> sm \<and> ?v y = ?u x}"
        using classes(1) [OF x] distinct_card by fastforce
      also have "\<dots> \<le> card {1..sm}" by (intro card_mono) auto
      finally show "length (matches (unsort a' sn) mem x) \<le> stone_bound fl sn"
        using mini by (simp add: stone_bound_def sm_def)
    qed
    have mid: "map (\<lambda>i. d_value (r ! (pref + i))) [1..<s + 1] = map (\<lambda>k. d_value (r ! k)) [pref + 1..<pref + s + 1]" for r s
      by (rule map_shift)
    have p3: "map (\<lambda>k. d_value (p ! k)) [1..<n + 1] =
        map (\<lambda>k. d_value (p ! k)) [1..<pref + 1] @ map ?u [1..<sn + 1] @ map (\<lambda>k. d_value (p ! k)) [n - suff + 1..<n + 1]"
      unfolding mid using map_split [of 1 "pref + 1" "n + 1" "\<lambda>k. d_value (p ! k)"]
        map_split [of "pref + 1" "n - suff + 1" "n + 1" "\<lambda>k. d_value (p ! k)"] pre(1) suf(1)
      by (simp add: sn_def del: upt_Suc)
    have q3: "map (\<lambda>k. d_value (q ! k)) [1..<m + 1] =
        map (\<lambda>k. d_value (q ! k)) [1..<pref + 1] @ map ?v [1..<sm + 1] @ map (\<lambda>k. d_value (q ! k)) [m - suff + 1..<m + 1]"
      unfolding mid using map_split [of 1 "pref + 1" "m + 1" "\<lambda>k. d_value (q ! k)"]
        map_split [of "pref + 1" "m - suff + 1" "m + 1" "\<lambda>k. d_value (q ! k)"] pre(2) suf(2)
      by (simp add: sm_def del: upt_Suc)
    have pq1: "map (\<lambda>k. d_value (p ! k)) [1..<pref + 1] = map (\<lambda>k. d_value (q ! k)) [1..<pref + 1]"
      using pre(3) by (auto simp del: upt_Suc)
    have pq2: "map (\<lambda>k. d_value (p ! k)) [n - suff + 1..<n + 1] = map (\<lambda>k. d_value (q ! k)) [m - suff + 1..<m + 1]"
    proof (rule nth_equalityI)
      fix i assume "i < length (map (\<lambda>k. d_value (p ! k)) [n - suff + 1..<n + 1])"
      then have "i < suff" "n - suff + 1 + i = n - (suff - 1 - i)" "m - suff + 1 + i = m - (suff - 1 - i)"
        using suf(1,2) by (simp_all del: upt_Suc)
      with suf(3) [of "suff - 1 - i"] suf(1,2) show "map (\<lambda>k. d_value (p ! k)) [n - suff + 1..<n + 1] ! i =
          map (\<lambda>k. d_value (q ! k)) [m - suff + 1..<m + 1] ! i" by (simp del: upt_Suc)
    qed (use suf(1,2) in \<open>simp del: upt_Suc\<close>)
    obtain zs' where zs': "subseq zs' (map ?u [1..<sn + 1])" "subseq zs' (map ?v [1..<sm + 1])"
      "length zs \<le> pref + length zs' + suff"
      using common_context [OF zs(1) [unfolded p3] zs(2) [unfolded q3, folded pq1 pq2]] suf(1) by (auto simp del: upt_Suc)
    have "reach M sn (length zs') sm"
      using full classes(1) by (intro subseq_reach [OF _ order_refl order_refl zs'(1,2)]) auto
    then have "length zs' \<le> st_k ?st"
      using stone_invD(5) [OF M(2)] reach_shorter [of M sn "length zs'" sm "Suc (st_k ?st)"] by (meson not_less_eq_eq)
    with zs'(3) J(3) ps(2) show ?thesis by simp
  qed
  ultimately show thesis using that J(2) by blast
qed

end
