(* ===== verification/DiffCheck.thy ===== *)
theory DiffCheck
  imports DiffMatch
begin

text \<open>
  The comparison of the matched lines with the files. It leaves the pairs of equal lines, takes
  those out whose lines only have the same hash, and finds where the lines of both files begin.
\<close>

section \<open>One pair of lines\<close>

lemma skipline_line: "NL \<notin> set l \<Longrightarrow> skipline (l @ NL # f) = (length l + 1, f)"
  by (induction l) auto

lemma check_exact_line:
  "NL \<notin> set l1 \<Longrightarrow> NL \<notin> set l2 \<Longrightarrow>
   check_exact \<lparr>p_old = l1 @ NL # f1, p_new = l2 @ NL # f2, p_ctold = k1, p_ctnew = k2\<rparr> =
   (l1 = l2, \<lparr>p_old = f1, p_new = f2, p_ctold = k1 + length l1 + 1, p_ctnew = k2 + length l2 + 1\<rparr>)"
proof (induction l1 arbitrary: l2 k1 k2)
  case Nil
  then show ?case
    by (cases l2)
      (subst check_exact.simps, auto simp: get_both_def count_both_def fgetchar_def jackpot_def skip_new_def skipline_line)+
next
  case (Cons c l1)
  show ?case
  proof (cases l2)
    case Nil
    with Cons.prems show ?thesis
      by (subst check_exact.simps)
        (auto simp: get_both_def count_both_def fgetchar_def jackpot_def skip_old_def skipline_line)
  next
    case (Cons d l2)
    with Cons.prems Cons.IH [of l2 "Suc k1" "Suc k2"] show ?thesis
      by (subst check_exact.simps)
        (auto simp: get_both_def count_both_def fgetchar_def jackpot_def skip_old_def skip_new_def skipline_line)
  qed
qed

section \<open>The loop\<close>

definition file_ends :: "nat \<Rightarrow> string list \<Rightarrow> nat list \<Rightarrow> bool" where
  "file_ends k ls ix \<longleftrightarrow>
     length ix = length ls + 2 \<and> k \<le> length ls \<and> (\<forall>i\<le>k. ix ! i = length (file_of (take i ls)))"

lemma file_ends_step:
  assumes "file_ends k ls ix" "k < length ls"
  shows "file_ends (Suc k) ls (ix[Suc k := ix ! k + length (ls ! k) + 1])"
    "file_ends k ls (ix[Suc k := x])"
  using assms by (auto simp: file_ends_def take_Suc_conv_app_nth nth_list_update le_Suc_eq)

definition no_newline :: "string list \<Rightarrow> bool" where
  "no_newline ls \<longleftrightarrow> (\<forall>l\<in>set ls. NL \<notin> set l)"

lemma lines_ok_newline: "lines_ok fl ls \<Longrightarrow> no_newline ls"
  by (auto simp: lines_ok_def no_newline_def)

text \<open>The entries of the match vector after the check.\<close>

definition checked :: "string list \<Rightarrow> string list \<Rightarrow> nat list \<Rightarrow> nat \<Rightarrow> nat" where
  "checked A B J k = (if J ! k \<noteq> 0 \<and> A ! (k - 1) = B ! (J ! k - 1) then J ! k else 0)"

text \<open>After \<open>i\<close> lines of the old and \<open>j\<close> lines of the new file.\<close>

definition check_inv :: "string list \<Rightarrow> string list \<Rightarrow> nat list \<Rightarrow> nat \<Rightarrow> nat \<Rightarrow> dcheck \<Rightarrow> bool" where
  "check_inv A B J i j st \<longleftrightarrow>
     ck_j st = j + 1 \<and> file_ends i A (ixold st) \<and> file_ends j B (ixnew st) \<and>
     ck_pair st = \<lparr>p_old = file_of (drop i A), p_new = file_of (drop j B),
       p_ctold = ixold st ! i, p_ctnew = ixnew st ! j\<rparr> \<and>
     length (ck_J st) = length J \<and>
     (\<forall>k<length J. ck_J st ! k = (if 0 < k \<and> k \<le> i then checked A B J k else J ! k))"

lemma file_of_drop: "i < length A \<Longrightarrow> file_of (drop i A) = A ! i @ NL # file_of (drop (Suc i) A)"
  by (metis Cons_nth_drop_Suc file_of_simps(2))

lemma check_skip_inv:
  assumes "check_inv A B J i j st" "no_newline B" "k \<le> length B + 1"
  shows "check_inv A B J i (max j (k - 1)) (check_skip k st)"
  using assms
proof (induction "k - j" arbitrary: j st rule: less_induct)
  case less
  show ?case
  proof (cases "j + 1 < k")
    case True
    then have j: "j < length B" "NL \<notin> set (B ! j)" using less.prems(2,3) by (auto simp: no_newline_def)
    have "check_inv A B J i (Suc j) (ck_skip_new st)"
      using less.prems(1) j file_ends_step [of j B "ixnew st"]
      by (auto simp: check_inv_def ck_skip_new_def skip_new_def Let_def file_of_drop skipline_line file_ends_def)
    from less.hyps [OF _ this less.prems(2,3)] True
    have "check_inv A B J i (max (Suc j) (k - 1)) (check_skip k (ck_skip_new st))" by auto
    moreover have "check_skip k st = check_skip k (ck_skip_new st)"
      using True less.prems(1) by (subst check_skip.simps) (simp add: check_inv_def)
    moreover have "max j (k - 1) = max (Suc j) (k - 1)" using True by simp
    ultimately show ?thesis by simp
  next
    case False
    then have "check_skip k st = st" using less.prems(1) by (subst check_skip.simps) (simp add: check_inv_def)
    moreover have "max j (k - 1) = j" using False by simp
    ultimately show ?thesis using less.prems(1) by simp
  qed
qed

lemma check_line_inv:
  assumes inv: "check_inv A B J i j st" and ls: "no_newline A" "no_newline B" and fl: "exact fl"
    and i: "i < length A" "length J = length A + 2" and J: "J ! Suc i \<noteq> 0 \<Longrightarrow> j < J ! Suc i \<and> J ! Suc i \<le> length B"
  shows "check_inv A B J (Suc i) (if J ! Suc i = 0 then j else J ! Suc i) (check_line fl (Suc i) st)"
proof -
  have l: "NL \<notin> set (A ! i)" using i ls(1) by (auto simp: no_newline_def)
  have now: "ck_J st ! Suc i = J ! Suc i" using inv i by (simp add: check_inv_def)
  have e: "file_ends (Suc i) A ((ixold s)[Suc i := ixold s ! i + length (A ! i) + 1])"
    if "check_inv A B J i j' s" for s j'
    using that i file_ends_step(1) by (auto simp: check_inv_def)
  show ?thesis
  proof (cases "J ! Suc i = 0")
    case True
    have "checked A B J (Suc i) = 0" using True by (simp add: checked_def)
    moreover have "check_line fl (Suc i) st = st\<lparr>ck_pair := skip_old (ck_pair st),
        ixold := (ixold st)[Suc i := ixold st ! i + length (A ! i) + 1]\<rparr>"
      "skip_old (ck_pair st) = (ck_pair st)\<lparr>p_old := file_of (drop (Suc i) A),
         p_ctold := ixold st ! i + length (A ! i) + 1\<rparr>"
      using inv i l now True by (simp_all add: check_inv_def check_line_def skip_old_def Let_def file_of_drop skipline_line)
    moreover have "length (ixold st) = length A + 2" using inv by (simp add: check_inv_def file_ends_def)
    ultimately show ?thesis using True e [OF inv] inv i
      by (simp add: check_inv_def) (auto simp: le_Suc_eq)
  next
    case False
    define y where "y = J ! Suc i"
    define s where "s = check_skip y st"
    have y: "j < y" "y \<le> length B" "0 < y" using J False by (simp_all add: y_def)
    have s: "check_inv A B J i (y - 1) s"
      using check_skip_inv [OF inv ls(2), of y] y by (simp add: s_def max_absorb2)
    have lb: "NL \<notin> set (B ! (y - 1))" "y - 1 < length B" using y ls(2) by (auto simp: no_newline_def)
    have f: "file_ends (Suc (y - 1)) B ((ixnew s)[Suc (y - 1) := ixnew s ! (y - 1) + length (B ! (y - 1)) + 1])"
      using s lb(2) file_ends_step(1) by (auto simp: check_inv_def)
    have p: "check_exact (ck_pair s) =
      (A ! i = B ! (y - 1), \<lparr>p_old = file_of (drop (Suc i) A), p_new = file_of (drop y B),
         p_ctold = ixold s ! i + length (A ! i) + 1, p_ctnew = ixnew s ! (y - 1) + length (B ! (y - 1)) + 1\<rparr>)"
      using s i y check_exact_line [OF l lb(1)] by (simp add: check_inv_def file_of_drop lb(2))
    have c: "checked A B J (Suc i) = (if A ! i = B ! (y - 1) then y else 0)"
      using y by (simp add: checked_def y_def)
    have ck: "ck_j s = y" "length (ck_J s) = length J"
      "\<And>k. k < length J \<Longrightarrow> ck_J s ! k = (if 0 < k \<and> k \<le> i then checked A B J k else J ! k)"
      using s y by (simp_all add: check_inv_def)
    have r: "check_line fl (Suc i) st = s\<lparr>ck_pair := snd (check_exact (ck_pair s)),
        ck_J := (if A ! i = B ! (y - 1) then ck_J s else (ck_J s)[Suc i := 0]),
        ixold := (ixold s)[Suc i := ixold s ! i + length (A ! i) + 1],
        ixnew := (ixnew s)[y := ixnew s ! (y - 1) + length (B ! (y - 1)) + 1], ck_j := y + 1\<rparr>"
      using fl now False by (simp add: check_line_def exact_def Let_def p ck(1) flip: y_def s_def)
    have J': "ck_J (check_line fl (Suc i) st) ! k = (if 0 < k \<and> k \<le> Suc i then checked A B J k else J ! k)"
      if "k < length J" for k
      using that ck(2) ck(3) [of k] i(2) c by (auto simp: r y_def le_Suc_eq nth_list_update)
    show ?thesis
      using e [OF s] f y J' ck(2) False i unfolding check_inv_def
      by (simp add: r p file_ends_def flip: y_def)
  qed
qed

lemma check_correct:
  assumes ls: "no_newline A" "no_newline B" and fl: "exact fl" and J: "match_vec E (length A) (length B) J"
  shows "check_inv A B J (length A) (length B)
    (check fl (length A) (length B) J (file_of A) (file_of B))"
proof -
  let ?s = "\<lambda>i. fold (check_line fl) [1..<i + 1]
    \<lparr>ck_J = J, ixold = replicate (length A + 2) 0, ixnew = replicate (length B + 2) 0, ck_j = 1,
     ck_pair = \<lparr>p_old = file_of A, p_new = file_of B, p_ctold = 0, p_ctnew = 0\<rparr>\<rparr>"
  have "\<exists>j. check_inv A B J i j (?s i) \<and> (j = 0 \<or> (\<exists>k. 0 < k \<and> k \<le> i \<and> J ! k = j))" if "i \<le> length A" for i
    using that
  proof (induction i)
    case 0
    have "check_inv A B J 0 0 (?s 0)" by (simp add: check_inv_def file_ends_def)
    then show ?case by blast
  next
    case (Suc i)
    then obtain j where j: "check_inv A B J i j (?s i)" "j = 0 \<or> (\<exists>k. 0 < k \<and> k \<le> i \<and> J ! k = j)" by auto
    have b: "j < J ! Suc i \<and> J ! Suc i \<le> length B" if "J ! Suc i \<noteq> 0"
    proof
      show "J ! Suc i \<le> length B" using that J Suc.prems by (simp add: match_vec_def)
      from j(2) show "j < J ! Suc i"
      proof
        assume "\<exists>k. 0 < k \<and> k \<le> i \<and> J ! k = j"
        then obtain k where "0 < k" "k < Suc i" "J ! k = j" by auto
        moreover have "Suc i \<le> length A" using Suc.prems by simp
        ultimately show ?thesis using J that by (cases "j = 0") (auto simp: match_vec_def)
      qed (use that in simp)
    qed
    have "check_inv A B J (Suc i) (if J ! Suc i = 0 then j else J ! Suc i) (check_line fl (Suc i) (?s i))"
      using Suc.prems J by (intro check_line_inv [OF j(1) ls fl _ _ b]) (auto simp: match_vec_def)
    moreover have "?s (Suc i) = check_line fl (Suc i) (?s i)" by (simp add: fold_append)
    moreover have "(if J ! Suc i = 0 then j else J ! Suc i) = 0 \<or>
        (\<exists>k. 0 < k \<and> k \<le> Suc i \<and> J ! k = (if J ! Suc i = 0 then j else J ! Suc i))"
      using j(2) by (cases "J ! Suc i = 0") (auto intro: le_SucI)
    ultimately show ?case by (intro exI [of _ "if J ! Suc i = 0 then j else J ! Suc i"]) simp
  qed
  then obtain j where j: "check_inv A B J (length A) j (?s (length A))" by blast
  then have "j \<le> length B" by (simp add: check_inv_def file_ends_def)
  with check_skip_inv [OF j ls(2), of "length B + 1"] show ?thesis by (simp add: check_def)
qed

definition same_line :: "string list \<Rightarrow> string list \<Rightarrow> nat \<Rightarrow> nat \<Rightarrow> bool" where
  "same_line A B k l \<longleftrightarrow> A ! (k - 1) = B ! (l - 1)"

text \<open>
  The check on files of lines: the match vector keeps the pairs of equal lines, and the indices
  are the ends of the lines.
\<close>

theorem check_lines:
  assumes ls: "no_newline A" "no_newline B" and fl: "exact fl" and J: "match_vec E (length A) (length B) J"
  defines "ck \<equiv> check fl (length A) (length B) J (file_of A) (file_of B)"
  shows "match_vec (same_line A B) (length A) (length B) (ck_J ck)"
    "file_ends (length A) A (ixold ck)" "file_ends (length B) B (ixnew ck)"
    "\<And>k. 0 < k \<Longrightarrow> k \<le> length A \<Longrightarrow> J ! k \<noteq> 0 \<Longrightarrow> same_line A B k (J ! k) \<Longrightarrow> ck_J ck ! k = J ! k"
proof -
  have inv: "check_inv A B J (length A) (length B) ck" unfolding ck_def by (rule check_correct [OF ls fl J])
  then show "file_ends (length A) A (ixold ck)" "file_ends (length B) B (ixnew ck)" by (simp_all add: check_inv_def)
  have c: "ck_J ck ! k = checked A B J k" if "0 < k" "k \<le> length A" for k
    using inv that J by (simp add: check_inv_def match_vec_def)
  show "ck_J ck ! k = J ! k" if "0 < k" "k \<le> length A" "J ! k \<noteq> 0" "same_line A B k (J ! k)" for k
    using that c by (simp add: checked_def same_line_def)
  show "match_vec (same_line A B) (length A) (length B) (ck_J ck)"
    unfolding match_vec_def
  proof (intro conjI allI impI)
    show "length (ck_J ck) = length A + 2" using inv J by (simp add: check_inv_def match_vec_def)
  next
    fix k assume k: "0 < k \<and> k \<le> length A \<and> ck_J ck ! k \<noteq> 0"
    with c [of k] have "J ! k \<noteq> 0" "ck_J ck ! k = J ! k" "same_line A B k (J ! k)"
      by (auto simp: checked_def same_line_def split: if_splits)
    with J k show "ck_J ck ! k \<le> length B" "same_line A B k (ck_J ck ! k)" by (simp_all add: match_vec_def)
  next
    fix k k' assume k: "0 < k \<and> k < k' \<and> k' \<le> length A \<and> ck_J ck ! k \<noteq> 0 \<and> ck_J ck ! k' \<noteq> 0"
    with c [of k] c [of k'] have "J ! k \<noteq> 0" "ck_J ck ! k = J ! k" "J ! k' \<noteq> 0" "ck_J ck ! k' = J ! k'"
      by (auto simp: checked_def split: if_splits)
    with J k show "ck_J ck ! k < ck_J ck ! k'" by (simp add: match_vec_def)
  qed
qed

end
