(* ===== verification/DiffChanges.thy ===== *)
theory DiffChanges
  imports DiffCheck
begin

text \<open>
  What the changes mean. Read forwards they lead from the old to the new file, each one
  replacing lines and leaving equal lines before it; read backwards, as for an \<open>ed\<close> script,
  they do so from the ends of the files.
\<close>

fun edits :: "string list \<Rightarrow> string list \<Rightarrow> nat \<Rightarrow> nat \<Rightarrow> dchange list \<Rightarrow> bool" where
  "edits A B i j [] \<longleftrightarrow> drop i A = drop j B"
| "edits A B i j ((a, b, c, d) # cs) \<longleftrightarrow>
     i < a \<and> a \<le> b + 1 \<and> b \<le> length A \<and> j < c \<and> c \<le> d + 1 \<and> d \<le> length B \<and>
     take (a - 1 - i) (drop i A) = take (c - 1 - j) (drop j B) \<and> edits A B b d cs"

fun edits_back :: "string list \<Rightarrow> string list \<Rightarrow> nat \<Rightarrow> nat \<Rightarrow> dchange list \<Rightarrow> bool" where
  "edits_back A B i j [] \<longleftrightarrow> take i A = take j B"
| "edits_back A B i j ((a, b, c, d) # cs) \<longleftrightarrow>
     1 \<le> a \<and> a \<le> b + 1 \<and> b \<le> i \<and> 1 \<le> c \<and> c \<le> d + 1 \<and> d \<le> j \<and>
     drop b (take i A) = drop d (take j B) \<and> edits_back A B (a - 1) (c - 1) cs"

text \<open>
  The pairs that the function \<open>J\<close> still has between two lines. It is increasing on them and
  pairs equal lines.
\<close>

definition pairs_on :: "string list \<Rightarrow> string list \<Rightarrow> (nat \<Rightarrow> nat) \<Rightarrow> nat \<Rightarrow> nat \<Rightarrow> nat \<Rightarrow> nat \<Rightarrow> bool" where
  "pairs_on A B J lo hi jlo jhi \<longleftrightarrow>
     (\<forall>k. lo < k \<and> k < hi \<and> J k \<noteq> 0 \<longrightarrow> jlo < J k \<and> J k < jhi \<and> same_line A B k (J k)) \<and>
     (\<forall>k k'. lo < k \<and> k < k' \<and> k' < hi \<and> J k \<noteq> 0 \<and> J k' \<noteq> 0 \<longrightarrow> J k < J k')"

lemma pairs_onD:
  assumes "pairs_on A B J lo hi jlo jhi"
  shows "lo < k \<Longrightarrow> k < hi \<Longrightarrow> J k \<noteq> 0 \<Longrightarrow> jlo < J k"
    "lo < k \<Longrightarrow> k < hi \<Longrightarrow> J k \<noteq> 0 \<Longrightarrow> J k < jhi"
    "lo < k \<Longrightarrow> k < hi \<Longrightarrow> J k \<noteq> 0 \<Longrightarrow> A ! (k - 1) = B ! (J k - 1)"
    "lo < k \<Longrightarrow> k < k' \<Longrightarrow> k' < hi \<Longrightarrow> J k \<noteq> 0 \<Longrightarrow> J k' \<noteq> 0 \<Longrightarrow> J k < J k'"
  using assms by (auto simp: pairs_on_def same_line_def)

lemma pairs_on_sub:
  assumes p: "pairs_on A B J lo hi jlo jhi" and "lo \<le> lo'" "hi' \<le> hi"
    and J: "\<And>k. lo' < k \<Longrightarrow> k < hi' \<Longrightarrow> J' k = J k"
    and "\<And>k. lo' < k \<Longrightarrow> k < hi' \<Longrightarrow> J k \<noteq> 0 \<Longrightarrow> jlo' < J k \<and> J k < jhi'"
  shows "pairs_on A B J' lo' hi' jlo' jhi'"
  unfolding pairs_on_def using assms pairs_onD(3,4) [OF p] by (auto simp: same_line_def)

section \<open>Forwards\<close>

lemma skip_same_run:
  "i \<le> m + 1 \<Longrightarrow> skip_same m J i \<le> m + 1 \<and>
    (\<forall>k. i \<le> k \<and> k < skip_same m J i \<longrightarrow> J k = J (k - 1) + 1) \<and>
    (skip_same m J i \<le> m \<longrightarrow> J (skip_same m J i) \<noteq> J (skip_same m J i - 1) + 1)"
proof (induction m J i rule: skip_same.induct)
  case (1 m J i)
  show ?case
  proof (cases "i \<le> m \<and> J i = J (i - 1) + 1")
    case True
    then have e: "skip_same m J i = skip_same m J (i + 1)" by (subst skip_same.simps) (rule if_P)
    have "i + 1 \<le> m + 1" using True by simp
    note IH = "1.IH" [OF True this]
    have "J k = J (k - 1) + 1" if "i \<le> k" "k < skip_same m J (i + 1)" for k
    proof (cases "k = i")
      case False
      then have "i + 1 \<le> k" using that(1) by simp
      with IH that(2) show ?thesis by blast
    qed (use True in blast)
    with IH show ?thesis unfolding e by blast
  next
    case False
    then have e: "skip_same m J i = i" by (subst skip_same.simps) (rule if_not_P)
    show ?thesis unfolding e using False "1.prems" by (meson leD)
  qed
qed

lemma skip_unmatched_run:
  "i \<le> m \<Longrightarrow> skip_unmatched m J i \<le> m \<and> (\<forall>k. i < k \<and> k \<le> skip_unmatched m J i \<longrightarrow> J k = 0)"
proof (induction m J i rule: skip_unmatched.induct)
  case (1 m J i)
  show ?case
  proof (cases "i < m \<and> J (i + 1) = 0")
    case True
    then have "skip_unmatched m J i = skip_unmatched m J (i + 1)" by (subst skip_unmatched.simps) simp
    moreover have "J k = 0" if "i < k" "k \<le> skip_unmatched m J (i + 1)" for k
      using "1.IH" that True by (cases "k = i + 1") auto
    ultimately show ?thesis using "1.IH" True by auto
  next
    case False
    then have "skip_unmatched m J i = i" by (subst skip_unmatched.simps) auto
    with "1.prems" show ?thesis by auto
  qed
qed

lemma run_shift:
  fixes J :: "nat \<Rightarrow> nat"
  assumes "\<And>k. i \<le> k \<Longrightarrow> k < r \<Longrightarrow> J k = J (k - 1) + 1" "0 < i"
  shows "i - 1 + t < r \<Longrightarrow> J (i - 1 + t) = J (i - 1) + t"
proof (induction t)
  case (Suc t)
  then show ?case using assms(1) [of "i + t"] assms(2) by simp
qed simp

lemma changes_down_edits:
  assumes "0 < i0" "i0 \<le> m + 1" "m = length A" "n = length B" "J (m + 1) = n + 1" "J (i0 - 1) \<le> n"
    "pairs_on A B J (i0 - 1) (m + 1) (J (i0 - 1)) (n + 1)" "i0 = m + 1 \<longrightarrow> J m = n"
  shows "edits A B (i0 - 1) (J (i0 - 1)) (changes_down m J i0)"
  using assms
proof (induction m J i0 rule: changes_down.induct)
  case (1 m J i0)
  show ?case
  proof (cases "i0 \<le> m")
    case True
    define r where "r = skip_same m J i0"
    define i1 where "i1 = skip_unmatched m J (r - 1)"
    define j1 where "j1 = J (i1 + 1) - 1"
    have r: "i0 \<le> r" "r \<le> m + 1" "\<And>k. i0 \<le> k \<Longrightarrow> k < r \<Longrightarrow> J k = J (k - 1) + 1"
      using skip_same_run [of i0 m J] "1.prems"(2) skip_same_ge unfolding r_def by blast+
    have i1: "r - 1 \<le> i1" "i1 \<le> m" "i1 < m \<Longrightarrow> J (i1 + 1) \<noteq> 0"
      using skip_unmatched_run [of "r - 1" m J] r(2) skip_unmatched_ge skip_unmatched_stop [of m J "r - 1"]
      unfolding i1_def by auto
    have run: "J (i0 - 1 + t) = J (i0 - 1) + t" if "i0 - 1 + t < r" for t
      using run_shift [of i0 r J t] r(3) "1.prems"(1) that by blast
    have jr: "J (r - 1) = J (i0 - 1) + (r - i0)" using run [of "r - i0"] r(1) "1.prems"(1) by simp
    have below: "J (r - 1) < J (i1 + 1) \<and> J (i1 + 1) \<le> n + 1"
    proof (cases "i1 = m")
      case True
      have "J (r - 1) \<le> n"
      proof (cases "r = i0")
        case False
        then have "J (r - 1) < n + 1"
          using r "1.prems"(1) jr by (intro pairs_onD(2) [OF "1.prems"(7)]) simp_all
        then show ?thesis by simp
      qed (use "1.prems"(6) in simp)
      with True "1.prems"(5) show ?thesis by simp
    next
      case False
      then have i: "i1 + 1 < m + 1" "J (i1 + 1) \<noteq> 0" using i1 by simp_all
      have "J (r - 1) < J (i1 + 1)"
      proof (cases "r = i0")
        case True
        have "J (i0 - 1) < J (i1 + 1)" using i i1(1) r(1) by (intro pairs_onD(1) [OF "1.prems"(7)]) simp_all
        with True show ?thesis by simp
      next
        case False
        then show ?thesis using i i1(1) "1.prems"(1) r(1) jr by (intro pairs_onD(4) [OF "1.prems"(7)]) simp_all
      qed
      moreover have "J (i1 + 1) < n + 1"
        using i i1(1) r(1) by (intro pairs_onD(2) [OF "1.prems"(7)]) simp_all
      ultimately show ?thesis by simp
    qed
    have same: "take (r - i0) (drop (i0 - 1) A) = take (r - i0) (drop (J (i0 - 1)) B)"
    proof (rule nth_equalityI)
      show "length (take (r - i0) (drop (i0 - 1) A)) = length (take (r - i0) (drop (J (i0 - 1)) B))"
      proof -
        have "r - i0 \<le> length A - (i0 - 1)" "r - i0 \<le> length B - J (i0 - 1)"
          using r(1,2) below jr "1.prems"(1,3,4) by linarith+
        then show ?thesis by simp
      qed
      fix t assume "t < length (take (r - i0) (drop (i0 - 1) A))"
      then have t: "t < r - i0" "i0 + t \<le> m" using "1.prems"(1,3) by auto
      have "J (i0 + t) = J (i0 - 1) + t + 1" using run [of "Suc t"] t(1) "1.prems"(1) by simp
      moreover from this have "A ! (i0 + t - 1) = B ! (J (i0 + t) - 1)"
        using t "1.prems"(1) by (intro pairs_onD(3) [OF "1.prems"(7)]) simp_all
      ultimately show "take (r - i0) (drop (i0 - 1) A) ! t = take (r - i0) (drop (J (i0 - 1)) B) ! t"
        using t "1.prems"(1,3,4,6) by simp
    qed
    have e: "edits A B i1 ((J(i1 := j1)) i1) (changes_down m (J(i1 := j1)) (i1 + 1))"
    proof -
      have "edits A B (i1 + 1 - 1) ((J(i1 := j1)) (i1 + 1 - 1)) (changes_down m (J(i1 := j1)) (i1 + 1))"
      proof (rule "1.IH" [OF True r_def refl i1_def j1_def])
        show "0 < i1 + 1" "i1 + 1 \<le> m + 1" using i1 by simp_all
        show "m = length A" "n = length B" using "1.prems" by simp_all
        show "(J(i1 := j1)) (m + 1) = n + 1" using i1 "1.prems"(5) by simp
        show "(J(i1 := j1)) (i1 + 1 - 1) \<le> n" using below by (simp add: j1_def le_diff_conv)
        show "i1 + 1 = m + 1 \<longrightarrow> (J(i1 := j1)) m = n" using "1.prems"(5) by (simp add: j1_def)
        show "pairs_on A B (J(i1 := j1)) (i1 + 1 - 1) (m + 1) ((J(i1 := j1)) (i1 + 1 - 1)) (n + 1)"
        proof (rule pairs_on_sub [OF "1.prems"(7)])
          fix k assume k: "i1 + 1 - 1 < k" "k < m + 1" "J k \<noteq> 0"
          have "J (i1 + 1) \<le> J k"
          proof (cases "k = i1 + 1")
            case False
            then show ?thesis using k i1 r(1)
              by (intro less_imp_le pairs_onD(4) [OF "1.prems"(7)]) simp_all
          qed simp
          moreover have "J k < n + 1" using k i1(1) r(1) by (intro pairs_onD(2) [OF "1.prems"(7)]) simp_all
          ultimately show "(J(i1 := j1)) (i1 + 1 - 1) < J k \<and> J k < n + 1"
            using below by (auto simp: j1_def)
        qed (use i1 r(1) in simp_all)
      qed
      then show ?thesis by simp
    qed
    have c: "changes_down m J i0 = (r, i1, J (r - 1) + 1, j1) # changes_down m (J(i1 := j1)) (i1 + 1)"
      using True by (subst changes_down.simps) (simp add: Let_def r_def i1_def j1_def)
    have "edits A B i1 j1 (changes_down m (J(i1 := j1)) (i1 + 1))" using e by simp
    moreover have "J (i0 - 1) < J (r - 1) + 1" "J (r - 1) + 1 \<le> j1 + 1" "j1 \<le> length B"
      using jr below "1.prems"(4) by (simp_all add: j1_def le_diff_conv)
    moreover have "r - 1 - (i0 - 1) = r - i0" "J (r - 1) + 1 - 1 - J (i0 - 1) = r - i0"
      using "1.prems"(1) r(1) jr by simp_all
    ultimately show ?thesis
      unfolding c edits.simps using same r(1) i1(1,2) "1.prems"(1,3) by auto
  next
    case False
    then have "i0 = m + 1" using "1.prems"(2) by simp
    with False "1.prems" show ?thesis by (subst changes_down.simps) simp
  qed
qed

section \<open>Backwards\<close>

lemma skip_same_back_run:
  "\<forall>k. skip_same_back J i < k \<and> k \<le> i \<longrightarrow> J (k + 1) = J k + 1 \<and> J k \<noteq> 0"
proof (induction J i rule: skip_same_back.induct)
  case (2 J i)
  show ?case
  proof (cases "J (Suc i) = J (Suc i + 1) - 1 \<and> J (Suc i) \<noteq> 0")
    case True
    then have e: "skip_same_back J (Suc i) = skip_same_back J i" unfolding skip_same_back.simps by (rule if_P)
    note IH = "2.IH" [OF True]
    have "J (Suc i + 1) = J (Suc i) + 1 \<and> J (Suc i) \<noteq> 0" using True by arith
    moreover have "k \<le> i \<or> k = Suc i" if "k \<le> Suc i" for k using that by (simp add: le_Suc_eq)
    ultimately show ?thesis unfolding e using IH by blast
  next
    case False
    then have e: "skip_same_back J (Suc i) = Suc i" unfolding skip_same_back.simps by (rule if_not_P)
    show ?thesis unfolding e by auto
  qed
qed auto

lemma skip_unmatched_back_run:
  "1 \<le> i \<Longrightarrow> 1 \<le> skip_unmatched_back J i \<and> (\<forall>k. skip_unmatched_back J i \<le> k \<and> k < i \<longrightarrow> J k = 0)"
proof (induction J i rule: skip_unmatched_back.induct)
  case (1 J i)
  show ?case
  proof (cases "i > 1 \<and> J (i - 1) = 0")
    case True
    then have "skip_unmatched_back J i = skip_unmatched_back J (i - 1)"
      by (subst skip_unmatched_back.simps) (rule if_P)
    moreover have "J k = 0" if "skip_unmatched_back J (i - 1) \<le> k" "k < i" for k
      using "1.IH" [OF True] that True by (cases "k = i - 1") auto
    ultimately show ?thesis using "1.IH" [OF True] True by auto
  next
    case False
    then have "skip_unmatched_back J i = i" by (subst skip_unmatched_back.simps) (rule if_not_P)
    with "1.prems" show ?thesis by auto
  qed
qed

lemma changes_up_edits:
  assumes "i0 \<le> length A" "0 < J (i0 + 1)" "J (i0 + 1) \<le> length B + 1" "J 0 = 0"
    "pairs_on A B J 0 (i0 + 1) 0 (J (i0 + 1))" "i0 = 0 \<longrightarrow> J 1 = 1"
  shows "edits_back A B i0 (J (i0 + 1) - 1) (changes_up J i0)"
  using assms
proof (induction J i0 rule: changes_up.induct)
  case (1 J i0)
  show ?case
  proof (cases "1 \<le> i0")
    case True
    define r where "r = skip_same_back J i0"
    define i1 where "i1 = skip_unmatched_back J (r + 1)"
    define j1 where "j1 = J (i1 - 1) + 1"
    have r: "r \<le> i0" "\<And>k. r + 1 \<le> k \<Longrightarrow> k \<le> i0 \<Longrightarrow> J (k + 1) = J k + 1 \<and> J k \<noteq> 0"
      using skip_same_back_run [of J i0] skip_same_back_le [of J i0] unfolding r_def by auto
    have i1: "1 \<le> i1" "i1 \<le> r + 1" "i1 > 1 \<Longrightarrow> J (i1 - 1) \<noteq> 0"
      using skip_unmatched_back_run [of "r + 1" J] skip_unmatched_back_le [of J "r + 1"]
        skip_unmatched_back_stop [of J "r + 1"] unfolding i1_def by simp_all
    have run: "J (r + 1 + t) = J (r + 1) + t" if "r + t \<le> i0" for t
      using that
    proof (induction t)
      case (Suc t)
      then show ?case using r(2) [of "r + 1 + t"] by simp
    qed simp
    have j: "J (i0 + 1) = J (r + 1) + (i0 - r)" using run [of "i0 - r"] r(1) by simp
    have pos: "0 < J (r + 1)" using r(2) [of "r + 1"] r(1) "1.prems"(2) by (cases "r = i0") auto
    have above: "J (i1 - 1) < J (r + 1)"
    proof (cases "i1 = 1")
      case True
      with "1.prems"(4) pos show ?thesis by simp
    next
      case False
      then have i: "0 < i1 - 1" "i1 - 1 < r + 1" "J (i1 - 1) \<noteq> 0" using i1 by simp_all
      show ?thesis
      proof (cases "r = i0")
        case True
        have "J (i1 - 1) < J (i0 + 1)"
          using i r(1) True by (intro pairs_onD(2) [OF "1.prems"(5)]) simp_all
        with True show ?thesis by simp
      next
        case False
        then show ?thesis using i r(1) pos by (intro pairs_onD(4) [OF "1.prems"(5)]) simp_all
      qed
    qed
    have same: "drop r (take i0 A) = drop (J (r + 1) - 1) (take (J (i0 + 1) - 1) B)"
    proof (rule nth_equalityI)
      show "length (drop r (take i0 A)) = length (drop (J (r + 1) - 1) (take (J (i0 + 1) - 1) B))"
        using r(1) j pos "1.prems"(1,3) by simp
      fix t assume "t < length (drop r (take i0 A))"
      then have t: "r + t < i0" "i0 \<le> length A" using "1.prems"(1) by auto
      have "A ! (r + 1 + t - 1) = B ! (J (r + 1 + t) - 1)"
        using t r(2) [of "r + 1 + t"] by (intro pairs_onD(3) [OF "1.prems"(5)]) simp_all
      then show "drop r (take i0 A) ! t = drop (J (r + 1) - 1) (take (J (i0 + 1) - 1) B) ! t"
        using t run [of t] j pos "1.prems"(3) by simp
    qed
    have e: "edits_back A B (i1 - 1) ((J(i1 := j1)) (i1 - 1 + 1) - 1) (changes_up (J(i1 := j1)) (i1 - 1))"
    proof (rule "1.IH" [OF True r_def refl i1_def j1_def])
      show "i1 - 1 \<le> length A" using i1 r(1) "1.prems"(1) by simp
      show "0 < (J(i1 := j1)) (i1 - 1 + 1)" using i1(1) by (simp add: j1_def)
      show "(J(i1 := j1)) (i1 - 1 + 1) \<le> length B + 1" using i1(1) above j "1.prems"(3) by (simp add: j1_def)
      show "(J(i1 := j1)) 0 = 0" using i1(1) "1.prems"(4) by simp
      show "i1 - 1 = 0 \<longrightarrow> (J(i1 := j1)) 1 = 1" using i1(1) "1.prems"(4) by (auto simp: j1_def)
      show "pairs_on A B (J(i1 := j1)) 0 (i1 - 1 + 1) 0 ((J(i1 := j1)) (i1 - 1 + 1))"
      proof (rule pairs_on_sub [OF "1.prems"(5)])
        fix k assume k: "0 < k" "k < i1 - 1 + 1" "J k \<noteq> 0"
        have "J k \<le> J (i1 - 1)"
        proof (cases "k = i1 - 1")
          case False
          then show ?thesis using k i1 r(1) by (intro less_imp_le pairs_onD(4) [OF "1.prems"(5)]) simp_all
        qed simp
        with k i1(1) show "0 < J k \<and> J k < (J(i1 := j1)) (i1 - 1 + 1)" by (simp add: j1_def)
      qed (use i1 r(1) in simp_all)
    qed
    have c: "changes_up J i0 = (i1, r, j1, J (r + 1) - 1) # changes_up (J(i1 := j1)) (i1 - 1)"
      using True by (subst changes_up.simps) (simp add: Let_def r_def i1_def j1_def)
    have "edits_back A B (i1 - 1) (j1 - 1) (changes_up (J(i1 := j1)) (i1 - 1))" using e i1(1) by simp
    then show ?thesis
      unfolding c edits_back.simps using same r(1) i1(1,2) above j pos by (simp add: j1_def)
  next
    case False
    then have "i0 = 0" by simp
    moreover have "changes_up J 0 = []" by (subst changes_up.simps) simp
    ultimately show ?thesis using "1.prems"(6) by simp
  qed
qed

section \<open>The changes of a match vector\<close>

lemma match_vec_pairs:
  assumes "match_vec (same_line A B) (length A) (length B) J"
  shows "pairs_on A B ((\<lambda>i. J ! i)(0 := 0, length A + 1 := length B + 1)) 0 (length A + 1) 0 (length B + 1)"
  using assms by (auto simp: match_vec_def pairs_on_def less_Suc_eq_le)

theorem changes_edits:
  assumes J: "match_vec (same_line A B) (length A) (length B) J" and fmt: "fmt \<noteq> D_EDIT"
  shows "edits A B 0 0 (changes fmt (length A) (length B) J)"
proof (cases "length A = 0")
  case True
  then have "changes_down 0 f 1 = []" for f by (subst changes_down.simps) simp
  with True fmt show ?thesis by (simp add: changes_def)
next
  case False
  let ?J = "(\<lambda>i. J ! i)(0 := 0, length A + 1 := length B + 1)"
  have "edits A B (1 - 1) (?J (1 - 1)) (changes_down (length A) ?J 1)"
    by (rule changes_down_edits [where n = "length B"])
      (use False match_vec_pairs [OF J] in \<open>simp_all del: fun_upd_apply add: fun_upd_same fun_upd_other\<close>)
  with False fmt show ?thesis by (simp add: changes_def)
qed

theorem changes_edits_back:
  assumes J: "match_vec (same_line A B) (length A) (length B) J"
  shows "edits_back A B (length A) (length B) (changes D_EDIT (length A) (length B) J)"
proof (cases "length A = 0")
  case True
  then have "changes_up f 0 = []" for f by (subst changes_up.simps) simp
  with True show ?thesis by (simp add: changes_def)
next
  case False
  let ?J = "(\<lambda>i. J ! i)(0 := 0, length A + 1 := length B + 1)"
  have "edits_back A B (length A) (?J (length A + 1) - 1) (changes_up ?J (length A))"
    by (rule changes_up_edits)
      (use False match_vec_pairs [OF J] in \<open>simp_all del: fun_upd_apply add: fun_upd_same fun_upd_other\<close>)
  with False show ?thesis by (simp add: changes_def)
qed

end
