(* ===== verification/DiffScript.thy ===== *)
theory DiffScript
  imports DiffChanges
begin

text \<open>
  \<open>diff -e\<close>: what the script means to an editor, and that it makes the new file out of the old
  one. The editing commands are those of POSIX \<open>ed\<close> that \<open>diff\<close> writes: \<open>a\<close>, \<open>c\<close> and \<open>d\<close> with one
  or two line numbers, the text of \<open>a\<close> and \<open>c\<close> up to a line with a single period, and \<open>s/.//\<close>,
  which removes the first character of a line.
\<close>

section \<open>Numbers and lines\<close>

definition is_digit :: "char \<Rightarrow> bool" where
  "is_digit c = isdigit (code c)"

definition digits_value :: "string \<Rightarrow> nat" where
  "digits_value ds = foldl (\<lambda>n c. 10 * n + (code c - 48)) 0 ds"

lemma decimal_digits:
  "list_all is_digit (decimal n)" "digits_value (decimal n) = n" "decimal n \<noteq> []"
proof (induction n rule: decimal.induct)
  case (1 n)
  {
    case 1
    from "1.IH" show ?case by (subst decimal.simps) (auto simp: list_all_iff is_digit_def isdigit_def)
  next
    case 2
    have "n div 10 * 10 + n mod 10 = n" by simp
    with "1.IH" show ?case by (subst decimal.simps) (auto simp: digits_value_def mult.commute)
  next
    case 3
    show ?case by (subst decimal.simps) simp
  }
qed

lemma decimal_no_newline [simp]: "NL \<notin> set (decimal n)"
  using decimal_digits(1) [of n] by (auto simp: list_all_iff is_digit_def isdigit_def)

lemma decimal_hd: "is_digit (hd (decimal n))"
  using decimal_digits(1,3) [of n] by (simp add: list_all_iff)

definition read_number :: "string \<Rightarrow> nat \<times> string" where
  "read_number s = (digits_value (takeWhile is_digit s), dropWhile is_digit s)"

lemma read_decimal:
  assumes "s = [] \<or> \<not> is_digit (hd s)"
  shows "read_number (decimal n @ s) = (n, s)"
proof -
  have d: "\<And>x. x \<in> set (decimal n) \<Longrightarrow> is_digit x" using decimal_digits(1) by (auto simp: list_all_iff)
  have "takeWhile is_digit s = [] \<and> dropWhile is_digit s = s" using assms by (cases s) auto
  with d show ?thesis by (simp add: read_number_def takeWhile_append2 dropWhile_append2 decimal_digits(2))
qed

fun split_lines :: "string \<Rightarrow> string list" where
  "split_lines [] = []"
| "split_lines (c # s) =
     (if c = NL then [] # split_lines s
      else case split_lines s of [] \<Rightarrow> [[c]] | l # ls \<Rightarrow> (c # l) # ls)"

lemma split_lines_line: "NL \<notin> set l \<Longrightarrow> split_lines (l @ NL # s) = l # split_lines s"
  by (induction l) auto

lemma split_lines_file_of: "no_newline ls \<Longrightarrow> split_lines (file_of ls) = ls"
  by (induction ls) (auto simp: no_newline_def split_lines_line)

section \<open>The editor\<close>

text \<open>A command line: the addresses, one of them standing for both, and the command.\<close>

definition ed_command :: "string \<Rightarrow> (nat \<times> nat \<times> string) option" where
  "ed_command l =
     (if l = [] \<or> \<not> is_digit (hd l) then None
      else
        let (a, r) = read_number l
        in if at0 r = CHR '','' then (let (b, r) = read_number (tl r) in Some (a, b, r)) else Some (a, a, r))"

function ed_run :: "string list \<Rightarrow> string list \<Rightarrow> string list option" where
  "ed_run [] buf = Some buf"
| "ed_run (l # ls) buf =
     (case ed_command l of
        None \<Rightarrow> None
      | Some (a, b, cmd) \<Rightarrow>
          if \<not> (a \<le> b \<and> b \<le> length buf) then None
          else if cmd = ''a'' \<and> ''.'' \<in> set ls then
            ed_run (tl (dropWhile (\<lambda>x. x \<noteq> ''.'') ls)) (take b buf @ takeWhile (\<lambda>x. x \<noteq> ''.'') ls @ drop b buf)
          else if a = 0 then None
          else if cmd = ''d'' then ed_run ls (take (a - 1) buf @ drop b buf)
          else if cmd = ''c'' \<and> ''.'' \<in> set ls then
            ed_run (tl (dropWhile (\<lambda>x. x \<noteq> ''.'') ls))
              (take (a - 1) buf @ takeWhile (\<lambda>x. x \<noteq> ''.'') ls @ drop b buf)
          else if cmd = ''s/.//'' \<and> a = b \<and> buf ! (a - 1) \<noteq> [] then
            ed_run ls (buf[a - 1 := tl (buf ! (a - 1))])
          else None)"
  by pat_completeness auto
termination
  by (relation "measure (\<lambda>(ls, buf). length ls)")
    (auto simp: le_imp_less_Suc length_dropWhile_le diff_le_self le_trans [OF diff_le_self])

declare ed_run.simps(2) [simp del]

lemma ed_command_one: "cmd \<noteq> [] \<Longrightarrow> \<not> is_digit (hd cmd) \<Longrightarrow> hd cmd \<noteq> CHR '','' \<Longrightarrow>
    ed_command (decimal a @ cmd) = Some (a, a, cmd)"
  using decimal_hd decimal_digits(3) by (cases cmd) (simp_all add: ed_command_def read_decimal)

lemma ed_command_two: "cmd \<noteq> [] \<Longrightarrow> \<not> is_digit (hd cmd) \<Longrightarrow>
    ed_command (decimal a @ '','' @ decimal b @ cmd) = Some (a, b, cmd)"
proof -
  assume cmd: "cmd \<noteq> []" "\<not> is_digit (hd cmd)"
  have "\<not> is_digit CHR '',''" by (simp add: is_digit_def isdigit_def)
  with cmd show ?thesis using decimal_hd decimal_digits(3) by (simp add: ed_command_def read_decimal)
qed

lemma ed_command_range:
  assumes "a \<le> b + 1" "cmd \<in> {CHR ''a'', CHR ''c'', CHR ''d''}"
  shows "ed_command (range_text a b '','' @ [cmd]) = Some (if a > b then b else a, b, [cmd])"
proof -
  have "\<not> is_digit cmd" "cmd \<noteq> CHR '',''" using assms(2) by (auto simp: is_digit_def isdigit_def)
  then show ?thesis
    using ed_command_one [of "[cmd]"] ed_command_two [of "[cmd]"] assms(1) by (auto simp: range_text_def)
qed

section \<open>The script of a change\<close>

text \<open>The lines that replace the lines \<open>a\<close> to \<open>b\<close> by the lines \<open>T\<close>.\<close>

function ed_change :: "nat \<Rightarrow> nat \<Rightarrow> string list \<Rightarrow> string list" where
  "ed_change a b T =
     (let pre = takeWhile (\<lambda>l. l \<noteq> ''.'') T; post = dropWhile (\<lambda>l. l \<noteq> ''.'') T in
      if a > b \<and> T = [] then []
      else (range_text a b '','' @ [if a > b then CHR ''a'' else if T = [] then CHR ''d'' else CHR ''c'']) #
        (if post \<noteq> [] then
           pre @ [''..'', ''.'', decimal (a + length pre) @ ''s/.//''] @
           ed_change (a + length pre + 1) (a + length pre) (tl post)
         else if T \<noteq> [] then T @ [''.''] else []))"
  by pat_completeness auto
termination
proof (relation "measure (\<lambda>(a, b, T). length T)")
  fix T :: "string list" and post
  assume p: "post = dropWhile (\<lambda>l. l \<noteq> ''.'') T" "post \<noteq> []"
  then have "length (tl post) < length post" by simp
  also have "\<dots> \<le> length T" using p by (simp add: length_dropWhile_le)
  finally show "((a, b, tl post), (a', b', T)) \<in> measure (\<lambda>(a, b, T). length T)" for a b a' b' :: nat by simp
qed simp

declare ed_change.simps [simp del]

lemma ed_change_none: "ed_change a b [] = (if a > b then [] else [range_text a b '','' @ ''d''])"
  by (subst ed_change.simps) simp

lemma ed_change_plain:
  "T \<noteq> [] \<Longrightarrow> ''.'' \<notin> set T \<Longrightarrow>
   ed_change a b T = (range_text a b '','' @ [if a > b then CHR ''a'' else CHR ''c'']) # T @ [''.'']"
  by (subst ed_change.simps) (auto simp: Let_def dropWhile_eq_Nil_conv)

lemma ed_change_dot:
  assumes "''.'' \<notin> set pre"
  shows "ed_change a b (pre @ ''.'' # post) =
    (range_text a b '','' @ [if a > b then CHR ''a'' else CHR ''c'']) # pre @
      [''..'', ''.'', decimal (a + length pre) @ ''s/.//''] @ ed_change (a + length pre + 1) (a + length pre) post"
proof -
  have "takeWhile (\<lambda>l. l \<noteq> ''.'') (pre @ ''.'' # post) = pre"
    "dropWhile (\<lambda>l. l \<noteq> ''.'') (pre @ ''.'' # post) = ''.'' # post"
    using assms by (auto simp: takeWhile_append dropWhile_append dropWhile_eq_Nil_conv)
  then show ?thesis by (subst ed_change.simps) (simp add: Let_def)
qed

lemma split_at_dot:
  obtains "''.'' \<notin> set T" | pre post where "T = pre @ ''.'' # post" "''.'' \<notin> set pre"
  by (metis split_list_first)

lemma range_text_no_newline: "NL \<notin> set sep \<Longrightarrow> NL \<notin> set (range_text a b sep)"
  by (simp add: range_text_def)

lemma ed_change_no_newline: "no_newline T \<Longrightarrow> no_newline (ed_change a b T)"
proof (induction "length T" arbitrary: a b T rule: less_induct)
  case less
  show ?case
  proof (cases "T = []")
    case False
    show ?thesis
    proof (cases T rule: split_at_dot)
      case 1
      then show ?thesis using False less.prems range_text_no_newline
        by (auto simp: ed_change_plain no_newline_def)
    next
      case (2 pre post)
      then have "no_newline (ed_change (a + length pre + 1) (a + length pre) post)"
        using less.prems by (intro less.hyps) (auto simp: no_newline_def)
      then show ?thesis using 2 less.prems range_text_no_newline
        by (auto simp: ed_change_dot no_newline_def)
    qed
  qed (simp add: ed_change_none no_newline_def range_text_no_newline)
qed

lemma ed_run_text:
  assumes "a = length P + 1" "b = length (P @ Q)" "''.'' \<notin> set T"
  shows "ed_run ((range_text a b '','' @ [if a > b then CHR ''a'' else CHR ''c'']) # T @ ''.'' # ls) (P @ Q @ S) =
    ed_run ls (P @ T @ S)"
proof -
  have t: "takeWhile (\<lambda>x. x \<noteq> ''.'') (T @ ''.'' # ls) = T" "dropWhile (\<lambda>x. x \<noteq> ''.'') (T @ ''.'' # ls) = ''.'' # ls"
    using assms(3) by (auto simp: takeWhile_append dropWhile_append dropWhile_eq_Nil_conv)
  show ?thesis
    using assms(1,2) ed_command_range [of a b "if a > b then CHR ''a'' else CHR ''c''"]
    by (cases Q) (simp_all add: ed_run.simps(2) t)
qed

text \<open>The editor, on a buffer with the lines \<open>Q\<close> at \<open>a\<close> to \<open>b\<close>.\<close>

lemma ed_run_change:
  "a = length P + 1 \<Longrightarrow> b = length (P @ Q) \<Longrightarrow>
   ed_run (ed_change a b T @ ls) (P @ Q @ S) = ed_run ls (P @ T @ S)"
proof (induction "length T" arbitrary: a b P Q T rule: less_induct)
  case less
  show ?case
  proof (cases "T = []")
    case True
    then show ?thesis using less.prems ed_command_range [of a b "CHR ''d''"]
      by (cases Q) (simp_all add: ed_change_none ed_run.simps(2))
  next
    case False
    show ?thesis
    proof (cases T rule: split_at_dot)
      case 1
      then show ?thesis using False ed_run_text [OF less.prems 1] by (simp add: ed_change_plain)
    next
      case (2 pre post)
      let ?n = "a + length pre"
      have n: "?n = length (P @ pre @ [''.''])" "?n + 1 = length (P @ pre @ [''.'']) + 1"
        using less.prems by simp_all
      have "ed_run (ed_change a b T @ ls) (P @ Q @ S) =
          ed_run ((decimal ?n @ ''s/.//'') # ed_change (?n + 1) ?n post @ ls) (P @ (pre @ [''..'']) @ S)"
        using ed_run_text [OF less.prems, of "pre @ [''..'']"] 2 by (simp add: ed_change_dot)
      also have "\<dots> = ed_run (ed_change (?n + 1) ?n post @ ls) ((P @ pre @ [''.'']) @ [] @ S)"
        using ed_command_one [of "''s/.//''" ?n] less.prems(1)
        by (simp add: ed_run.simps(2) is_digit_def isdigit_def nth_append list_update_append)
      also have "\<dots> = ed_run ls ((P @ pre @ [''.'']) @ post @ S)"
        using 2 by (intro less.hyps) (simp_all add: n)
      finally show ?thesis using 2 by simp
    qed
  qed
qed

definition ed_script :: "string list \<Rightarrow> dchange list \<Rightarrow> string list" where
  "ed_script B cs = concat (map (\<lambda>(a, b, c, d). ed_change a b (drop (c - 1) (take d B))) cs)"

lemma ed_run_script:
  "edits_back A B i j cs \<Longrightarrow> i \<le> length A \<Longrightarrow> j \<le> length B \<Longrightarrow>
   ed_run (ed_script B cs) (take i A @ drop j B) = Some B"
proof (induction cs arbitrary: i j)
  case (Cons x cs)
  obtain a b c d where x: "x = (a, b, c, d)" by (metis prod_cases4)
  from Cons.prems have e: "1 \<le> a" "a \<le> b + 1" "b \<le> i" "1 \<le> c" "c \<le> d + 1" "d \<le> j"
    "drop b (take i A) = drop d (take j B)" "edits_back A B (a - 1) (c - 1) cs" by (simp_all add: x)
  have app: "drop p L = drop p (take q L) @ drop q L" if "p \<le> q" for p q and L :: "string list"
    using that by (metis append_take_drop_id drop_append drop_take le_add_diff_inverse take_add drop_drop
        add.commute append_assoc take_drop)
  have "take i A @ drop j B = take b A @ drop d B"
    using app [of d j B] e(3,6,7) by (metis append_assoc append_take_drop_id min.absorb1 take_take)
  also have "\<dots> = take (a - 1) A @ drop (a - 1) (take b A) @ drop d B"
    using e(2) by (metis append_assoc append_take_drop_id le_diff_conv min.absorb1 take_take)
  finally have "ed_run (ed_script B (x # cs)) (take i A @ drop j B) =
      ed_run (ed_script B cs) (take (a - 1) A @ drop (c - 1) (take d B) @ drop d B)"
    using e(1-3) Cons.prems(2)
    by (simp add: ed_script_def x) (intro ed_run_change; simp)
  also have "drop (c - 1) (take d B) @ drop d B = drop (c - 1) B" using app [of "c - 1" d B] e(5) by simp
  also have "ed_run (ed_script B cs) (take (a - 1) A @ drop (c - 1) B) = Some B"
    using Cons.prems(2,3) e by (intro Cons.IH) simp_all
  finally show ?case .
qed (simp add: ed_script_def)

end
