(* ===== verification/DiffEd.thy ===== *)
theory DiffEd
  imports DiffScript
begin

text \<open>
  The text of the changes, and the theorem of \<open>diff -e\<close>: on files of lines, whatever lines
  Stone's algorithm has matched, the editor makes the new file out of the old one.
\<close>

section \<open>The lines of a change\<close>

definition plain :: "dflags \<Rightarrow> bool" where
  "plain fl \<longleftrightarrow> exact fl \<and> \<not> d_expandtabs fl \<and> \<not> d_skipblanklines fl"

lemma fetch_chars_line:
  assumes fl: "plain fl"
  shows "NL \<notin> set l \<Longrightarrow> fetch_chars fl fmt (j + length l + 1) j col lastc (l @ NL # f) =
    (if fmt = D_EDIT \<and> j + length l = 1 \<and> last (lastc # l) = CHR ''.'' then (l @ [CHR ''.'', NL], Dot)
     else (l @ [NL], Printed))"
proof (induction l arbitrary: j col lastc)
  case Nil
  have "fetch_chars fl fmt (Suc j) (Suc j) (col + 1) NL f = ([], Printed)"
    by (subst fetch_chars.simps) simp
  then show ?case using fl
    by (subst fetch_chars.simps) (auto simp: fgetchar_def plain_def exact_def Let_def)
next
  case (Cons c l)
  from Cons.IH [of "Suc j" _ c] Cons.prems fl show ?case
    by (subst fetch_chars.simps) (auto simp: fgetchar_def plain_def exact_def Let_def)
qed

lemma file_ends_line:
  assumes ix: "file_ends (length B) B ix" and i: "0 < i" "i \<le> length B"
  shows "ix ! i - ix ! (i - 1) = length (B ! (i - 1)) + 1"
    "drop (ix ! (i - 1)) (file_of B) = B ! (i - 1) @ NL # file_of (drop i B)"
proof -
  have e: "ix ! i = length (file_of (take i B))" "ix ! (i - 1) = length (file_of (take (i - 1) B))"
    using ix i by (simp_all add: file_ends_def)
  have "take i B = take (i - 1) B @ [B ! (i - 1)]" using i take_Suc_conv_app_nth [of "i - 1" B] by simp
  then show "ix ! i - ix ! (i - 1) = length (B ! (i - 1)) + 1" unfolding e by simp
  have "file_of B = file_of (take (i - 1) B) @ file_of (drop (i - 1) B)"
    by (metis append_take_drop_id file_of_simps(3))
  then show "drop (ix ! (i - 1)) (file_of B) = B ! (i - 1) @ NL # file_of (drop i B)"
    unfolding e using i file_of_drop [of "i - 1" B] by simp
qed

lemma lines_between: "0 < i \<Longrightarrow> i \<le> d \<Longrightarrow> d \<le> length B \<Longrightarrow>
    drop (i - 1) (take d B) = B ! (i - 1) # drop i (take d B)"
  using Cons_nth_drop_Suc [of "i - 1" "take d B"] by simp

lemma fetch_lines_plain:
  assumes fl: "plain fl" and fmt: "fmt \<noteq> D_EDIT" and ix: "file_ends (length B) B ix" "no_newline B"
    and d: "d \<le> length B"
  shows "0 < i \<Longrightarrow> i \<le> d + 1 \<Longrightarrow> fetch_lines fl fmt ix a i d ch (file_of B) =
    (concat (map (\<lambda>l. ch @ l @ [NL]) (drop (i - 1) (take d B))), 0)"
proof (induction "Suc d - i" arbitrary: i)
  case 0
  then have "i = d + 1" by simp
  then show ?case by (subst fetch_lines.simps) simp
next
  case (Suc k)
  then have i: "0 < i" "i \<le> d" "k = Suc d - Suc i" by simp_all
  have l: "NL \<notin> set (B ! (i - 1))" using i d ix(2) by (simp add: no_newline_def)
  have "fetch_lines fl fmt ix a (Suc i) d ch (file_of B) =
      (concat (map (\<lambda>l. ch @ l @ [NL]) (drop i (take d B))), 0)"
    using Suc.hyps(1) [OF i(3)] i(2) by simp
  then show ?case
    using file_ends_line [OF ix(1), of i] i d fetch_chars_line [OF fl l, of fmt 0 0 NUL "file_of (drop i B)"] fmt
      lines_between [of i d B]
    by (subst fetch_lines.simps) (simp add: Let_def)
qed

lemma fetch_lines_edit:
  assumes fl: "plain fl" and ix: "file_ends (length B) B ix" "no_newline B" and d: "d \<le> length B"
  shows "0 < i \<Longrightarrow> i \<le> d + 1 \<Longrightarrow> fetch_lines fl D_EDIT ix a i d [] (file_of B) =
    (let T = drop (i - 1) (take d B); pre = takeWhile (\<lambda>l. l \<noteq> ''.'') T in
     if ''.'' \<in> set T then (file_of (pre @ [''..'']), i + length pre - a + 1) else (file_of T, 0))"
proof (induction "Suc d - i" arbitrary: i)
  case 0
  then have "i = d + 1" by simp
  then show ?case by (subst fetch_lines.simps) simp
next
  case (Suc k)
  then have i: "0 < i" "i \<le> d" "k = Suc d - Suc i" by simp_all
  let ?l = "B ! (i - 1)"
  have l: "NL \<notin> set ?l" using i d ix(2) by (simp add: no_newline_def)
  have dot: "length ?l = Suc 0 \<and> last (NUL # ?l) = CHR ''.'' \<longleftrightarrow> ?l = ''.''"
    by (cases ?l) auto
  have IH: "fetch_lines fl D_EDIT ix a (Suc i) d [] (file_of B) =
      (let T = drop i (take d B); pre = takeWhile (\<lambda>l. l \<noteq> ''.'') T in
       if ''.'' \<in> set T then (file_of (pre @ [''..'']), Suc i + length pre - a + 1) else (file_of T, 0))"
    using Suc.hyps(1) [OF i(3)] i(2) by simp
  show ?case
    using file_ends_line [OF ix(1), of i] i d fetch_chars_line [OF fl l, of D_EDIT 0 0 NUL "file_of (drop i B)"] IH
      lines_between [of i d B] dot
    by (subst fetch_lines.simps) (auto simp: Let_def)
qed

section \<open>The text of a change\<close>

lemma change_edit:
  assumes fl: "plain fl" and ix: "file_ends (length B) B (ixnew ck)" "no_newline B"
  shows "0 < c \<Longrightarrow> c \<le> d + 1 \<Longrightarrow> d \<le> length B \<Longrightarrow>
    change fl D_EDIT ck f1 (file_of B) a b c d =
    (file_of (ed_change a b (drop (c - 1) (take d B))), \<not> (a > b \<and> c > d))"
proof (induction "Suc d - c" arbitrary: a b c rule: less_induct)
  case less
  let ?T = "drop (c - 1) (take d B)"
  have T: "?T = [] \<longleftrightarrow> c > d" using less.prems by auto
  show ?case
  proof (cases "c > d")
    case True
    then show ?thesis using fl
      by (subst change.simps) (simp add: T ed_change_none plain_def fetch_def change_head_def Let_def)
  next
    case False
    have f: "fetch fl D_EDIT (ixnew ck) c d (file_of B) None =
        (if ''.'' \<in> set ?T then (file_of (takeWhile (\<lambda>l. l \<noteq> ''.'') ?T @ [''..'']),
           c + length (takeWhile (\<lambda>l. l \<noteq> ''.'') ?T) - c + 1) else (file_of ?T, 0))"
      using False fetch_lines_edit [OF fl ix less.prems(3,1,2)] by (simp add: fetch_def Let_def)
    have h: "change_head D_EDIT a b c d = range_text a b '','' @ [if a > b then CHR ''a'' else CHR ''c'', NL]"
      using False by (simp add: change_head_def)
    show ?thesis
    proof (cases ?T rule: split_at_dot)
      case 1
      then show ?thesis using False fl T
        by (subst change.simps) (simp add: Let_def f h plain_def ed_change_plain)
    next
      case (2 pre post)
      have len: "length pre + 1 + length post = d + 1 - c"
        using arg_cong [OF 2(1), of length] less.prems by simp
      have post: "drop (c + length pre) (take d B) = post"
        using arg_cong [OF 2(1), of "drop (length pre + 1)"] less.prems(1) by (simp add: add.commute)
      have tw: "takeWhile (\<lambda>l. l \<noteq> ''.'') (pre @ ''.'' # post) = pre" using 2(2) by (auto simp: takeWhile_append)
      have "change fl D_EDIT ck f1 (file_of B) (a + (length pre + 1)) (a + (length pre + 1) - 1) (c + (length pre + 1)) d =
          (file_of (ed_change (a + (length pre + 1)) (a + (length pre + 1) - 1)
             (drop (c + (length pre + 1) - 1) (take d B))), 
           \<not> (a + (length pre + 1) > a + (length pre + 1) - 1 \<and> c + (length pre + 1) > d))"
        using len less.prems False by (intro less.hyps) simp_all
      then have r: "fst (change fl D_EDIT ck f1 (file_of B) (a + (length pre + 1)) (a + (length pre + 1) - 1)
            (c + (length pre + 1)) d) = file_of (ed_change (a + length pre + 1) (a + length pre) post)"
        by (simp add: post)
      show ?thesis using False fl 2
        by (subst change.simps) (simp add: Let_def f tw h plain_def ed_change_dot r [simplified])
    qed
  qed
qed

lemma print_changes_edit:
  assumes fl: "plain fl" and ix: "file_ends (length B) B (ixnew ck)" "no_newline B"
  shows "edits_back A B i j cs \<Longrightarrow> j \<le> length B \<Longrightarrow>
    print_changes fl D_EDIT ck f1 (file_of B) cs = (file_of (ed_script B cs), ed_script B cs \<noteq> [])"
proof (induction cs arbitrary: i j)
  case (Cons x cs)
  obtain a b c d where x: "x = (a, b, c, d)" by (metis prod_cases4)
  from Cons.prems have e: "0 < c" "c \<le> d + 1" "d \<le> length B" "c - 1 \<le> length B"
    "edits_back A B (a - 1) (c - 1) cs" by (auto simp: x)
  let ?T = "drop (c - 1) (take d B)"
  have "?T = [] \<longleftrightarrow> c > d" using e by auto
  then have "ed_change a b ?T = [] \<longleftrightarrow> a > b \<and> c > d" by (subst ed_change.simps) (simp add: Let_def)
  then show ?case
    using change_edit [OF fl ix e(1-3)] Cons.IH [OF e(5,4)]
    by (cases "a > b") (simp_all add: x ed_script_def Let_def)
qed (simp add: ed_script_def)

lemma ed_script_no_newline: "no_newline B \<Longrightarrow> no_newline (ed_script B cs)"
proof -
  assume B: "no_newline B"
  have "no_newline (drop i (take j B))" for i j
    using B by (auto simp: no_newline_def dest: in_set_dropD in_set_takeD)
  then have "no_newline (ed_change a b (drop i (take j B)))" for a b i j by (rule ed_change_no_newline)
  then show ?thesis by (fastforce simp: no_newline_def ed_script_def)
qed

section \<open>Two files\<close>

lemma file_of_inject: "no_newline A \<Longrightarrow> no_newline B \<Longrightarrow> file_of A = file_of B \<longleftrightarrow> A = B"
  by (metis split_lines_file_of)

lemma lines_ascii: "lines_ok fl A \<Longrightarrow> d_forceascii fl \<or> asciifile (file_of A)"
  by (auto simp: lines_ok_def asciifile_def file_of_def split: if_splits dest!: in_set_takeD)

text \<open>No line with the hash 0, which \<open>equiv\<close> takes for the end of its lines.\<close>

definition hash_ok :: "string list \<Rightarrow> bool" where
  "hash_ok B \<longleftrightarrow> (\<forall>l\<in>set B. line_hash l \<noteq> 0)"

text \<open>Everything before the output: the checked match vector of two different files.\<close>

lemma diffreg_lines:
  assumes fl: "exact fl" and A: "lines_ok fl A" and B: "lines_ok fl B" "hash_ok B" and neq: "A \<noteq> B"
  obtains ck where "match_vec (same_line A B) (length A) (length B) (ck_J ck)"
    "file_ends (length A) A (ixold ck)" "file_ends (length B) B (ixnew ck)"
    "\<And>fmt. diffreg fl fmt (file_of A) (file_of B) =
       (case print_changes fl fmt ck (file_of A) (file_of B) (changes fmt (length A) (length B) (ck_J ck)) of
          (out, any) \<Rightarrow> Some (if any then D_DIFFER else D_SAME, out))"
proof -
  note nl = lines_ok_newline [OF A] lines_ok_newline [OF B(1)]
  obtain p where p: "prepare fl (file_of A) = Some (length A, p)" "length A + 3 \<le> length p"
    using prepare_lines [OF fl A] by metis
  obtain q where q: "prepare fl (file_of B) = Some (length B, q)" "length B + 3 \<le> length q"
    "\<And>k. 0 < k \<Longrightarrow> k \<le> length B \<Longrightarrow> d_value (q ! k) = line_hash (B ! (k - 1))"
    using prepare_lines [OF fl B(1)] by metis
  have nz: "d_value (q ! l) \<noteq> 0" if "0 < l" "l \<le> length B" for l
    using q(3) [OF that] that B(2) by (simp add: hash_ok_def)
  obtain J where J: "match_lines fl (length A, p) (length B, q) = Some J"
    "match_vec (same_value p q) (length A) (length B) J"
    using match_lines_correct [OF p(2) q(2) nz] by blast
  let ?ck = "check fl (length A) (length B) J (file_of A) (file_of B)"
  have "file_of A \<noteq> file_of B" using neq file_of_inject [OF nl] by simp
  then have "diffreg fl fmt (file_of A) (file_of B) =
      (case print_changes fl fmt ?ck (file_of A) (file_of B) (changes fmt (length A) (length B) (ck_J ?ck)) of
         (out, any) \<Rightarrow> Some (if any then D_DIFFER else D_SAME, out))" for fmt
    using lines_ascii [OF A] lines_ascii [OF B(1)]
    by (auto simp: diffreg_def p(1) q(1) J(1) Let_def split: prod.split)
  with that check_lines(1-3) [OF nl fl J(2)] show thesis by blast
qed

definition no_flags :: dflags where
  "no_flags = \<lparr>d_forceascii = False, d_foldblanks = False, d_minimal = False, d_ignorecase = False,
     d_expandtabs = False, d_ignoreblanks = False, d_stripcr = False, d_skipblanklines = False, d_Tflag = False\<rparr>"

text \<open>
  C3: \<open>diff -e\<close> on two files of lines: \<open>ed\<close> runs the script it writes to its end and makes the
  new file out of the old one, also where lines of the new file hold a single period. The two
  files are reported to be the same only if they are.
\<close>

theorem diff_ed_script:
  assumes "plain fl" "lines_ok fl A" "lines_ok fl B" "hash_ok B"
  shows "\<exists>r out. diffreg fl D_EDIT (file_of A) (file_of B) = Some (r, out) \<and>
    ed_run (split_lines out) A = Some B \<and> r = (if A = B then D_SAME else D_DIFFER)"
proof (cases "A = B")
  case True
  then show ?thesis by (simp add: diffreg_def)
next
  case False
  have fl: "exact fl" using assms(1) by (simp add: plain_def)
  obtain ck where ck: "match_vec (same_line A B) (length A) (length B) (ck_J ck)"
    "file_ends (length B) B (ixnew ck)"
    "diffreg fl D_EDIT (file_of A) (file_of B) =
       (case print_changes fl D_EDIT ck (file_of A) (file_of B) (changes D_EDIT (length A) (length B) (ck_J ck)) of
          (out, any) \<Rightarrow> Some (if any then D_DIFFER else D_SAME, out))"
    using diffreg_lines [OF fl assms(2-4) False] by metis
  let ?cs = "changes D_EDIT (length A) (length B) (ck_J ck)"
  note e = changes_edits_back [OF ck(1)] and nl = lines_ok_newline [OF assms(3)]
  have run: "ed_run (ed_script B ?cs) A = Some B" using ed_run_script [OF e] by simp
  then have "ed_script B ?cs \<noteq> []" using False by auto
  then show ?thesis
    using print_changes_edit [OF assms(1) ck(2) nl e] run False
      split_lines_file_of [OF ed_script_no_newline [OF nl]]
    by (simp add: ck(3))
qed

theorem diff_ed_script_witness:
  "\<exists>r out. diffreg no_flags D_EDIT (file_of [''a'', ''b'', ''c'']) (file_of [''a'', ''.'', ''x'', ''c'']) = Some (r, out) \<and>
    ed_run (split_lines out) [''a'', ''b'', ''c''] = Some [''a'', ''.'', ''x'', ''c''] \<and>
    r = (if [''a'', ''b'', ''c''] = [''a'', ''.'', ''x'', ''c''] then D_SAME else D_DIFFER)"
proof (rule diff_ed_script)
  show "plain no_flags" by code_simp
  show "lines_ok no_flags [''a'', ''b'', ''c'']" by code_simp
  show "lines_ok no_flags [''a'', ''.'', ''x'', ''c'']" by code_simp
  show "hash_ok [''a'', ''.'', ''x'', ''c'']" by code_simp
qed

text \<open>
  C4: with \<open>-d\<close> the lines that \<open>diff\<close> leaves alone are a longest common subsequence of the two
  files: no other has more lines than the pairs of the checked match vector, if different lines
  have different hashes. They are lines of both files in the same order.
\<close>

theorem diff_minimal:
  assumes fl: "exact fl" "d_minimal fl" and A: "lines_ok fl A" and B: "lines_ok fl B" "hash_ok B"
    and hash: "inj_on line_hash (set A \<union> set B)" and small: "length B < 2 ^ 32"
    and zs: "subseq zs A" "subseq zs B"
  shows "\<exists>l1 l2 J J'. prepare fl (file_of A) = Some l1 \<and> prepare fl (file_of B) = Some l2 \<and>
    match_lines fl l1 l2 = Some J \<and> J' = ck_J (check fl (length A) (length B) J (file_of A) (file_of B)) \<and>
    match_vec (same_line A B) (length A) (length B) J' \<and>
    length zs \<le> card {k. 0 < k \<and> k \<le> length A \<and> J' ! k \<noteq> 0}"
proof -
  note nl = lines_ok_newline [OF A] lines_ok_newline [OF B(1)]
  have eq: "map (\<lambda>k. d_value (p ! k)) [1..<length C + 1] = map line_hash C"
    if "\<And>k. 0 < k \<Longrightarrow> k \<le> length C \<Longrightarrow> d_value (p ! k) = line_hash (C ! (k - 1))" for p C
    using that by (intro nth_equalityI) (simp_all del: upt_Suc)
  obtain p where p: "prepare fl (file_of A) = Some (length A, p)" "length A + 3 \<le> length p"
    "\<And>k. 0 < k \<Longrightarrow> k \<le> length A \<Longrightarrow> d_value (p ! k) = line_hash (A ! (k - 1))"
    using prepare_lines [OF fl(1) A] by metis
  obtain q where q: "prepare fl (file_of B) = Some (length B, q)" "length B + 3 \<le> length q"
    "\<And>k. 0 < k \<Longrightarrow> k \<le> length B \<Longrightarrow> d_value (q ! k) = line_hash (B ! (k - 1))"
    using prepare_lines [OF fl(1) B(1)] by metis
  have nz: "d_value (q ! l) \<noteq> 0" if "0 < l" "l \<le> length B" for l
    using q(3) [OF that] that B(2) by (simp add: hash_ok_def)
  obtain J where J: "match_lines fl (length A, p) (length B, q) = Some J"
    "match_vec (same_value p q) (length A) (length B) J"
    "d_minimal fl \<and> length B < 2 ^ 32 \<and>
       subseq (map line_hash zs) (map (\<lambda>k. d_value (p ! k)) [1..<length A + 1]) \<and>
       subseq (map line_hash zs) (map (\<lambda>l. d_value (q ! l)) [1..<length B + 1]) \<longrightarrow>
       length (map line_hash zs) \<le> card {k. 0 < k \<and> k \<le> length A \<and> J ! k \<noteq> 0}"
    by (rule match_lines_correct [OF p(2) q(2) nz, of fl "map line_hash zs"])
  have "length (map line_hash zs) \<le> card {k. 0 < k \<and> k \<le> length A \<and> J ! k \<noteq> 0}"
    by (rule J(3) [rule_format]) (simp only: fl(2) small eq [OF p(3)] eq [OF q(3)] subseq_map zs)
  then have J3: "length zs \<le> card {k. 0 < k \<and> k \<le> length A \<and> J ! k \<noteq> 0}" by simp
  let ?J' = "ck_J (check fl (length A) (length B) J (file_of A) (file_of B))"
  have keep: "?J' ! k = J ! k" if k: "0 < k" "k \<le> length A" "J ! k \<noteq> 0" for k
  proof (rule check_lines(4) [OF nl fl(1) J(2) k])
    from J(2) k have j: "0 < J ! k" "J ! k \<le> length B" "d_value (p ! k) = d_value (q ! (J ! k))"
      by (auto simp: match_vec_def same_value_def)
    then have "line_hash (A ! (k - 1)) = line_hash (B ! (J ! k - 1))" using p(3) q(3) k by simp
    moreover have "A ! (k - 1) \<in> set A \<union> set B" "B ! (J ! k - 1) \<in> set A \<union> set B" using k j by simp_all
    ultimately show "same_line A B k (J ! k)" using hash by (simp add: same_line_def inj_on_def)
  qed
  have "card {k. 0 < k \<and> k \<le> length A \<and> J ! k \<noteq> 0} \<le> card {k. 0 < k \<and> k \<le> length A \<and> ?J' ! k \<noteq> 0}"
  proof (rule card_mono)
    show "{k. 0 < k \<and> k \<le> length A \<and> J ! k \<noteq> 0} \<subseteq> {k. 0 < k \<and> k \<le> length A \<and> ?J' ! k \<noteq> 0}" using keep by auto
  qed simp
  with J3 have "length zs \<le> card {k. 0 < k \<and> k \<le> length A \<and> ?J' ! k \<noteq> 0}" by (rule le_trans)
  with p(1) q(1) J(1) check_lines(1) [OF nl fl(1) J(2)] show ?thesis by blast
qed

theorem diff_minimal_witness:
  "\<exists>l1 l2 J J'. prepare (no_flags\<lparr>d_minimal := True\<rparr>) (file_of [''a'', ''b'']) = Some l1 \<and>
    prepare (no_flags\<lparr>d_minimal := True\<rparr>) (file_of [''b'', ''c'']) = Some l2 \<and>
    match_lines (no_flags\<lparr>d_minimal := True\<rparr>) l1 l2 = Some J \<and>
    J' = ck_J (check (no_flags\<lparr>d_minimal := True\<rparr>) (length [''a'', ''b'']) (length [''b'', ''c'']) J
      (file_of [''a'', ''b'']) (file_of [''b'', ''c''])) \<and>
    match_vec (same_line [''a'', ''b''] [''b'', ''c'']) (length [''a'', ''b'']) (length [''b'', ''c'']) J' \<and>
    length [''b''] \<le> card {k. 0 < k \<and> k \<le> length [''a'', ''b''] \<and> J' ! k \<noteq> 0}"
proof (rule diff_minimal)
  have h: "line_hash ''a'' = 224" "line_hash ''b'' = 225" "line_hash ''c'' = 226" by code_simp+
  show "exact (no_flags\<lparr>d_minimal := True\<rparr>)" by code_simp
  show "d_minimal (no_flags\<lparr>d_minimal := True\<rparr>)" by simp
  show "lines_ok (no_flags\<lparr>d_minimal := True\<rparr>) [''a'', ''b'']" by code_simp
  show "lines_ok (no_flags\<lparr>d_minimal := True\<rparr>) [''b'', ''c'']" by code_simp
  show "hash_ok [''b'', ''c'']" by code_simp
  show "inj_on line_hash (set [''a'', ''b''] \<union> set [''b'', ''c''])" by (auto simp: inj_on_def h)
  show "subseq [''b''] [''a'', ''b'']" "subseq [''b''] [''b'', ''c'']" by simp_all
qed simp

end
