(* ===== verification/DiffLimits.thy ===== *)
theory DiffLimits
  imports DiffEd
begin

text \<open>
  Two inputs that \<open>diff\<close> is not made for: a line whose hash is the value that ends its array, and
  a last line without a newline in a script.
\<close>

section \<open>A line with the hash 0\<close>

lemma equiv_run_zero: "\<forall>i<length b. d_value (b ! i) = 0 \<Longrightarrow> equiv_run b j c = None"
proof (induction b j c rule: equiv_run.induct)
  case (1 b j c)
  show ?case
  proof (cases "j + 1 \<ge> length b")
    case True
    then show ?thesis by (subst equiv_run.simps) simp
  next
    case False
    moreover have "d_value (b ! (j + 1)) = d_value (b ! j)" using False "1.prems" by simp
    ultimately show ?thesis using "1.IH" "1.prems" by (subst equiv_run.simps) simp
  qed
qed

lemma prepare_zero:
  assumes fl: "exact fl" and z: "lines_ok fl [z]" "line_hash z = 0"
  obtains N where "prepare fl (file_of [z]) = Some (1, replicate (N + 3) no_line)" "100 \<le> N"
proof -
  define sz where "sz = (if length (file_of [z]) div 25 < 100 then 100 else length (file_of [z]) div 25)"
  have l: "NL \<notin> set z" "d_forceascii fl \<or> NUL \<notin> set z" using z(1) by (auto simp: lines_ok_def)
  have "sint (foldl (\<lambda>h c. h * 127 + word_of_nat (code c)) (1 :: 32 word) z) = 0"
    using z(2) by (simp add: line_hash_def)
  then have "prepare_loop fl sz 0 (replicate (sz + 3) no_line) (file_of [z]) =
      prepare_loop fl sz 1 ((replicate (sz + 3) no_line)[1 := no_line\<lparr>d_value := 0\<rparr>]) []"
    using readhash_loop_line [OF fl l, of 0 1 "[]"]
    by (subst prepare_loop.simps) (simp add: readhash_def sz_def)
  also have "\<dots> = Some (1, (replicate (sz + 3) no_line)[1 := no_line\<lparr>d_value := 0\<rparr>])"
    by (subst prepare_loop.simps) (simp add: readhash_def)
  also have "(replicate (sz + 3) no_line)[1 := no_line\<lparr>d_value := 0\<rparr>] = replicate (sz + 3) no_line"
    by (intro nth_equalityI) (simp_all add: nth_list_update no_line_def del: replicate_Suc)
  finally have "prepare fl (file_of [z]) = Some (1, replicate (sz + 3) no_line)"
    by (simp only: prepare_def sz_def Let_def)
  with that [of sz] show thesis by (simp add: sz_def)
qed

text \<open>
  C39: When the new file is a single line with the hash 0, and no line of the old one has it,
  \<open>diff\<close> reads behind the end of its array of lines: the entry behind the last line is set to
  the value 0 to stop the loop over equal lines, and is equal to the line.
\<close>

theorem diff_hash_zero:
  assumes fl: "exact fl" and A: "lines_ok fl A" "hash_ok A" and z: "lines_ok fl [z]" "line_hash z = 0"
  shows "diffreg fl fmt (file_of A) (file_of [z]) = None"
proof -
  obtain p where p: "prepare fl (file_of A) = Some (length A, p)"
    "\<And>k. 0 < k \<Longrightarrow> k \<le> length A \<Longrightarrow> d_value (p ! k) = line_hash (A ! (k - 1))"
    using prepare_lines [OF fl A(1)] by metis
  obtain N where q: "prepare fl (file_of [z]) = Some (1, replicate (N + 3) no_line)" "100 \<le> N"
    using prepare_zero [OF fl z] .
  let ?q = "replicate (N + 3) no_line" and ?n = "length A"
  have nz: "d_value (p ! k) \<noteq> 0" if "0 < k" "k \<le> ?n" for k
    using p(2) [OF that] that A(2) by (simp add: hash_ok_def)
  have pre: "prune_prefix p ?n ?q 1 0 = 0"
    using nz [of 1] by (subst prune_prefix.simps) (cases "A = []"; simp add: no_line_def Suc_le_eq)
  have suf: "prune_suffix p ?n ?q 1 0 0 = 0"
    using nz [of ?n] by (subst prune_suffix.simps) (auto simp: no_line_def)
  have g: "shell_gap (Suc 0) (Suc 0) 0 = Suc 0" by (subst shell_gap.simps, subst shell_gap.simps) simp
  have s: "shellsort b 1 = b" for b
    by (simp add: shellsort_def g) (subst shell_loop.simps, simp)
  let ?b = "number_lines 1 ?q"
  have b: "\<forall>i<length b. d_value (b ! i) = 0" if "b = ?b[2 := (?b ! 2)\<lparr>d_value := 0\<rparr>]" for b
    unfolding that by (auto simp: number_lines_def no_line_def nth_list_update simp del: replicate_Suc upt_Suc)
  have m: "equiv_members 1 (?b[2 := (?b ! 2)\<lparr>d_value := 0\<rparr>]) 0 c = None" for c
    by (subst equiv_members.simps) (simp only: equiv_run_zero [OF b [OF refl]] option.case, simp)
  have "equiv_lines a sn ?b 1 = None" for a sn
    using m by (simp add: equiv_lines_def numeral_2_eq_2)
  then have ml: "match_lines fl (?n, p) (1, ?q) = None"
    by (simp only: match_lines_def pre suf s Let_def prod.case diff_zero drop_0 option.case)
  have "A \<noteq> [z]" using A(2) z(2) by (auto simp: hash_ok_def)
  then have "file_of A \<noteq> file_of [z]"
    using file_of_inject lines_ok_newline [OF A(1)] lines_ok_newline [OF z(1)] by blast
  then show ?thesis
    using lines_ascii [OF A(1)] lines_ascii [OF z(1)] p(1) q(1) ml
    by (auto simp: diffreg_def simp del: replicate_Suc file_of_simps)
qed

theorem diff_hash_zero_witness:
  "diffreg no_flags D_NORMAL (file_of [''x'']) (file_of [''jdleqcf'']) = None"
proof (rule diff_hash_zero)
  show "exact no_flags" by code_simp
  show "lines_ok no_flags [''x'']" by code_simp
  show "hash_ok [''x'']" by code_simp
  show "lines_ok no_flags [''jdleqcf'']" by code_simp
  show "line_hash ''jdleqcf'' = 0" by code_simp
qed

section \<open>A last line without a newline\<close>

lemma readhash_loop_end:
  assumes "exact fl"
  shows "NL \<notin> set l \<Longrightarrow> d_forceascii fl \<or> NUL \<notin> set l \<Longrightarrow>
    readhash_loop fl i 0 h0 l =
      (if i + length l = 0 then RH_EOF else RH_OK, foldl (\<lambda>h c. h * 127 + word_of_nat (code c)) h0 l, [])"
  using assms by (induction l arbitrary: i h0) (auto simp: exact_def Let_def chrtran_def)

lemma fetch_chars_end:
  assumes fl: "plain fl"
  shows "NL \<notin> set l \<Longrightarrow> fetch_chars fl D_EDIT (j + length l + 1) j col lastc l = (l, Ended)"
proof (induction l arbitrary: j col lastc)
  case Nil
  then show ?case using fl by (subst fetch_chars.simps) (simp add: fgetchar_def plain_def exact_def Let_def)
next
  case (Cons c l)
  from Cons.IH [of "Suc j" _ c] Cons.prems fl show ?case
    by (subst fetch_chars.simps) (auto simp: fgetchar_def plain_def exact_def Let_def)
qed

lemma skipline_end: "NL \<notin> set l \<Longrightarrow> skipline l = (length l + 1, [])"
  by (induction l) auto



end
