(* ===== verification/Patch.thy ===== *)
theory Patch
  imports Prelude
begin

text \<open>
  \<open>patch\<close> on a normal diff (\<open>pch.c\<close>, \<open>inp.c\<close>, \<open>patch.c\<close>): the lines of the input file, the hunks
  parsed from the patch and turned around, the search for the place of a hunk, its application,
  and the loop over the hunks with the rejected ones. A \<open>LINENUM\<close> is an integer. The patch and
  the input are strings; names of files, messages and running out of memory are left out.
\<close>

datatype patch_error =
  MalformedPatch | HunkTooLarge | UnexpectedEnd | ExpectedChar char | Misordered | OutOfSync | InternalError
  | OutOfBounds

abbreviation (input) LINENUM_MAX :: int where "LINENUM_MAX \<equiv> 2 ^ 63 - 1"
abbreviation (input) MAXHUNKSIZE :: int where "MAXHUNKSIZE \<equiv> 100000"
abbreviation (input) INITHUNKMAX :: int where "INITHUNKMAX \<equiv> 125"

text \<open>
  What the switches set: \<open>-D\<close> gives the three lines that it writes. \<open>pf_answer1\<close> and
  \<open>pf_answer2\<close> are the characters typed when \<open>patch\<close> asks about a reversed patch.
\<close>

record pflags =
  pf_force :: bool
  pf_batch :: bool
  pf_noreverse :: bool
  pf_reverse :: bool
  pf_canonicalize :: bool
  pf_maxfuzz :: int
  pf_answer1 :: char
  pf_answer2 :: char
  pf_defines :: "(string \<times> string \<times> string) option"

section \<open>The input file\<close>

record pinput =
  in_lines :: "string list"
  in_missing_eol :: bool

text \<open>
  The lines up to the first NUL, without their newlines; a last line without one is counted when
  the file does not end with a newline.
\<close>

fun scan_lines :: "bool \<Rightarrow> string \<Rightarrow> string \<Rightarrow> string list" where
  "scan_lines miss l [] = (if miss then [l] else [])"
| "scan_lines miss l (c # s) =
     (if c = NUL then (if miss then [l] else [])
      else if c = NL then l # scan_lines miss [] s
      else scan_lines miss (l @ [c]) s)"

definition plan_a :: "string \<Rightarrow> pinput" where
  "plan_a f =
     (let miss = (f \<noteq> [] \<and> last f \<noteq> NL) in \<lparr>in_lines = scan_lines miss [] f, in_missing_eol = miss\<rparr>)"

definition input_lines :: "pinput \<Rightarrow> int" where
  "input_lines inp = int (length (in_lines inp))"

definition ifetch :: "pinput \<Rightarrow> int \<Rightarrow> string option" where
  "ifetch inp line = (if line < 1 \<or> line > input_lines inp then None else Some (in_lines inp ! nat (line - 1) @ [NL]))"

section \<open>Reading the patch\<close>

fun strip_indent :: "nat \<Rightarrow> nat \<Rightarrow> string \<Rightarrow> string" where
  "strip_indent p i [] = []"
| "strip_indent p i (c # s) =
     (if i < p \<and> c \<in> {CHR '' '', TAB, CHR ''X''}
      then strip_indent p (if c = TAB then i + (8 - i mod 7) else i + 1) s
      else c # s)"

definition getline :: "string \<Rightarrow> (string \<times> string) option" where
  "getline f =
     (if f = [] then None
      else
        case dropWhile (\<lambda>c. c \<noteq> NL) f of
          [] \<Rightarrow> Some (f, [])
        | n # r \<Rightarrow> Some (takeWhile (\<lambda>c. c \<noteq> NL) f @ [NL], r))"

definition pgetline :: "nat \<Rightarrow> string \<Rightarrow> (string \<times> string) option" where
  "pgetline indent f =
     (case getline f of
        None \<Rightarrow> None
      | Some (l, r) \<Rightarrow> Some (let s = strip_indent indent 0 l in if s = l then l else cstr s, r))"

lemma getline_shrinks: "getline f = Some (l, r) \<Longrightarrow> length r < length f"
proof -
  assume g: "getline f = Some (l, r)"
  have "length (dropWhile (\<lambda>c. c \<noteq> NL) f) \<le> length f" by (rule length_dropWhile_le)
  with g show ?thesis by (auto simp: getline_def split: if_splits list.splits)
qed

lemma pgetline_shrinks: "pgetline ind f = Some (l, r) \<Longrightarrow> length r < length f"
  by (auto simp: pgetline_def dest: getline_shrinks split: option.splits)

text \<open>\<open>atol\<close>, with the limits of a \<open>long\<close> beyond its range.\<close>

definition atol :: "string \<Rightarrow> int" where
  "atol s =
     (let s = dropWhile (\<lambda>c. isspace (code c)) s;
          neg = (at0 s = CHR ''-'');
          s = (if neg \<or> at0 s = CHR ''+'' then tl s else s);
          v = foldl (\<lambda>n c. 10 * n + int (code c - 48)) 0 (takeWhile (\<lambda>c. isdigit (code c)) s)
      in if neg then max (- v) (- LINENUM_MAX - 1) else min v LINENUM_MAX)"

definition getlinenum :: "string \<Rightarrow> patch_error + int" where
  "getlinenum s = (if atol s < 0 then Inl MalformedPatch else Inr (atol s))"

definition getskiplinenum :: "string \<Rightarrow> patch_error + int \<times> string" where
  "getskiplinenum s = rmap (\<lambda>l. (l, dropWhile (\<lambda>c. isdigit (code c)) s)) (getlinenum s)"

definition remove_special_line :: "string \<Rightarrow> bool \<times> string" where
  "remove_special_line f =
     (case f of
        [] \<Rightarrow> (False, [])
      | c # r \<Rightarrow> if c = CHR 0x5C then (True, tl (dropWhile (\<lambda>c. c \<noteq> NL) r)) else (False, f))"

section \<open>Hunks\<close>

text \<open>
  The lines of a hunk with their control characters: the header of the old lines, the old lines,
  the header of the new lines, the new lines. \<open>p_stop\<close> is the character behind the last one.
\<close>

record hunk =
  p_first :: int
  p_newfirst :: int
  p_ptrn_lines :: int
  p_repl_lines :: int
  p_end :: int
  p_context :: int
  p_line :: "string list"
  p_char :: "char list"
  p_hunkmax :: int
  p_stop :: char

text \<open>
  The control character of a line. One line behind the last one is the stopper, or, when the
  arrays are full, the byte \<open>junk\<close> that lies behind the array.
\<close>

definition pch_char :: "char \<Rightarrow> hunk \<Rightarrow> int \<Rightarrow> patch_error + char" where
  "pch_char junk h i =
     (if i < 0 then Inl OutOfBounds
      else if i = p_end h + 1 then Inr (if p_end h + 1 < p_hunkmax h then p_stop h else junk)
      else if i < int (length (p_char h)) then Inr (p_char h ! nat i)
      else Inl OutOfBounds)"

definition pfetch :: "hunk \<Rightarrow> int \<Rightarrow> patch_error + string" where
  "pfetch h i = (if 0 \<le> i \<and> i < int (length (p_line h)) then Inr (p_line h ! nat i) else Inl OutOfBounds)"

text \<open>\<open>%ld\<close> of a number that is not negative.\<close>

fun ldecimal :: "nat \<Rightarrow> string" where
  "ldecimal n = (if n < 10 then [chr (48 + n)] else ldecimal (n div 10) @ [chr (48 + n mod 10)])"

declare ldecimal.simps [simp del]

definition show_ld :: "int \<Rightarrow> string" where
  "show_ld i = (if i < 0 then CHR ''-'' # ldecimal (nat (- i)) else ldecimal (nat i))"

definition pch_swap :: "hunk \<Rightarrow> patch_error + hunk" where
  "pch_swap h =
     rbind (pch_char NUL h (p_ptrn_lines h + 1)) (\<lambda>sep.
       let blank = (sep = NL);
           k = nat (p_ptrn_lines h + 1);
           i = (if blank then k + 1 else k);
           news = drop i (zip (p_char h) (p_line h));
           mid = (if blank then [(p_char h ! k, p_line h ! k)] else []);
           olds = take (length (p_char h) - length news - length mid) (zip (p_char h) (p_line h))
       in
         if news = [] \<or> olds = [] then Inl OutOfBounds
         else if fst (hd news) \<noteq> CHR ''='' then Inl InternalError
         else if int (length olds) \<noteq> p_ptrn_lines h + 1 then Inl InternalError
         else
           let news = (CHR ''*'', map (\<lambda>c. if c = CHR ''-'' then CHR ''*'' else c) (snd (hd news))) #
                 map (\<lambda>(c, l). (if c = CHR ''+'' then CHR ''-'' else c, l)) (tl news);
               olds = (CHR ''='', map (\<lambda>c. if c = CHR ''*'' then CHR ''-'' else c) (snd (hd olds))) #
                 map (\<lambda>(c, l). (if c = CHR ''-'' then CHR ''+'' else c, l)) (tl olds);
               all = news @ mid @ olds
           in Inr (h\<lparr>p_first := p_newfirst h, p_newfirst := p_first h, p_ptrn_lines := p_repl_lines h,
                    p_repl_lines := p_ptrn_lines h, p_line := map snd all, p_char := map fst all, p_stop := NUL\<rparr>))"

text \<open>The lines that begin with \<open>ch\<close> and a blank. A line without its second character is read past its end.\<close>

fun hunk_lines :: "nat \<Rightarrow> char \<Rightarrow> nat \<Rightarrow> string \<Rightarrow> patch_error + string list \<times> string" where
  "hunk_lines ind ch 0 f = Inr ([], f)"
| "hunk_lines ind ch (Suc n) f =
     (case pgetline ind f of
        None \<Rightarrow> Inl UnexpectedEnd
      | Some (l, f) \<Rightarrow>
          if at0 l \<noteq> ch then Inl (ExpectedChar ch)
          else if length l < 2 then Inl OutOfBounds
          else rmap (\<lambda>(ls, f). (cstr (drop 2 l) # ls, f)) (hunk_lines ind ch n f))"

text \<open>
  The newline of the line before is taken off when \<open>diff\<close> says that it has none. The length of a
  header is not set, and an empty line has no character to take off.
\<close>

definition special_line :: "string list \<Rightarrow> string \<Rightarrow> patch_error + string list \<times> string" where
  "special_line ls f =
     (case remove_special_line f of
        (False, f) \<Rightarrow> Inr (ls, f)
      | (True, f) \<Rightarrow>
          if ls = [] \<or> last ls = [] then Inl OutOfBounds else Inr (butlast ls @ [butlast (last ls)], f))"

function grow_hunkmax :: "int \<Rightarrow> int \<Rightarrow> int" where
  "grow_hunkmax pend m = (if pend \<ge> m \<and> m > 0 then grow_hunkmax pend (m * 2) else m)"
  by pat_completeness auto
termination
  by (relation "measure (\<lambda>(pend, m). nat (pend + 1 - m))") auto

declare grow_hunkmax.simps [simp del]

text \<open>The numbers of the command line of a hunk: the type, \<open>p_first\<close>, \<open>p_ptrn_lines\<close>, \<open>min\<close> and \<open>max\<close>.\<close>

definition hunk_head :: "string \<Rightarrow> patch_error + char \<times> int \<times> int \<times> int \<times> int" where
  "hunk_head buf =
     rbind (getskiplinenum buf) (\<lambda>(first, s).
     rbind (if at0 s = CHR '','' then rmap (\<lambda>(l, s). (l - first + 1, s)) (getskiplinenum (tl s))
            else Inr (if at0 s \<noteq> CHR ''a'' then 1 else 0, s)) (\<lambda>(ptrn, s).
       if first \<ge> LINENUM_MAX - ptrn then Inl MalformedPatch
       else if s = [] then Inl OutOfBounds
       else
         let ty = at0 s; first = (if ty = CHR ''a'' then first + 1 else first) in
         rbind (getskiplinenum (tl s)) (\<lambda>(min, s).
         rbind (if at0 s = CHR '','' then getlinenum (tl s) else Inr min) (\<lambda>max.
           if min > max \<or> max - min = LINENUM_MAX then Inl MalformedPatch
           else Inr (ty, first, ptrn, if ty = CHR ''d'' then min + 1 else min, max)))))"

text \<open>The old and the new lines below the command line, with the line between them.\<close>

definition hunk_sep :: "nat \<Rightarrow> char \<Rightarrow> string \<Rightarrow> patch_error + string" where
  "hunk_sep ind ty f =
     (if ty = CHR ''c'' then
        (case pgetline ind f of
           None \<Rightarrow> Inl UnexpectedEnd
         | Some (l, f) \<Rightarrow> if at0 l \<noteq> CHR ''-'' then Inl (ExpectedChar CHR ''-'') else Inr f)
      else Inr f)"

definition hunk_body ::
  "nat \<Rightarrow> char \<Rightarrow> int \<Rightarrow> int \<Rightarrow> string \<Rightarrow> patch_error + string list \<times> string list \<times> string"
where
  "hunk_body ind ty ptrn pend f =
     rbind (hunk_lines ind CHR ''<'' (nat ptrn) f) (\<lambda>(olds, f).
     rbind (special_line olds f) (\<lambda>(olds, f).
     rbind (hunk_sep ind ty f) (\<lambda>f.
     rbind (hunk_lines ind CHR ''>'' (nat (pend - (int (length olds) + 1))) f) (\<lambda>(news, f).
     rmap (\<lambda>(news, f). (olds, news, f)) (special_line news f)))))"

definition make_hunk :: "int \<Rightarrow> int \<Rightarrow> int \<Rightarrow> int \<Rightarrow> string list \<Rightarrow> string list \<Rightarrow> int \<Rightarrow> hunk" where
  "make_hunk first ptrn lo hi olds news hunkmax =
     \<lparr>p_first = first, p_newfirst = lo, p_ptrn_lines = ptrn, p_repl_lines = hi - lo + 1,
      p_end = ptrn + (hi - lo + 1) + 1, p_context = 0,
      p_line = (''*** '' @ show_ld first @ '','' @ show_ld (first + ptrn - 1) @ [NL]) # olds @
        (''--- '' @ show_ld lo @ '','' @ show_ld hi @ [NL]) # news,
      p_char = CHR ''*'' # replicate (length olds) CHR ''-'' @ CHR ''='' # replicate (length news) CHR ''+'',
      p_hunkmax = grow_hunkmax (ptrn + (hi - lo + 1) + 1) hunkmax, p_stop = CHR ''^''\<rparr>"

text \<open>
  The next hunk of a normal diff and the rest of the patch; \<open>None\<close> at its end. The stopper is
  written before the array when the range of the old lines is turned around.
\<close>

definition another_hunk :: "nat \<Rightarrow> bool \<Rightarrow> int \<Rightarrow> string \<Rightarrow> patch_error + (hunk \<times> string) option" where
  "another_hunk ind reverse hunkmax f =
     (case pgetline ind f of
        None \<Rightarrow> Inr None
      | Some (buf, f) \<Rightarrow>
          if \<not> isdigit (code (at0 buf)) then Inr None
          else
            rbind (hunk_head buf) (\<lambda>(ty, first, ptrn, min, max).
              let repl = max - min + 1; pend = ptrn + repl + 1 in
              if min > LINENUM_MAX - repl \<or> ptrn \<ge> LINENUM_MAX - repl - 1 then Inl MalformedPatch
              else if pend > MAXHUNKSIZE then Inl HunkTooLarge
              else
                rbind (hunk_body ind ty ptrn pend f) (\<lambda>(olds, news, f).
                  let h = make_hunk first ptrn min max olds news hunkmax in
                  rbind (if reverse then pch_swap h else Inr h) (\<lambda>h.
                    if p_end h + 1 < 0 then Inl OutOfBounds
                    else Inr (Some (h\<lparr>p_stop := CHR ''^''\<rparr>, f))))))"

lemma hunk_lines_shrinks: "hunk_lines ind ch n f = Inr (ls, f') \<Longrightarrow> length f' \<le> length f"
  by (induction n arbitrary: f ls)
    (fastforce simp: result_simps split: option.splits if_splits dest: pgetline_shrinks)+

lemma special_line_shrinks: "special_line ls f = Inr (ls', f') \<Longrightarrow> length f' \<le> length f"
proof -
  have "length (tl (dropWhile P r)) \<le> length r" for P and r :: string
    using length_dropWhile_le [of P r] by simp
  then show "special_line ls f = Inr (ls', f') \<Longrightarrow> length f' \<le> length f"
    by (auto simp: special_line_def remove_special_line_def le_SucI split: prod.splits bool.splits list.splits if_splits)
qed

lemma hunk_sep_shrinks: "hunk_sep ind ty f = Inr f' \<Longrightarrow> length f' \<le> length f"
  by (auto simp: hunk_sep_def dest: pgetline_shrinks split: if_splits option.splits)

lemma hunk_body_shrinks: "hunk_body ind ty ptrn pend f = Inr (olds, news, f') \<Longrightarrow> length f' \<le> length f"
  unfolding hunk_body_def
  by (force simp: result_simps dest: hunk_lines_shrinks special_line_shrinks hunk_sep_shrinks)

lemma another_hunk_shrinks: "another_hunk ind reverse m f = Inr (Some (h, f')) \<Longrightarrow> length f' < length f"
  unfolding another_hunk_def Let_def
  by (auto simp: result_simps split: option.splits if_splits prod.splits
      dest!: pgetline_shrinks hunk_body_shrinks)

section \<open>The place of a hunk\<close>

text \<open>Lines with the same words. The pattern is its first \<open>len\<close> characters, a NUL behind them.\<close>

function similar :: "string \<Rightarrow> string \<Rightarrow> bool" where
  "similar a b =
     (if b = [] then True
      else if isspace (code (hd b)) then
        if \<not> isspace (code (at0 a)) then False
        else
          let b' = dropWhile (\<lambda>c. isspace (code c) \<and> c \<noteq> NL) b;
              a' = dropWhile (\<lambda>c. isspace (code c) \<and> c \<noteq> NL) a
          in if at0 a' = NL \<or> at0 b' = NL then at0 a' = at0 b' else similar a' b'
      else if at0 a \<noteq> hd b then False
      else similar (tl a) (tl b))"
  by pat_completeness auto
termination
proof (relation "measure (\<lambda>(a, b). length b)")
  fix a b b' a' :: string
  assume b: "b \<noteq> []" "isspace (code (hd b))" "b' = dropWhile (\<lambda>c. isspace (code c) \<and> c \<noteq> NL) b"
    and n: "\<not> (at0 a' = NL \<or> at0 b' = NL)"
  show "((a', b'), a, b) \<in> measure (\<lambda>(a, b). length b)"
  proof (cases b)
    case (Cons c s)
    then have "c \<noteq> NL" using b n by auto
    with Cons b show ?thesis by (simp add: le_imp_less_Suc length_dropWhile_le)
  qed (use b in simp)
qed auto

declare similar.simps [simp del]

text \<open>An input line against a line of the pattern, and the end of the last line.\<close>

definition match_line :: "bool \<Rightarrow> pinput \<Rightarrow> int \<Rightarrow> string \<Rightarrow> string \<Rightarrow> patch_error + bool" where
  "match_line canonicalize inp iline il pl =
     (if \<not> (if canonicalize then similar il pl else take (length pl) il = pl) then Inr False
      else if iline = input_lines inp then
        (if pl = [] then Inl OutOfBounds else Inr ((last pl = NL) = (\<not> in_missing_eol inp)))
      else Inr True)"

function patch_match_loop :: "bool \<Rightarrow> pinput \<Rightarrow> hunk \<Rightarrow> int \<Rightarrow> int \<Rightarrow> int \<Rightarrow> patch_error + bool" where
  "patch_match_loop can inp h pline pat_lines iline =
     (if pline > pat_lines then Inr True
      else
        case ifetch inp iline of
          None \<Rightarrow> Inr False
        | Some il \<Rightarrow>
            rbind (pfetch h pline) (\<lambda>pl.
            rbind (match_line can inp iline il pl) (\<lambda>ok.
              if ok then patch_match_loop can inp h (pline + 1) pat_lines (iline + 1) else Inr False)))"
  by pat_completeness auto
termination
  by (relation "measure (\<lambda>(can, inp, h, pline, pat_lines, iline). nat (pat_lines + 1 - pline))") auto

declare patch_match_loop.simps [simp del]

definition patch_match :: "bool \<Rightarrow> pinput \<Rightarrow> hunk \<Rightarrow> int \<Rightarrow> int \<Rightarrow> int \<Rightarrow> patch_error + bool" where
  "patch_match can inp h base offset fuzz =
     patch_match_loop can inp h (1 + fuzz) (p_ptrn_lines h - fuzz) (base + offset + fuzz)"

text \<open>The line where the hunk fits, 0 for none, and the new \<open>last_offset\<close>.\<close>

function locate_loop ::
  "bool \<Rightarrow> pinput \<Rightarrow> hunk \<Rightarrow> int \<Rightarrow> int \<Rightarrow> int \<Rightarrow> int \<Rightarrow> int \<Rightarrow> int \<Rightarrow> patch_error + int \<times> int"
where
  "locate_loop can inp h fuzz first_guess last_offset max_pos max_neg offset =
     rbind (if offset \<le> max_pos then patch_match can inp h first_guess offset fuzz else Inr False) (\<lambda>after.
       if after then Inr (first_guess + offset, offset)
       else
         rbind (if offset \<le> max_neg then patch_match can inp h first_guess (- offset) fuzz else Inr False) (\<lambda>before.
           if before then Inr (first_guess - offset, - offset)
           else if \<not> offset \<le> max_neg \<and> \<not> offset \<le> max_pos then Inr (0, last_offset)
           else locate_loop can inp h fuzz first_guess last_offset max_pos max_neg (offset + 1)))"
  by pat_completeness auto
termination
  by (relation "measure (\<lambda>(can, inp, h, fuzz, g, l, p, n, offset). nat (max p n + 1 - offset))") auto

declare locate_loop.simps [simp del]

definition locate_hunk :: "bool \<Rightarrow> pinput \<Rightarrow> hunk \<Rightarrow> int \<Rightarrow> int \<Rightarrow> int \<Rightarrow> patch_error + int \<times> int" where
  "locate_hunk can inp h frozen last_offset fuzz =
     (let first_guess = p_first h + last_offset;
          pat_lines = p_ptrn_lines h;
          max_pos = input_lines inp - first_guess - pat_lines + 1;
          max_neg = first_guess - frozen - 1 + p_context h;
          max_neg = (if max_neg \<ge> first_guess then first_guess - 1 else max_neg)
      in
        if pat_lines = 0 then Inr (first_guess, last_offset)
        else
          rbind (if first_guess \<le> input_lines inp then patch_match can inp h first_guess 0 fuzz else Inr False)
            (\<lambda>here.
              if here then Inr (first_guess, last_offset)
              else locate_loop can inp h fuzz first_guess last_offset max_pos max_neg 1))"

section \<open>Applying a hunk\<close>

text \<open>The output and the number of input lines that are in it or dropped.\<close>

record pout =
  last_frozen_line :: int
  ofp :: string

definition dump_line :: "pinput \<Rightarrow> int \<Rightarrow> bool \<Rightarrow> string" where
  "dump_line inp line write_newline =
     (case ifetch inp line of None \<Rightarrow> [] | Some l \<Rightarrow> butlast l @ (if write_newline then [NL] else []))"

definition copy_till :: "pinput \<Rightarrow> int \<Rightarrow> bool \<Rightarrow> pout \<Rightarrow> patch_error + pout" where
  "copy_till inp lastline endoffile s =
     (if last_frozen_line s > lastline then Inl Misordered
      else
        Inr (s\<lparr>last_frozen_line := lastline,
               ofp := ofp s @ concat (map (\<lambda>k. dump_line inp k (if k = lastline \<and> endoffile then \<not> in_missing_eol inp else True))
                 [last_frozen_line s + 1..lastline])\<rparr>))"

definition put :: "string \<Rightarrow> pout \<Rightarrow> pout" where
  "put t s = s\<lparr>ofp := ofp s @ t\<rparr>"

text \<open>The lines of \<open>-D\<close> before an old and before a new line, and after them.\<close>

datatype def_state = OUTSIDE | IN_IFNDEF | IN_IFDEF | IN_ELSE

type_synonym pdefs = "(string \<times> string \<times> string) option"

abbreviation (input) else_defined :: string where "else_defined \<equiv> ''#else'' @ [NL]"

definition def_old :: "pdefs \<Rightarrow> def_state \<Rightarrow> string \<times> def_state" where
  "def_old d ds =
     (case d of
        None \<Rightarrow> ([], ds)
      | Some (if_defined, not_defined, end_defined) \<Rightarrow>
          if ds = OUTSIDE then (not_defined, IN_IFNDEF)
          else if ds = IN_IFDEF then (else_defined, IN_ELSE) else ([], ds))"

definition def_new :: "pdefs \<Rightarrow> def_state \<Rightarrow> string \<times> def_state" where
  "def_new d ds =
     (case d of
        None \<Rightarrow> ([], ds)
      | Some (if_defined, not_defined, end_defined) \<Rightarrow>
          if ds = IN_IFNDEF then (else_defined, IN_ELSE)
          else if ds = OUTSIDE then (if_defined, IN_IFDEF) else ([], ds))"

definition def_end :: "pdefs \<Rightarrow> def_state \<Rightarrow> string \<times> def_state" where
  "def_end d ds =
     (case d of
        None \<Rightarrow> ([], ds)
      | Some (if_defined, not_defined, end_defined) \<Rightarrow> if ds \<noteq> OUTSIDE then (end_defined, OUTSIDE) else ([], ds))"

text \<open>The old text that \<open>-D\<close> keeps.\<close>

definition keep_old :: "pdefs \<Rightarrow> hunk \<Rightarrow> int \<Rightarrow> patch_error + string" where
  "keep_old d h old = (if d = None then Inr [] else pfetch h old)"

text \<open>The runs of changed lines.\<close>

function bang_old :: "char \<Rightarrow> pdefs \<Rightarrow> hunk \<Rightarrow> int \<Rightarrow> pout \<Rightarrow> patch_error + int \<times> pout" where
  "bang_old junk d h old s =
     rbind (pch_char junk h old) (\<lambda>c.
       if c = CHR ''!'' then
         rbind (keep_old d h old) (\<lambda>t.
           bang_old junk d h (old + 1) (put t s\<lparr>last_frozen_line := last_frozen_line s + 1\<rparr>))
       else Inr (old, s))"
  by pat_completeness auto
termination
  by (relation "measure (\<lambda>(junk, d, h, old, s). nat (max (p_end h + 2) (int (length (p_char h))) - old))")
    (auto simp: pch_char_def split: if_splits)

function put_run :: "char \<Rightarrow> char \<Rightarrow> hunk \<Rightarrow> int \<Rightarrow> pout \<Rightarrow> patch_error + int \<times> pout" where
  "put_run junk ch h new s =
     rbind (pch_char junk h new) (\<lambda>c.
       if c = ch then rbind (pfetch h new) (\<lambda>t. put_run junk ch h (new + 1) (put t s)) else Inr (new, s))"
  by pat_completeness auto
termination
  by (relation "measure (\<lambda>(junk, ch, h, new, s). nat (max (p_end h + 2) (int (length (p_char h))) - new))")
    (auto simp: pch_char_def split: if_splits)

declare bang_old.simps [simp del] put_run.simps [simp del]

lemma bang_old_ge: "bang_old junk d h old s = Inr (old', s') \<Longrightarrow> old \<le> old'"
proof (induction junk d h old s rule: bang_old.induct)
  case (1 junk d h old s)
  from "1.prems" show ?case
    by (subst (asm) bang_old.simps) (auto simp: result_simps dest!: "1.IH" split: if_splits)
qed

lemma bang_old_more:
  "bang_old junk d h old s = Inr (old', s') \<Longrightarrow> pch_char junk h old = Inr CHR ''!'' \<Longrightarrow> old < old'"
  by (subst (asm) bang_old.simps) (auto simp: result_simps dest!: bang_old_ge)

lemma put_run_ge: "put_run junk ch h new s = Inr (new', s') \<Longrightarrow> new \<le> new'"
proof (induction junk ch h new s rule: put_run.induct)
  case (1 junk ch h new s)
  from "1.prems" show ?case
    by (subst (asm) put_run.simps) (auto simp: result_simps dest!: "1.IH" split: if_splits)
qed

text \<open>The old lines of a hunk, with the new lines before and among them.\<close>

function apply_old ::
  "char \<Rightarrow> pdefs \<Rightarrow> pinput \<Rightarrow> hunk \<Rightarrow> int \<Rightarrow> int \<Rightarrow> int \<Rightarrow> def_state \<Rightarrow> pout \<Rightarrow>
     patch_error + int \<times> int \<times> def_state \<times> pout"
where
  "apply_old junk d inp h where old new ds s =
     (if \<not> old \<le> p_ptrn_lines h then Inr (old, new, ds, s)
      else
        rbind (pch_char junk h old) (\<lambda>co.
          if co = CHR ''-'' then
            rbind (copy_till inp (where + old - 1) False s) (\<lambda>s.
            rbind (keep_old d h old) (\<lambda>t.
              let (u, ds) = def_old d ds in
              apply_old junk d inp h where (old + 1) new ds
                (put (u @ t) s\<lparr>last_frozen_line := last_frozen_line s + 1\<rparr>)))
          else if new > p_end h then Inr (old, new, ds, s)
          else
            rbind (pch_char junk h new) (\<lambda>cn.
              if cn = CHR ''+'' then
                rbind (copy_till inp (where + old - 1) False s) (\<lambda>s.
                rbind (pfetch h new) (\<lambda>t.
                  let (u, ds) = def_new d ds in apply_old junk d inp h where old (new + 1) ds (put (u @ t) s)))
              else if cn \<noteq> co then Inl OutOfSync
              else if cn = CHR ''!'' then
                rbind (copy_till inp (where + old - 1) False s) (\<lambda>s.
                  let s = (case d of None \<Rightarrow> s | Some (_, not_defined, _) \<Rightarrow> put not_defined s) in
                  rbind (bang_old junk d h old s) (\<lambda>(old', s).
                    let s = (if d = None then s else put else_defined s) in
                    rbind (put_run junk CHR ''!'' h new s) (\<lambda>(new', s).
                      apply_old junk d inp h where old' new' (if d = None then ds else IN_ELSE) s)))
              else if cn \<noteq> CHR '' '' then Inl InternalError
              else
                let (u, ds) = def_end d ds in
                apply_old junk d inp h where (old + 1) (new + 1) ds (put u s))))"
  by pat_completeness auto
termination
  by (relation "measure (\<lambda>(junk, d, inp, h, w, old, new, ds, s). nat (p_ptrn_lines h + 1 - old) + nat (p_end h + 1 - new))")
    (auto dest!: bang_old_more put_run_ge)

declare apply_old.simps [simp del]

text \<open>The first line behind the header of the new lines.\<close>

function skip_header :: "char \<Rightarrow> hunk \<Rightarrow> int \<Rightarrow> patch_error + int" where
  "skip_header junk h new =
     rbind (pch_char junk h new) (\<lambda>c. if c = CHR ''='' \<or> c = NL then skip_header junk h (new + 1) else Inr new)"
  by pat_completeness auto
termination
  by (relation "measure (\<lambda>(junk, h, new). nat (max (p_end h + 2) (int (length (p_char h))) - new))")
    (auto simp: pch_char_def split: if_splits)

declare skip_header.simps [simp del]

text \<open>The new lines that are left.\<close>

function apply_rest :: "char \<Rightarrow> hunk \<Rightarrow> int \<Rightarrow> pout \<Rightarrow> patch_error + pout" where
  "apply_rest junk h new s =
     (if \<not> new \<le> p_end h then Inr s
      else
        rbind (pch_char junk h new) (\<lambda>c.
          if c = CHR ''+'' then rbind (pfetch h new) (\<lambda>t. apply_rest junk h (new + 1) (put t s)) else Inr s))"
  by pat_completeness auto
termination
  by (relation "measure (\<lambda>(junk, h, new, s). nat (p_end h + 1 - new))") auto

declare apply_rest.simps [simp del]

definition apply_new ::
  "char \<Rightarrow> pdefs \<Rightarrow> pinput \<Rightarrow> hunk \<Rightarrow> int \<Rightarrow> int \<times> int \<times> def_state \<times> pout \<Rightarrow> patch_error + pout"
where
  "apply_new junk d inp h where r =
     (case r of (old, new, ds, s) \<Rightarrow>
        rbind (if new \<le> p_end h then pch_char junk h new else Inr NUL) (\<lambda>c.
        rbind (if c = CHR ''+'' then
                 rbind (copy_till inp (where + old - 1) False s) (\<lambda>s.
                   let (u, ds) = def_new d ds in rmap (\<lambda>s. (ds, s)) (apply_rest junk h new (put u s)))
               else Inr (ds, s)) (\<lambda>(ds, s).
          Inr (put (fst (def_end d ds)) s))))"

definition apply_hunk :: "char \<Rightarrow> pdefs \<Rightarrow> pinput \<Rightarrow> hunk \<Rightarrow> int \<Rightarrow> pout \<Rightarrow> patch_error + pout" where
  "apply_hunk junk d inp h where s =
     rbind (skip_header junk h (p_ptrn_lines h + 1)) (\<lambda>new.
     rbind (apply_old junk d inp h (where - 1) 1 new OUTSIDE s) (apply_new junk d inp h (where - 1)))"

section \<open>Rejected hunks\<close>

text \<open>The line of a rejected hunk; \<open>oldfirst\<close> and \<open>newfirst\<close> are moved like the last hunk.\<close>

definition range_head :: "string \<Rightarrow> string \<Rightarrow> int \<Rightarrow> int \<Rightarrow> string" where
  "range_head mark tail lo hi =
     mark @ (if hi < lo then ''0'' else if hi = lo then show_ld lo else show_ld lo @ '','' @ show_ld hi) @ tail @ [NL]"

definition abort_line :: "hunk \<Rightarrow> int \<Rightarrow> char \<times> string \<Rightarrow> patch_error + string" where
  "abort_line h last_offset cl =
     (case cl of (c, l) \<Rightarrow>
        let oldfirst = p_first h + last_offset; newfirst = p_newfirst h + last_offset in
        if c = CHR ''*'' then Inr (range_head ''*** '' [] oldfirst (oldfirst + p_ptrn_lines h - 1))
        else if c = CHR ''='' then Inr (range_head ''--- '' '' -----'' newfirst (newfirst + p_repl_lines h - 1))
        else if c = NL then Inr l
        else if c \<in> {CHR '' '', CHR ''-'', CHR ''+'', CHR ''!''} then Inr ([c, CHR '' ''] @ l)
        else Inl InternalError)"

fun abort_lines :: "hunk \<Rightarrow> int \<Rightarrow> (char \<times> string) list \<Rightarrow> patch_error + string" where
  "abort_lines h last_offset [] = Inr []"
| "abort_lines h last_offset (cl # cls) =
     rbind (abort_line h last_offset cl) (\<lambda>t. rmap (\<lambda>u. t @ u) (abort_lines h last_offset cls))"

definition abort_context_hunk :: "hunk \<Rightarrow> int \<Rightarrow> patch_error + string" where
  "abort_context_hunk h last_offset =
     rmap (\<lambda>t. ''***************'' @ [NL] @ t)
       (abort_lines h last_offset (take (nat (p_end h + 1)) (zip (p_char h) (p_line h))))"

section \<open>The loop over the hunks\<close>

record pstate =
  ps_out :: pout
  last_offset :: int
  rejfp :: string
  hunk_no :: nat
  failed :: nat
  reverse :: bool
  skip_rest :: bool
  hunkmax :: int

text \<open>
  The first hunk that fits nowhere is tried turned around: the place, the hunk and the state as
  the switches and the answers decide.
\<close>

definition try_swapped :: "pflags \<Rightarrow> pinput \<Rightarrow> int \<Rightarrow> hunk \<Rightarrow> pstate \<Rightarrow> patch_error + int \<times> hunk \<times> pstate" where
  "try_swapped fl inp fuzz h st =
     rbind (pch_swap h) (\<lambda>h.
     rbind (locate_hunk (pf_canonicalize fl) inp h (last_frozen_line (ps_out st)) (last_offset st) fuzz)
       (\<lambda>(where, off).
       let st = st\<lparr>reverse := \<not> reverse st, last_offset := off\<rparr> in
       if where = 0 then rmap (\<lambda>h. (0, h, st\<lparr>reverse := \<not> reverse st\<rparr>)) (pch_swap h)
       else if pf_noreverse fl then
         rmap (\<lambda>h. (where, h, st\<lparr>reverse := \<not> reverse st, skip_rest := True\<rparr>)) (pch_swap h)
       else if pf_batch fl then Inr (where, h, st)
       else if pf_answer1 fl = CHR ''n'' then
         rmap (\<lambda>h. (0, h, st\<lparr>reverse := \<not> reverse st,
           skip_rest := skip_rest st \<or> pf_answer2 fl \<noteq> CHR ''y''\<rparr>)) (pch_swap h)
       else Inr (where, h, st)))"

function find_place :: "pflags \<Rightarrow> pinput \<Rightarrow> int \<Rightarrow> int \<Rightarrow> hunk \<Rightarrow> pstate \<Rightarrow> patch_error + int \<times> hunk \<times> pstate" where
  "find_place fl inp mymaxfuzz fuzz h st =
     rbind (locate_hunk (pf_canonicalize fl) inp h (last_frozen_line (ps_out st)) (last_offset st) fuzz)
       (\<lambda>(where, off).
       let st = st\<lparr>last_offset := off\<rparr> in
       rbind (if hunk_no st = 1 \<and> where = 0 \<and> \<not> pf_force fl then try_swapped fl inp fuzz h st
              else Inr (where, h, st)) (\<lambda>(where, h, st).
         if \<not> skip_rest st \<and> where = 0 \<and> fuzz + 1 \<le> mymaxfuzz
         then find_place fl inp mymaxfuzz (fuzz + 1) h st else Inr (where, h, st)))"
  by pat_completeness auto
termination
  by (relation "measure (\<lambda>(fl, inp, mymaxfuzz, fuzz, h, st). nat (mymaxfuzz + 1 - fuzz))") auto

declare find_place.simps [simp del]

text \<open>One hunk: applied, or written to the rejected ones.\<close>

definition do_hunk :: "char \<Rightarrow> pflags \<Rightarrow> pinput \<Rightarrow> hunk \<Rightarrow> pstate \<Rightarrow> patch_error + pstate" where
  "do_hunk junk fl inp h st =
     (let st = st\<lparr>hunk_no := hunk_no st + 1, hunkmax := p_hunkmax h\<rparr> in
      rbind (if skip_rest st then Inr (0, h, st) else find_place fl inp (min (pf_maxfuzz fl) (p_context h)) 0 h st) (\<lambda>(where, h, st).
        if skip_rest st \<or> where = 0 then
          rmap (\<lambda>t. st\<lparr>rejfp := rejfp st @ t, failed := failed st + 1\<rparr>) (abort_context_hunk h (last_offset st))
        else
          rmap (\<lambda>s. st\<lparr>ps_out := s\<rparr>) (apply_hunk junk (pf_defines fl) inp h where (ps_out st))))"

function do_hunks :: "nat \<Rightarrow> char \<Rightarrow> pflags \<Rightarrow> pinput \<Rightarrow> pstate \<Rightarrow> string \<Rightarrow> patch_error + pstate" where
  "do_hunks ind junk fl inp st f =
     rbind (another_hunk ind (reverse st) (hunkmax st) f) (\<lambda>r.
       case r of
         None \<Rightarrow> Inr st
       | Some (h, f) \<Rightarrow> rbind (do_hunk junk fl inp h st) (\<lambda>st. do_hunks ind junk fl inp st f))"
  by pat_completeness auto
termination
  by (relation "measure (\<lambda>(ind, junk, fl, inp, st, f). length f)") (auto dest: another_hunk_shrinks)

declare do_hunks.simps [simp del]

definition spew_output :: "pinput \<Rightarrow> pout \<Rightarrow> patch_error + string" where
  "spew_output inp s =
     (if input_lines inp \<noteq> 0 then rmap ofp (copy_till inp (input_lines inp) True s) else Inr (ofp s))"

text \<open>The result: the new file unless the rest was skipped, the rejected hunks and their number.\<close>

record presult =
  pr_output :: "string option"
  pr_rejects :: string
  pr_failed :: nat

definition patch_normal :: "nat \<Rightarrow> char \<Rightarrow> pflags \<Rightarrow> string \<Rightarrow> string \<Rightarrow> patch_error + presult" where
  "patch_normal ind junk fl file patch =
     (let inp = plan_a file in
      rbind (do_hunks ind junk fl inp
               \<lparr>ps_out = \<lparr>last_frozen_line = 0, ofp = []\<rparr>, last_offset = 0, rejfp = [], hunk_no = 0, failed = 0,
                reverse = pf_reverse fl, skip_rest = False, hunkmax = INITHUNKMAX\<rparr> patch) (\<lambda>st.
        if hunk_no st = 0 then Inl InternalError
        else
          rmap (\<lambda>out. \<lparr>pr_output = out, pr_rejects = rejfp st, pr_failed = failed st\<rparr>)
            (if skip_rest st then Inr None else rmap Some (spew_output inp (ps_out st)))))"

end
