(* ===== verification/PatchApply.thy ===== *)
theory PatchApply
  imports DiffEd Patch
begin

text \<open>
  A hunk that stands for the replacement of lines of the input file by others: it is found where
  it says, applying it writes the input up to it and the new lines, and turning it around
  exchanges the two sides.
\<close>

section \<open>The input\<close>

definition text_ok :: "string list \<Rightarrow> bool" where
  "text_ok ls \<longleftrightarrow> (\<forall>l\<in>set ls. NL \<notin> set l \<and> NUL \<notin> set l)"

definition inp_of :: "string list \<Rightarrow> pinput" where
  "inp_of X = \<lparr>in_lines = X, in_missing_eol = False\<rparr>"

lemma scan_lines_line: "NL \<notin> set l \<Longrightarrow> NUL \<notin> set l \<Longrightarrow> scan_lines False p (l @ NL # f) = (p @ l) # scan_lines False [] f"
  by (induction l arbitrary: p) auto

lemma scan_lines_file: "text_ok X \<Longrightarrow> scan_lines False [] (file_of X) = X"
  by (induction X) (auto simp: text_ok_def scan_lines_line)

lemma last_file_of: "X \<noteq> [] \<Longrightarrow> last (file_of X) = NL"
  by (induction X) (auto simp: file_of_def split: if_splits)

lemma plan_a_file: "text_ok X \<Longrightarrow> plan_a (file_of X) = inp_of X"
proof -
  assume X: "text_ok X"
  have "\<not> (file_of X \<noteq> [] \<and> last (file_of X) \<noteq> NL)" using last_file_of [of X] by (cases "X = []") auto
  then show ?thesis using scan_lines_file [OF X] by (auto simp: plan_a_def inp_of_def Let_def)
qed

lemma input_lines_of [simp]: "input_lines (inp_of X) = int (length X)"
  by (simp add: input_lines_def inp_of_def)

lemma ifetch_of: "0 < k \<Longrightarrow> k \<le> length X \<Longrightarrow> ifetch (inp_of X) (int k) = Some (X ! (k - 1) @ [NL])"
  by (simp add: ifetch_def) (simp add: inp_of_def nat_diff_distrib)

lemma copy_till_of:
  assumes "f \<le> k" "k \<le> length X"
  shows "copy_till (inp_of X) (int k) e \<lparr>last_frozen_line = int f, ofp = out\<rparr> =
    Inr \<lparr>last_frozen_line = int k, ofp = out @ file_of (take (k - f) (drop f X))\<rparr>"
proof -
  have d: "dump_line (inp_of X) (int l) True = X ! (l - 1) @ [NL]" if "0 < l" "l \<le> length X" for l
    using ifetch_of [OF that] by (simp add: dump_line_def)
  have "concat (map (\<lambda>k. dump_line (inp_of X) k True) [int f + 1..int f + int n]) = file_of (take n (drop f X))"
    if "f + n \<le> length X" for n
    using that
  proof (induction n)
    case (Suc n)
    have "[int f + 1..int f + int (Suc n)] = [int f + 1..int f + int n] @ [int (f + Suc n)]"
      using upto_rec2 [of "int f + 1" "int f + int (Suc n)"] by simp
    moreover have "take (Suc n) (drop f X) = take n (drop f X) @ [X ! (f + n)]"
      using Suc.prems by (simp add: take_Suc_conv_app_nth)
    ultimately show ?case using Suc d [of "f + Suc n"] by simp
  qed simp
  from this [of "k - f"] assms show ?thesis
    by (simp add: copy_till_def inp_of_def of_nat_diff if_distrib cong: if_cong)
qed

section \<open>Hunks\<close>

definition hunk_for :: "hunk \<Rightarrow> nat \<Rightarrow> string list \<Rightarrow> nat \<Rightarrow> string list \<Rightarrow> bool" where
  "hunk_for h a olds c news \<longleftrightarrow>
     p_first h = int a \<and> p_newfirst h = int c \<and> p_ptrn_lines h = int (length olds) \<and>
     p_repl_lines h = int (length news) \<and> p_end h = int (length olds + length news + 1) \<and> p_context h = 0 \<and>
     (\<exists>h0 h1. p_line h = h0 # map (\<lambda>l. l @ [NL]) olds @ h1 # map (\<lambda>l. l @ [NL]) news) \<and>
     p_char h = CHR ''*'' # replicate (length olds) CHR ''-'' @ CHR ''='' # replicate (length news) CHR ''+'' \<and>
     p_stop h = CHR ''^''"

lemma hunk_forD:
  assumes "hunk_for h a olds c news"
  shows "p_first h = int a" "p_newfirst h = int c" "p_ptrn_lines h = int (length olds)"
    "p_repl_lines h = int (length news)" "p_end h = int (length olds + length news + 1)" "p_context h = 0"
    "p_char h = CHR ''*'' # replicate (length olds) CHR ''-'' @ CHR ''='' # replicate (length news) CHR ''+''"
    "p_stop h = CHR ''^''"
  using assms by (simp_all add: hunk_for_def)

lemma hunk_for_char:
  assumes h: "hunk_for h a olds c news" and j: "junk \<noteq> CHR ''=''" "junk \<noteq> NL"
  shows "0 < o' \<Longrightarrow> o' \<le> length olds \<Longrightarrow> pch_char junk h (int o') = Inr CHR ''-''"
    "pch_char junk h (int (length olds + 1)) = Inr CHR ''=''"
    "n < length news \<Longrightarrow> pch_char junk h (int (length olds + 2 + n)) = Inr CHR ''+''"
    "\<exists>x. pch_char junk h (int (length olds + 2 + length news)) = Inr x \<and> x \<noteq> CHR ''='' \<and> x \<noteq> NL"
proof -
  note d = hunk_forD [OF h]
  have l: "length (p_char h) = length olds + length news + 2" using d(7) by simp
  show "pch_char junk h (int o') = Inr CHR ''-''" if "0 < o'" "o' \<le> length olds"
    using that d(5) l by (simp add: pch_char_def) (simp add: d(7) nth_Cons' nth_append)
  show "pch_char junk h (int (length olds + 1)) = Inr CHR ''=''"
    using d(5) l by (simp add: pch_char_def nat_add_distrib) (simp add: d(7) nth_append)
  show "pch_char junk h (int (length olds + 2 + n)) = Inr CHR ''+''" if "n < length news"
    using that d(5) l by (simp add: pch_char_def nat_add_distrib) (simp add: d(7) nth_append nth_Cons')
  show "\<exists>x. pch_char junk h (int (length olds + 2 + length news)) = Inr x \<and> x \<noteq> CHR ''='' \<and> x \<noteq> NL"
    using d(5,8) j by (simp add: pch_char_def)
qed

lemma hunk_for_line:
  assumes h: "hunk_for h a olds c news"
  shows "0 < o' \<Longrightarrow> o' \<le> length olds \<Longrightarrow> pfetch h (int o') = Inr (olds ! (o' - 1) @ [NL])"
    "n < length news \<Longrightarrow> pfetch h (int (length olds + 2 + n)) = Inr (news ! n @ [NL])"
proof -
  obtain h0 h1 where l: "p_line h = h0 # map (\<lambda>l. l @ [NL]) olds @ h1 # map (\<lambda>l. l @ [NL]) news"
    using h by (auto simp: hunk_for_def)
  show "pfetch h (int o') = Inr (olds ! (o' - 1) @ [NL])" if "0 < o'" "o' \<le> length olds"
    using that by (auto simp: pfetch_def l nth_Cons' nth_append)
  show "pfetch h (int (length olds + 2 + n)) = Inr (news ! n @ [NL])" if "n < length news"
    using that by (simp add: pfetch_def l nat_add_distrib nth_append)
qed

lemma hunk_for_swap:
  assumes h: "hunk_for h a olds c news"
  obtains h' where "pch_swap h = Inr h'" "hunk_for (h'\<lparr>p_stop := CHR ''^''\<rparr>) c news a olds"
    "p_end h' = p_end h" "p_hunkmax h' = p_hunkmax h"
proof -
  note d = hunk_forD [OF h]
  obtain h0 h1 where l: "p_line h = h0 # map (\<lambda>l. l @ [NL]) olds @ h1 # map (\<lambda>l. l @ [NL]) news"
    using h by (auto simp: hunk_for_def)
  let ?old = "CHR ''*'' # replicate (length olds) CHR ''-''" and ?new = "CHR ''='' # replicate (length news) CHR ''+''"
  let ?ol = "h0 # map (\<lambda>l. l @ [NL]) olds" and ?nl = "h1 # map (\<lambda>l. l @ [NL]) news"
  have z: "zip (p_char h) (p_line h) = zip ?old ?ol @ zip ?new ?nl"
    unfolding d(7) l by simp
  have k: "nat (p_ptrn_lines h + 1) = length (zip ?old ?ol)" by (simp add: d(3) nat_add_distrib)
  have sep: "pch_char NUL h (p_ptrn_lines h + 1) = Inr CHR ''=''"
    using hunk_for_char(2) [OF h, of NUL] by (simp add: d(3) add.commute)
  have lc: "length (p_char h) = length olds + length news + 2" by (simp add: d(7))
  have m1: "map (\<lambda>(c, l). (if c = CHR ''+'' then CHR ''-'' else c, l)) (zip (replicate (length news) CHR ''+'') xs) =
      zip (replicate (length news) CHR ''-'') xs" for xs :: "string list"
    by (intro nth_equalityI) auto
  have m2: "map (\<lambda>(c, l). (if c = CHR ''-'' then CHR ''+'' else c, l)) (zip (replicate (length olds) CHR ''-'') xs) =
      zip (replicate (length olds) CHR ''+'') xs" for xs :: "string list"
    by (intro nth_equalityI) auto
  let ?all = "((CHR ''*'', map (\<lambda>c. if c = CHR ''-'' then CHR ''*'' else c) h1) #
       zip (replicate (length news) CHR ''-'') (map (\<lambda>l. l @ [NL]) news)) @
     ((CHR ''='', map (\<lambda>c. if c = CHR ''*'' then CHR ''-'' else c) h0) #
       zip (replicate (length olds) CHR ''+'') (map (\<lambda>l. l @ [NL]) olds))"
  let ?h = "h\<lparr>p_first := p_newfirst h, p_newfirst := p_first h, p_ptrn_lines := p_repl_lines h,
      p_repl_lines := p_ptrn_lines h, p_line := map snd ?all, p_char := map fst ?all, p_stop := NUL\<rparr>"
  have dr: "drop (Suc (length olds)) (zip (p_char h) (p_line h)) = zip ?new ?nl" unfolding z by simp
  have tk: "take (Suc (length olds)) (zip (p_char h) (p_line h)) = zip ?old ?ol" unfolding z by simp
  have lz: "length (p_line h) = Suc (Suc (length olds + length news))" by (simp add: l)
  have lc': "length (p_char h) = Suc (Suc (length olds + length news))" by (simp add: lc)
  have k': "nat (p_ptrn_lines h + 1) = Suc (length olds)" by (simp add: d(3) nat_add_distrib)
  have ar: "Suc (length olds + length news) - length news = Suc (length olds)" by simp
  have "pch_swap h = Inr ?h"
    unfolding pch_swap_def sep rbind_Inr Let_def k'
    by (simp add: dr tk lz lc' ar d(3) m1 m2 del: drop_zip take_zip)
  moreover have "hunk_for (?h\<lparr>p_stop := CHR ''^''\<rparr>) c news a olds"
    using d by (simp add: hunk_for_def)
  ultimately show thesis using that by simp
qed

section \<open>Finding the place\<close>

lemma patch_match_for:
  assumes h: "hunk_for h a olds c news" and a: "0 < a" "olds = take (length olds) (drop (a - 1) X)"
  shows "0 < p \<Longrightarrow> patch_match_loop False (inp_of X) h (int p) (int (length olds)) (int (a + p - 1)) = Inr True"
proof (induction "length olds + 1 - p" arbitrary: p)
  case 0
  then show ?case by (subst patch_match_loop.simps) simp
next
  case (Suc n)
  then have p: "p \<le> length olds" by simp
  have len: "length olds \<le> length X - (a - 1)" using arg_cong [OF a(2), of length] by simp
  then have i: "0 < a + p - 1" "a + p - 1 \<le> length X" using p a(1) Suc.prems by simp_all
  have "olds ! (p - 1) = take (length olds) (drop (a - 1) X) ! (p - 1)" using a(2) by simp
  also have "\<dots> = X ! (a + p - 1 - 1)" using p a(1) Suc.prems len by simp
  finally have e: "olds ! (p - 1) = X ! (a + p - 1 - 1)" .
  have ml: "match_line False (inp_of X) j (l @ [NL]) (l @ [NL]) = Inr True" for j l
    by (simp add: match_line_def) (simp add: inp_of_def)
  have IH: "patch_match_loop False (inp_of X) h (int (p + 1)) (int (length olds)) (int (a + (p + 1) - 1)) = Inr True"
    using Suc.hyps(2) by (intro Suc.hyps(1)) simp_all
  have e1: "int (p + 1) = int p + 1" "int (a + (p + 1) - 1) = int (a + p - 1) + 1" using a(1) by simp_all
  show ?case
    using IH [unfolded e1] p hunk_for_line(1) [OF h Suc.prems p] ifetch_of [OF i] ml e
    by (subst patch_match_loop.simps) simp
qed

lemma locate_for:
  assumes h: "hunk_for h a olds c news" and a: "0 < a" "olds = take (length olds) (drop (a - 1) X)"
  shows "locate_hunk False (inp_of X) h frozen 0 0 = Inr (int a, 0)"
proof (cases "olds = []")
  case True
  then show ?thesis using hunk_forD [OF h] by (simp add: locate_hunk_def)
next
  case False
  have "length olds \<le> length X - (a - 1)" using arg_cong [OF a(2), of length] by simp
  then have "a \<le> length X" using False a(1) by (cases olds) auto
  moreover have "patch_match False (inp_of X) h (int a) 0 0 = Inr True"
    using patch_match_for [OF h a, of 1] hunk_forD(3) [OF h] by (simp add: patch_match_def)
  ultimately show ?thesis using hunk_forD [OF h] False by (simp add: locate_hunk_def)
qed

lemma patch_match_shift: "patch_match can inp h g d fuzz = patch_match can inp h (g + d) 0 fuzz"
  by (simp add: patch_match_def)

text \<open>The offsets that the search passes over before it ends.\<close>

definition passed :: "(int \<Rightarrow> patch_error + bool) \<Rightarrow> int \<Rightarrow> int \<Rightarrow> int \<Rightarrow> bool" where
  "passed M max_pos max_neg e \<longleftrightarrow>
     (e \<le> max_pos \<longrightarrow> M e = Inr False) \<and> (e \<le> max_neg \<longrightarrow> M (- e) = Inr False)"

lemma locate_loop_nearest:
  fixes can inp h g fuzz
  defines "M \<equiv> patch_match can inp h g"
  shows "locate_loop can inp h fuzz g lo mp mn k = Inr (w, off) \<Longrightarrow>
    (w = 0 \<and> off = lo \<and> (\<forall>e\<ge>k. passed (\<lambda>d. M d fuzz) mp mn e)) \<or>
    (\<exists>d\<ge>k. (\<forall>e. k \<le> e \<and> e < d \<longrightarrow> passed (\<lambda>d. M d fuzz) mp mn e) \<and>
      (w = g + d \<and> off = d \<and> d \<le> mp \<and> M d fuzz = Inr True \<or>
       w = g - d \<and> off = - d \<and> d \<le> mn \<and> M (- d) fuzz = Inr True \<and> (d \<le> mp \<longrightarrow> M d fuzz = Inr False)))"
proof (induction "nat (max mp mn + 1 - k)" arbitrary: k rule: less_induct)
  case less
  let ?P = "passed (\<lambda>d. M d fuzz) mp mn"
  from less.prems consider
      (after) "k \<le> mp" "M k fuzz = Inr True" "w = g + k" "off = k"
    | (before) "k \<le> mp \<longrightarrow> M k fuzz = Inr False" "k \<le> mn" "M (- k) fuzz = Inr True" "w = g - k" "off = - k"
    | (none) "\<not> k \<le> mp" "\<not> k \<le> mn" "w = 0" "off = lo"
    | (further) "?P k" "k \<le> mp \<or> k \<le> mn" "locate_loop can inp h fuzz g lo mp mn (k + 1) = Inr (w, off)"
    by (subst (asm) locate_loop.simps) (auto simp: result_simps M_def passed_def split: if_splits)
  then show ?case
  proof cases
    case after
    then show ?thesis by (intro disjI2 exI [of _ k]) auto
  next
    case before
    then show ?thesis by (intro disjI2 exI [of _ k]) auto
  next
    case none
    then show ?thesis by (auto simp: passed_def)
  next
    case further
    have step: "(\<forall>e\<ge>k + 1. ?P e) \<Longrightarrow> \<forall>e\<ge>k. ?P e"
      "(\<forall>e. k + 1 \<le> e \<and> e < d \<longrightarrow> ?P e) \<Longrightarrow> \<forall>e. k \<le> e \<and> e < d \<longrightarrow> ?P e" for d
      using further(1) by (metis zle_add1_eq_le zless_add1_eq order_le_less linorder_not_le)+
    have "nat (max mp mn + 1 - (k + 1)) < nat (max mp mn + 1 - k)" using further(2) by auto
    from less.hyps [OF this further(3)] show ?thesis
    proof (elim disjE exE conjE)
      fix d
      assume "k + 1 \<le> d" "\<forall>e. k + 1 \<le> e \<and> e < d \<longrightarrow> ?P e"
        and "w = g + d" "off = d" "d \<le> mp" "M d fuzz = Inr True"
      with step(2) [of d] show ?thesis by (intro disjI2 exI [of _ d]) auto
    next
      fix d
      assume "k + 1 \<le> d" "\<forall>e. k + 1 \<le> e \<and> e < d \<longrightarrow> ?P e"
        and "w = g - d" "off = - d" "d \<le> mn" "M (- d) fuzz = Inr True" "d \<le> mp \<longrightarrow> M d fuzz = Inr False"
      with step(2) [of d] show ?thesis by (intro disjI2 exI [of _ d]) auto
    qed (use step(1) in blast)
  qed
qed

lemma patch_match_in_file:
  assumes "patch_match can inp h p 0 0 = Inr True" "0 < p_ptrn_lines h"
  shows "1 \<le> p \<and> p \<le> input_lines inp"
proof -
  have "ifetch inp p \<noteq> None"
    using assms by (simp add: patch_match_def) (subst (asm) patch_match_loop.simps, auto split: option.splits)
  then show ?thesis by (auto simp: ifetch_def split: if_splits)
qed

text \<open>The places that the search may try.\<close>

definition allowed_place :: "pinput \<Rightarrow> hunk \<Rightarrow> int \<Rightarrow> int \<Rightarrow> bool" where
  "allowed_place inp h frozen p \<longleftrightarrow>
     1 \<le> p \<and> frozen + 1 - p_context h \<le> p \<and> p + p_ptrn_lines h - 1 \<le> input_lines inp"

text \<open>
  C18: the search for the place of a hunk with old lines. When it fails no place in the file
  behind what is already written fits. When it succeeds the hunk fits where it says; none of the
  allowed_place inp h frozen places nearer to the guess does, nor the one as far behind it when the place is before it.
  The new offset is the distance to the guess, which already holds the last offset.
\<close>

theorem locate_hunk_nearest:
  assumes l: "locate_hunk can inp h frozen lastoff 0 = Inr (w, off)" and n: "0 < p_ptrn_lines h"
    and g: "g = p_first h + lastoff"
  shows "if w = 0 then off = lastoff \<and> (\<forall>p. allowed_place inp h frozen p \<longrightarrow> patch_match can inp h p 0 0 = Inr False)
    else patch_match can inp h w 0 0 = Inr True \<and> off = (if w = g then lastoff else w - g) \<and>
      (\<forall>p. allowed_place inp h frozen p \<and> \<bar>p - g\<bar> < \<bar>w - g\<bar> \<longrightarrow> patch_match can inp h p 0 0 = Inr False) \<and>
      (w < g \<longrightarrow> frozen + 1 - p_context h \<le> w \<and>
        (allowed_place inp h frozen (2 * g - w) \<longrightarrow> patch_match can inp h (2 * g - w) 0 0 = Inr False))"
proof -
  let ?A = "allowed_place inp h frozen"
  let ?M = "\<lambda>p. patch_match can inp h p 0 0"
  define mp where "mp = input_lines inp - g - p_ptrn_lines h + 1"
  define mn where "mn = (if g - frozen - 1 + p_context h \<ge> g then g - 1 else g - frozen - 1 + p_context h)"
  let ?P = "passed (\<lambda>d. patch_match can inp h g d 0) mp mn"
  have P: "?M p = Inr False" if "?P \<bar>p - g\<bar>" "?A p" "p \<noteq> g" for p
    using that unfolding passed_def patch_match_shift [of _ _ _ g] mp_def mn_def allowed_place_def
    by (cases "g < p") (auto simp: abs_if split: if_splits)
  have at: "?M g = Inr False" if "\<not> g \<le> input_lines inp \<or> ?M g = Inr False" "?A g"
    using that n by (auto simp: allowed_place_def)
  from l n consider (here) "g \<le> input_lines inp" "?M g = Inr True" "w = g" "off = lastoff"
    | (loop) "\<not> g \<le> input_lines inp \<or> ?M g = Inr False"
        "locate_loop can inp h 0 g lastoff mp mn 1 = Inr (w, off)"
    unfolding locate_hunk_def Let_def g [symmetric] mp_def [symmetric] mn_def [symmetric]
    by (auto simp: result_simps split: if_splits)
  then show ?thesis
  proof cases
    case here
    then show ?thesis using patch_match_in_file [OF here(2) n] by auto
  next
    case loop
    from locate_loop_nearest [OF loop(2)] consider
        (none) "w = 0" "off = lastoff" "\<forall>e\<ge>1. ?P e"
      | (some) d where "1 \<le> d" "\<forall>e. 1 \<le> e \<and> e < d \<longrightarrow> ?P e" "?M w = Inr True"
          "w = g + d \<and> off = d \<or> w = g - d \<and> off = - d \<and> d \<le> mn \<and> (d \<le> mp \<longrightarrow> ?M (g + d) = Inr False)"
      by (auto simp: patch_match_shift [of _ _ _ g])
    then show ?thesis
    proof cases
      case none
      have "?M p = Inr False" if "?A p" for p
        using that at loop(1) P [of p] none(3) by (cases "p = g") auto
      with none show ?thesis by simp
    next
      case some
      have w: "w \<noteq> 0" "w \<noteq> g" "\<bar>w - g\<bar> = d" using patch_match_in_file [OF some(3) n] some(1,4) by auto
      have "?M p = Inr False" if "?A p" "\<bar>p - g\<bar> < d" for p
        using that at loop(1) P [of p] some(2) by (cases "p = g") auto
      moreover have "frozen + 1 - p_context h \<le> w" "?A (2 * g - w) \<longrightarrow> ?M (2 * g - w) = Inr False" if "w < g"
        using that some(1,4) by (auto simp: mn_def mp_def allowed_place_def split: if_splits)
      ultimately show ?thesis using w some(3,4) by auto
    qed
  qed
qed

theorem locate_hunk_nearest_witness:
  "patch_match False (inp_of [''a'', ''b'', ''c'', ''b'']) (make_hunk 3 1 3 2 [''b'' @ [NL]] [] 125) 4 0 0 = Inr True \<and>
   patch_match False (inp_of [''a'', ''b'', ''c'', ''b'']) (make_hunk 3 1 3 2 [''b'' @ [NL]] [] 125) 3 0 0 = Inr False"
proof -
  let ?inp = "inp_of [''a'', ''b'', ''c'', ''b'']" and ?h = "make_hunk 3 1 3 2 [''b'' @ [NL]] [] 125"
  have l: "locate_hunk False ?inp ?h 0 0 0 = Inr (4, 1)" by code_simp
  have h: "0 < p_ptrn_lines ?h" "3 = p_first ?h + 0" by (simp_all add: make_hunk_def)
  have "allowed_place ?inp ?h 0 3" by (simp add: allowed_place_def make_hunk_def)
  then show ?thesis using locate_hunk_nearest [OF l h] by simp
qed

section \<open>Applying it\<close>

lemma skip_header_for:
  assumes h: "hunk_for h a olds c news" and j: "junk \<noteq> CHR ''=''" "junk \<noteq> NL"
  shows "skip_header junk h (p_ptrn_lines h + 1) = Inr (int (length olds + 2))"
proof -
  obtain x where x: "pch_char junk h (int (length olds + 2)) = Inr x" "x \<noteq> CHR ''=''" "x \<noteq> NL"
  proof (cases news)
    case Nil
    with hunk_for_char(4) [OF h j] that show thesis by auto
  next
    case (Cons n ns)
    with hunk_for_char(3) [OF h j, of 0] that show thesis by auto
  qed
  have "skip_header junk h (int (length olds + 2)) = Inr (int (length olds + 2))"
    using x by (subst skip_header.simps) simp
  moreover have p: "int (length olds + 2) = int (length olds + 1) + 1" "p_ptrn_lines h + 1 = int (length olds + 1)"
    using hunk_forD(3) [OF h] by simp_all
  ultimately show ?thesis unfolding p
    by (subst skip_header.simps) (simp only: hunk_for_char(2) [OF h j] rbind_Inr simp_thms if_True)
qed

lemma apply_old_for:
  assumes h: "hunk_for h a olds c news" and j: "junk \<noteq> CHR ''=''" "junk \<noteq> NL" and a: "0 < a" "a - 1 + length olds \<le> length X"
  shows "0 < p \<Longrightarrow> p \<le> length olds \<Longrightarrow> f \<le> a + p - 2 \<Longrightarrow>
    apply_old junk None (inp_of X) h (int a - 1) (int p) new OUTSIDE \<lparr>last_frozen_line = int f, ofp = out\<rparr> =
    Inr (int (length olds + 1), new, OUTSIDE, \<lparr>last_frozen_line = int (a - 1 + length olds),
      ofp = out @ file_of (take (a + p - 2 - f) (drop f X))\<rparr>)"
proof (induction "length olds - p" arbitrary: p f out)
  case (0 p f)
  have w: "int a - 1 + int p - 1 = int (a + p - 2)" using 0 a(1) by simp
  have k: "a + p - 2 \<le> length X" using a 0 by simp
  have fin: "apply_old junk None (inp_of X) h (int a - 1) (int p + 1) new OUTSIDE s =
      Inr (int (length olds + 1), new, OUTSIDE, s)" for s
    using 0 hunk_forD(3) [OF h] by (subst apply_old.simps) simp
  have "int (a + p - 2) + 1 = int (a - 1 + length olds)" using 0 a(1) by simp
  then show ?case
    using hunk_for_char(1) [OF h j 0(2,3)] 0(3) hunk_forD(3) [OF h] copy_till_of [OF 0(4) k]
    by (subst apply_old.simps) (simp add: keep_old_def def_old_def put_def w fin)
next
  case (Suc n p f)
  have w: "int a - 1 + int p - 1 = int (a + p - 2)" using Suc.prems a(1) by simp
  have k: "a + p - 2 \<le> length X" using a Suc.prems by simp
  have "apply_old junk None (inp_of X) h (int a - 1) (int (p + 1)) new OUTSIDE
        \<lparr>last_frozen_line = int (a + p - 1), ofp = o'\<rparr> =
      Inr (int (length olds + 1), new, OUTSIDE, \<lparr>last_frozen_line = int (a - 1 + length olds),
        ofp = o' @ file_of (take (a + (p + 1) - 2 - (a + p - 1)) (drop (a + p - 1) X))\<rparr>)" for o'
    using Suc.hyps(2) Suc.prems a(1) by (intro Suc.hyps(1)) simp_all
  then have IH: "apply_old junk None (inp_of X) h (int a - 1) (int p + 1) new OUTSIDE
        \<lparr>last_frozen_line = int (a + p - 1), ofp = o'\<rparr> =
      Inr (int (length olds + 1), new, OUTSIDE, \<lparr>last_frozen_line = int (a - 1 + length olds), ofp = o'\<rparr>)" for o'
    by (simp add: add.commute)
  have "int (a + p - 2) + 1 = int (a + p - 1)" using Suc.prems a(1) by simp
  then show ?case
    using hunk_for_char(1) [OF h j Suc.prems(1,2)] Suc.prems(2) hunk_forD(3) [OF h]
      copy_till_of [OF Suc.prems(3) k] IH [of "out @ file_of (take (a + p - 2 - f) (drop f X))"]
    by (subst apply_old.simps) (simp add: keep_old_def def_old_def put_def w)
qed

lemma apply_rest_for:
  assumes h: "hunk_for h a olds c news" and j: "junk \<noteq> CHR ''=''" "junk \<noteq> NL"
  shows "n \<le> length news \<Longrightarrow> apply_rest junk h (int (length olds + 2 + n)) s =
    Inr (put (file_of (drop n news)) s)"
proof (induction "length news - n" arbitrary: n s)
  case 0
  then show ?case using hunk_forD(5) [OF h] by (subst apply_rest.simps) (simp add: put_def)
next
  case (Suc m)
  then have n: "n < length news" by simp
  have "apply_rest junk h (int (length olds + 2 + (n + 1))) s = Inr (put (file_of (drop (n + 1) news)) s)" for s
    using Suc.hyps(2) n by (intro Suc.hyps(1)) simp_all
  moreover have "int (length olds + 2 + (n + 1)) = int (length olds + 2 + n) + 1" by simp
  ultimately show ?case
    using hunk_for_char(3) [OF h j n] hunk_for_line(2) [OF h n] hunk_forD(5) [OF h] n
    by (subst apply_rest.simps) (simp add: put_def file_of_drop [OF n])
qed

text \<open>
  The hunk at line \<open>a\<close>: the input before it that is not written yet, and the new lines instead of
  the old ones.
\<close>

lemma apply_hunk_for:
  assumes h: "hunk_for h a olds c news" and j: "junk \<noteq> CHR ''=''" "junk \<noteq> NL"
    and a: "0 < a" "a - 1 + length olds \<le> length X" "f \<le> a - 1" and ne: "olds \<noteq> [] \<or> news \<noteq> []"
  shows "apply_hunk junk None (inp_of X) h (int a) \<lparr>last_frozen_line = int f, ofp = out\<rparr> =
    Inr \<lparr>last_frozen_line = int (a - 1 + length olds), ofp = out @ file_of (take (a - 1 - f) (drop f X)) @ file_of news\<rparr>"
proof -
  note d = hunk_forD [OF h]
  have last: "apply_new junk None (inp_of X) h (int a - 1)
      (int (length olds + 1), int (length olds + 2), OUTSIDE, \<lparr>last_frozen_line = int k, ofp = o'\<rparr>) =
     Inr \<lparr>last_frozen_line = int (a - 1 + length olds),
       ofp = o' @ file_of (take (a - 1 + length olds - k) (drop k X)) @ file_of news\<rparr>"
    if "k \<le> a - 1 + length olds" "news = [] \<Longrightarrow> k = a - 1 + length olds" for k o'
  proof (cases "news = []")
    case True
    then show ?thesis using that d(5) by (simp add: apply_new_def def_end_def put_def)
  next
    case False
    have w: "int a - 1 + int (length olds + 1) - 1 = int (a - 1 + length olds)" using a(1) by simp
    have "int (length olds + 2) \<le> p_end h" using False d(5) by (cases news) auto
    then show ?thesis
      using hunk_for_char(3) [OF h j, of 0] apply_rest_for [OF h j, of 0] False copy_till_of [OF that(1) a(2)]
      unfolding apply_new_def prod.case w by (simp add: def_new_def def_end_def put_def)
  qed
  show ?thesis
  proof (cases "olds = []")
    case True
    then have "apply_old junk None (inp_of X) h (int a - 1) 1 (int (length olds + 2)) OUTSIDE s =
        Inr (int (length olds + 1), int (length olds + 2), OUTSIDE, s)" for s
      using d(3) by (subst apply_old.simps) simp
    moreover have "f \<le> a - 1 + length olds" "news = [] \<Longrightarrow> f = a - 1 + length olds" using a(3) ne True by simp_all
    ultimately show ?thesis
      using skip_header_for [OF h j] last True by (simp add: apply_hunk_def)
  next
    case False
    then have "apply_old junk None (inp_of X) h (int a - 1) (int 1) (int (length olds + 2)) OUTSIDE
        \<lparr>last_frozen_line = int f, ofp = out\<rparr> =
      Inr (int (length olds + 1), int (length olds + 2), OUTSIDE, \<lparr>last_frozen_line = int (a - 1 + length olds),
        ofp = out @ file_of (take (a + 1 - 2 - f) (drop f X))\<rparr>)"
      using a by (intro apply_old_for [OF h j a(1,2)]) (simp_all add: Suc_le_eq)
    then show ?thesis
      using skip_header_for [OF h j] last [of "a - 1 + length olds"] by (simp add: apply_hunk_def)
  qed
qed

end
