(* ===== verification/DiffPatch.thy ===== *)
theory DiffPatch
  imports PatchApply
begin

text \<open>
  \<open>diff\<close> and \<open>patch\<close> together: the plain output of \<open>diff\<close> is parsed by \<open>patch\<close> to hunks that
  stand for its changes, and applied to the old file they make the new one, turned around to the
  new file the old one.
\<close>

section \<open>The text of a change\<close>

definition marked :: "char \<Rightarrow> string list \<Rightarrow> string" where
  "marked ch ls = concat (map (\<lambda>l. [ch, CHR '' ''] @ l @ [NL]) ls)"

definition normal_change :: "nat \<Rightarrow> nat \<Rightarrow> string list \<Rightarrow> nat \<Rightarrow> nat \<Rightarrow> string list \<Rightarrow> string" where
  "normal_change a b olds c d news =
     (if a > b \<and> c > d then []
      else range_text a b '','' @ [if a > b then CHR ''a'' else if c > d then CHR ''d'' else CHR ''c''] @
        range_text c d '','' @ [NL] @ marked CHR ''<'' olds @
        (if a \<le> b \<and> c \<le> d then ''---'' @ [NL] else []) @ marked CHR ''>'' news)"

lemma fetch_normal:
  assumes fl: "plain fl" "\<not> d_Tflag fl" and ix: "file_ends (length B) B ix" "no_newline B"
    and d: "0 < c" "c \<le> d + 1" "d \<le> length B"
  shows "fetch fl D_NORMAL ix c d (file_of B) (Some ch) = (marked ch (drop (c - 1) (take d B)), 0)"
  using fetch_lines_plain [OF fl(1) _ ix d(3,1,2), of D_NORMAL c "[ch, CHR '' '']"] fl(2) d
  by (simp add: fetch_def marked_def)

lemma change_normal:
  assumes fl: "plain fl" "\<not> d_Tflag fl"
    and A: "file_ends (length A) A (ixold ck)" "no_newline A" "0 < a" "a \<le> b + 1" "b \<le> length A"
    and B: "file_ends (length B) B (ixnew ck)" "no_newline B" "0 < c" "c \<le> d + 1" "d \<le> length B"
  shows "change fl D_NORMAL ck (file_of A) (file_of B) a b c d =
    (normal_change a b (drop (a - 1) (take b A)) c d (drop (c - 1) (take d B)), \<not> (a > b \<and> c > d))"
  using fl(1) fetch_normal [OF fl A] fetch_normal [OF fl B]
  by (subst change.simps) (simp add: plain_def change_head_def normal_change_def Let_def)

definition normal_text :: "string list \<Rightarrow> string list \<Rightarrow> dchange list \<Rightarrow> string" where
  "normal_text A B cs =
     concat (map (\<lambda>(a, b, c, d). normal_change a b (drop (a - 1) (take b A)) c d (drop (c - 1) (take d B))) cs)"

lemma normal_text_simps [simp]:
  "normal_text A B [] = []"
  "normal_text A B ((a, b, c, d) # cs) =
    normal_change a b (drop (a - 1) (take b A)) c d (drop (c - 1) (take d B)) @ normal_text A B cs"
  by (simp_all add: normal_text_def)

lemma normal_change_empty: "normal_change a b olds c d news = [] \<longleftrightarrow> a > b \<and> c > d"
  by (simp add: normal_change_def)

lemma print_changes_normal:
  assumes fl: "plain fl" "\<not> d_Tflag fl"
    and A: "file_ends (length A) A (ixold ck)" "no_newline A" and B: "file_ends (length B) B (ixnew ck)" "no_newline B"
  shows "edits A B i j cs \<Longrightarrow> print_changes fl D_NORMAL ck (file_of A) (file_of B) cs =
    (normal_text A B cs, normal_text A B cs \<noteq> [])"
proof (induction cs arbitrary: i j)
  case (Cons x cs)
  obtain a b c d where x: "x = (a, b, c, d)" by (metis prod_cases4)
  from Cons.prems have e: "0 < a" "a \<le> b + 1" "b \<le> length A" "0 < c" "c \<le> d + 1" "d \<le> length B"
    "edits A B b d cs" by (auto simp: x)
  then show ?case
    using change_normal [OF fl A e(1-3) B e(4-6)] Cons.IH [OF e(7)] normal_change_empty
    by (cases "a > b") (simp_all add: x Let_def)
qed simp

lemma normal_text_hd: "normal_text A B cs = [] \<or> is_digit (hd (normal_text A B cs))"
proof (induction cs)
  case (Cons x cs)
  obtain a b c d where x: "x = (a, b, c, d)" by (metis prod_cases4)
  show ?case
  proof (cases "a > b \<and> c > d")
    case True
    then have "normal_change a b (drop (a - 1) (take b A)) c d (drop (c - 1) (take d B)) = []"
      by (simp only: normal_change_empty)
    with Cons show ?thesis by (simp add: x)
  next
    case False
    then show ?thesis using decimal_hd decimal_digits(3)
      by (auto simp: x normal_change_def range_text_def)
  qed
qed simp

section \<open>Parsing it\<close>

lemma atol_decimal:
  assumes "s = [] \<or> \<not> is_digit (hd s)" and "int n \<le> 2 ^ 63 - 1"
  shows "atol (decimal n @ s) = int n"
proof -
  have d: "\<And>x. x \<in> set (decimal n) \<Longrightarrow> is_digit x" using decimal_digits(1) by (auto simp: list_all_iff)
  have "takeWhile is_digit s = []" using assms by (cases s) auto
  with d have t: "takeWhile is_digit (decimal n @ s) = decimal n" by (simp add: takeWhile_append2)
  have h: "is_digit (hd (decimal n))" by (rule decimal_hd)
  obtain x xs where x: "decimal n = x # xs" using decimal_digits(3) by (cases "decimal n") auto
  have "\<not> isspace (code x)" "x \<noteq> CHR ''-''" "x \<noteq> CHR ''+''" using h by (auto simp: x is_digit_def isdigit_def isspace_def)
  then have s: "dropWhile (\<lambda>c. isspace (code c)) (decimal n @ s) = decimal n @ s" "at0 (decimal n @ s) \<noteq> CHR ''-''"
    "at0 (decimal n @ s) \<noteq> CHR ''+''" by (simp_all add: x)
  have f: "foldl (\<lambda>n c. 10 * n + int (code c - 48)) (int k) ds = int (foldl (\<lambda>n c. 10 * n + (code c - 48)) k ds)" for k ds
    by (induction ds arbitrary: k) (simp_all, metis (no_types, lifting) of_nat_add of_nat_mult of_nat_numeral)
  have "(\<lambda>c. isdigit (code c)) = is_digit" by (simp add: fun_eq_iff is_digit_def)
  then have "foldl (\<lambda>n c. 10 * n + int (code c - 48)) 0 (takeWhile (\<lambda>c. isdigit (code c)) (decimal n @ s)) = int n"
    using f [of 0 "decimal n"] decimal_digits(2) [of n] t by (simp add: digits_value_def)
  then show ?thesis using s assms(2) by (simp add: atol_def Let_def)
qed

lemma getskiplinenum_decimal:
  assumes "s = [] \<or> \<not> is_digit (hd s)" and "int n \<le> 2 ^ 63 - 1"
  shows "getlinenum (decimal n @ s) = Inr (int n)" "getskiplinenum (decimal n @ s) = Inr (int n, s)"
proof -
  show g: "getlinenum (decimal n @ s) = Inr (int n)" using atol_decimal [OF assms] by (simp add: getlinenum_def)
  have d: "\<And>x. x \<in> set (decimal n) \<Longrightarrow> isdigit (code x)"
    using decimal_digits(1) [of n] by (auto simp: list_all_iff is_digit_def)
  have "dropWhile (\<lambda>c. isdigit (code c)) s = s" using assms(1) by (cases s) (auto simp: is_digit_def)
  then have "dropWhile (\<lambda>c. isdigit (code c)) (decimal n @ s) = s" using d by (simp add: dropWhile_append2)
  with g show "getskiplinenum (decimal n @ s) = Inr (int n, s)" by (simp add: getskiplinenum_def)
qed

lemma not_digit: "\<not> is_digit CHR '',''" "\<not> is_digit CHR ''a''" "\<not> is_digit CHR ''c''" "\<not> is_digit CHR ''d''" "\<not> is_digit NL"
  by (simp_all add: is_digit_def isdigit_def)

lemma hunk_head_normal:
  assumes ab: "0 < a" "a \<le> b + 1" "c \<le> d + 1" "0 < c" "\<not> (a > b \<and> c > d)" and small: "b \<le> 100000" "d \<le> 100000"
  shows "hunk_head (range_text a b '','' @
      [if a > b then CHR ''a'' else if c > d then CHR ''d'' else CHR ''c''] @ range_text c d '','' @ [NL]) =
    Inr (if a > b then CHR ''a'' else if c > d then CHR ''d'' else CHR ''c'',
      int a, int (b + 1 - a), int c, int d)"
proof -
  let ?ty = "if a > b then CHR ''a'' else if c > d then CHR ''d'' else CHR ''c''"
  let ?s = "?ty # range_text c d '','' @ [NL]"
  have L: "int n \<le> 2 ^ 63 - 1" if "n \<le> 100001" for n using that by simp
  have nd: "\<not> is_digit (hd ?s)" using not_digit by simp
  have n: "?s \<noteq> []" "at0 ?s = ?ty" "?ty \<noteq> CHR '',''" by simp_all
  have new: "rbind (getskiplinenum (range_text c d '','' @ [NL])) (\<lambda>(min, s).
      rbind (if at0 s = CHR '','' then getlinenum (tl s) else Inr min) (\<lambda>max. F min max)) =
    F (int (if c > d then d else c)) (int d)" for F :: "int \<Rightarrow> int \<Rightarrow> patch_error + 'x"
  proof -
    have n1: "getskiplinenum (decimal k @ [NL]) = Inr (int k, [NL])" if "k \<le> 100001" for k
      using getskiplinenum_decimal(2) [of "[NL]" k] L [OF that] not_digit by simp
    have n2: "getskiplinenum (decimal c @ CHR '','' # decimal d @ [NL]) = Inr (int c, CHR '','' # decimal d @ [NL])"
      using getskiplinenum_decimal(2) [of "CHR '','' # decimal d @ [NL]" c] L [of c] not_digit ab small by simp
    have n3: "getlinenum (decimal d @ [NL]) = Inr (int d)"
      using getskiplinenum_decimal(1) [of "[NL]" d] L [of d] not_digit small by simp
    consider "c > d" | "c = d" | "c < d" by linarith
    then show ?thesis
    proof cases
      case 1
      then show ?thesis using n1 [of d] small by (simp add: range_text_def)
    next
      case 2
      then show ?thesis using n1 [of d] small by (simp add: range_text_def)
    next
      case 3
      then show ?thesis using 3 n2 n3 by (simp add: range_text_def)
    qed
  qed
  have old: "rbind (getskiplinenum (range_text a b '','' @ ?s)) (\<lambda>(first, s).
      rbind (if at0 s = CHR '','' then rmap (\<lambda>(l, s). (l - first + 1, s)) (getskiplinenum (tl s))
            else Inr (if at0 s \<noteq> CHR ''a'' then 1 else 0, s)) (\<lambda>(ptrn, s). F first ptrn s)) =
    F (int (if a > b then b else a)) (int (b + 1 - a)) ?s"
    for F :: "int \<Rightarrow> int \<Rightarrow> string \<Rightarrow> patch_error + 'x"
  proof -
    have o1: "getskiplinenum (decimal k @ ?s) = Inr (int k, ?s)" if "k \<le> 100001" for k
      using getskiplinenum_decimal(2) [of ?s k] L [OF that] nd by blast
    have o2: "getskiplinenum (decimal a @ CHR '','' # decimal b @ ?s) = Inr (int a, CHR '','' # decimal b @ ?s)"
      using getskiplinenum_decimal(2) [of "CHR '','' # decimal b @ ?s" a] L [of a] not_digit ab small by simp
    consider "a > b" | "a = b" | "a < b" by linarith
    then show ?thesis
    proof cases
      case 1
      then have "range_text a b '','' = decimal b" by (simp add: range_text_def)
      then show ?thesis using o1 [of b] small 1 by simp
    next
      case 2
      then have "range_text a b '','' = decimal b" by (simp add: range_text_def)
      then show ?thesis using o1 [of b] small 2 by simp
    next
      case 3
      then have r: "range_text a b '','' @ ?s = decimal a @ CHR '','' # decimal b @ ?s" by (simp add: range_text_def)
      have "int b - int a + 1 = 1 + int b - int a" by simp
      then show ?thesis unfolding r using o2 o1 [of b] small 3 by (simp add: of_nat_diff algebra_simps)
    qed
  qed
  have e: "range_text a b '','' @ [?ty] @ range_text c d '','' @ [NL] = range_text a b '','' @ ?s" by simp
  show ?thesis
    unfolding hunk_head_def e old Let_def n(2)
    using ab small by (simp add: new)
qed

lemma getline_line: "NL \<notin> set l \<Longrightarrow> getline (l @ NL # f) = Some (l @ [NL], f)"
proof -
  assume l: "NL \<notin> set l"
  have "takeWhile (\<lambda>c. c \<noteq> NL) (l @ NL # f) = l" "dropWhile (\<lambda>c. c \<noteq> NL) (l @ NL # f) = NL # f"
    using l by (induction l) auto
  then show ?thesis by (simp add: getline_def)
qed

lemma strip_indent_0 [simp]: "strip_indent 0 i l = l"
  by (cases l) simp_all

lemma pgetline_line: "NL \<notin> set l \<Longrightarrow> pgetline 0 (l @ NL # f) = Some (l @ [NL], f)"
  by (simp add: pgetline_def getline_line)

lemma cstr_line: "NUL \<notin> set l \<Longrightarrow> cstr (l @ [NL]) = l @ [NL]"
  by (induction l) (auto simp: cstr_def)

lemma hunk_lines_marked:
  "text_ok ls \<Longrightarrow> ch \<noteq> NL \<Longrightarrow> hunk_lines 0 ch (length ls) (marked ch ls @ f) = Inr (map (\<lambda>l. l @ [NL]) ls, f)"
proof (induction ls)
  case (Cons l ls)
  then have "NL \<notin> set ([ch, CHR '' ''] @ l)" "NUL \<notin> set l" "text_ok ls" by (auto simp: text_ok_def)
  with Cons pgetline_line [of "[ch, CHR '' ''] @ l" "marked ch ls @ f"] cstr_line [of l] show ?case
    by (simp add: marked_def)
qed (simp add: marked_def)

lemma special_line_none: "f = [] \<or> hd f \<noteq> CHR 0x5C \<Longrightarrow> special_line ls f = Inr (ls, f)"
  by (cases f) (simp_all add: special_line_def remove_special_line_def)

lemma marked_hd: "ls \<noteq> [] \<Longrightarrow> marked ch ls @ f \<noteq> [] \<and> hd (marked ch ls @ f) = ch"
  by (cases ls) (simp_all add: marked_def)

lemma hunk_body_normal:
  assumes ok: "text_ok olds" "text_ok news" and f: "f = [] \<or> is_digit (hd f)" and ne: "olds \<noteq> [] \<or> news \<noteq> []"
  shows "hunk_body 0 (if olds = [] then CHR ''a'' else if news = [] then CHR ''d'' else CHR ''c'') (int (length olds))
      (int (length olds + length news + 1))
      (marked CHR ''<'' olds @ (if olds \<noteq> [] \<and> news \<noteq> [] then ''---'' @ [NL] else []) @ marked CHR ''>'' news @ f) =
    Inr (map (\<lambda>l. l @ [NL]) olds, map (\<lambda>l. l @ [NL]) news, f)"
proof -
  let ?sep = "if olds \<noteq> [] \<and> news \<noteq> [] then ''---'' @ [NL] else []"
  let ?g = "?sep @ marked CHR ''>'' news @ f"
  have f': "f = [] \<or> hd f \<noteq> CHR 0x5C" using f by (auto simp: is_digit_def isdigit_def)
  then have g: "?g = [] \<or> hd ?g \<noteq> CHR 0x5C"
    using marked_hd [of news "CHR ''>''" f] by (cases "news = []") (auto simp: marked_def)
  have sep: "hunk_sep 0 (if olds = [] then CHR ''a'' else if news = [] then CHR ''d'' else CHR ''c'') ?g =
      Inr (marked CHR ''>'' news @ f)"
    using pgetline_line [of "''---''" "marked CHR ''>'' news @ f"] by (simp add: hunk_sep_def)
  have n: "nat (int (length olds + length news + 1) - (int (length olds) + 1)) = length news" by simp
  show ?thesis
    unfolding hunk_body_def nat_int
    using hunk_lines_marked [OF ok(1), of "CHR ''<''" ?g] special_line_none [OF g, of "map (\<lambda>l. l @ [NL]) olds"] sep
      hunk_lines_marked [OF ok(2), of "CHR ''>''" f] special_line_none [OF f', of "map (\<lambda>l. l @ [NL]) news"]
    by (simp add: n)
qed

lemma another_hunk_normal:
  fixes a b c d :: nat
  assumes ab: "0 < a" "a \<le> b + 1" "0 < c" "c \<le> d + 1" "\<not> (a > b \<and> c > d)"
    and len: "length olds = b + 1 - a" "length news = d + 1 - c" and small: "b + d < 100000"
    and ok: "text_ok olds" "text_ok news" and f: "f = [] \<or> is_digit (hd f)"
  obtains h where "another_hunk 0 rv m (normal_change a b olds c d news @ f) = Inr (Some (h, f))"
    "hunk_for h (if rv then c else a) (if rv then news else olds) (if rv then a else c) (if rv then olds else news)"
proof -
  let ?ty = "if a > b then CHR ''a'' else if c > d then CHR ''d'' else CHR ''c''"
  let ?head = "range_text a b '','' @ [?ty] @ range_text c d '',''"
  let ?body = "marked CHR ''<'' olds @ (if a \<le> b \<and> c \<le> d then ''---'' @ [NL] else []) @ marked CHR ''>'' news @ f"
  have on: "olds = [] \<longleftrightarrow> a > b" "news = [] \<longleftrightarrow> c > d"
    using len ab by (metis One_nat_def Suc_eq_plus1 diff_is_0_eq length_0_conv not_less_eq_eq not_less)+
  have ty: "?ty = (if olds = [] then CHR ''a'' else if news = [] then CHR ''d'' else CHR ''c'')" using on by simp
  have t: "normal_change a b olds c d news @ f = ?head @ NL # ?body"
    using ab(5) by (simp add: normal_change_def)
  have nl: "NL \<notin> set ?head" by (simp add: range_text_def)
  have dec: "isdigit (code (at0 (decimal n @ s)))" for n s
    using decimal_hd [of n] decimal_digits(3) [of n] by (cases "decimal n") (simp_all add: is_digit_def)
  have dig: "isdigit (code (at0 (?head @ [NL])))" using dec by (simp add: range_text_def)
  have hh: "hunk_head (?head @ [NL]) = Inr (?ty, int a, int (length olds), int c, int d)"
    using hunk_head_normal [OF ab(1,2,4,3,5)] small len by simp
  have r: "int d - int c + 1 = int (length news)" using len ab by simp
  have sm: "length olds + length news + 1 \<le> 100000" unfolding len using small ab by arith
  have sp: "(a \<le> b \<and> c \<le> d) = (olds \<noteq> [] \<and> news \<noteq> [])" using on by (simp add: not_less)
  have ne: "olds \<noteq> [] \<or> news \<noteq> []" using on ab(5) by blast
  have pd: "int (length olds) + int (length news) + 1 = int (length olds + length news + 1)" by simp
  have body: "hunk_body 0 ?ty (int (length olds)) (int (length olds) + int (length news) + 1) ?body =
      Inr (map (\<lambda>l. l @ [NL]) olds, map (\<lambda>l. l @ [NL]) news, f)"
    unfolding ty sp pd by (rule hunk_body_normal [OF ok f ne])
  let ?h = "make_hunk (int a) (int (length olds)) (int c) (int d) (map (\<lambda>l. l @ [NL]) olds) (map (\<lambda>l. l @ [NL]) news) m"
  have h: "hunk_for ?h a olds c news"
    using r by (simp add: hunk_for_def make_hunk_def)
  obtain h' where h': "pch_swap ?h = Inr h'" "hunk_for (h'\<lparr>p_stop := CHR ''^''\<rparr>) c news a olds" "p_end h' = p_end ?h"
    using hunk_for_swap [OF h] by metis
  have pe: "\<not> p_end ?h + 1 < 0" using hunk_forD(5) [OF h] by simp
  have st: "?h\<lparr>p_stop := CHR ''^''\<rparr> = ?h" by (simp add: make_hunk_def)
  have c1: "\<not> (int c > 2 ^ 63 - 1 - int (length news) \<or> int (length olds) \<ge> 2 ^ 63 - 1 - int (length news) - 1)"
    using small len ab by simp
  have c2: "\<not> int (length olds) + int (length news) + 1 > 100000" using sm by simp
  have "another_hunk 0 rv m (normal_change a b olds c d news @ f) =
      rbind (if rv then pch_swap ?h else Inr ?h) (\<lambda>h.
        if p_end h + 1 < 0 then Inl OutOfBounds else Inr (Some (h\<lparr>p_stop := CHR ''^''\<rparr>, f)))"
    unfolding another_hunk_def t pgetline_line [OF nl] option.case prod.case hh rbind_Inr Let_def r body
    using dig c1 c2 by simp
  also have "\<dots> = Inr (Some (if rv then h'\<lparr>p_stop := CHR ''^''\<rparr> else ?h, f))"
    using h' pe st by simp
  finally show thesis using that h h'(2) by (cases rv) auto
qed

section \<open>The loop over the hunks\<close>

text \<open>
  A state in which the input up to \<open>i\<close> and the first \<open>j\<close> lines of the result are dealt with; the
  lines of the input from \<open>last_frozen_line\<close> on are not written yet.
\<close>

definition patched :: "string list \<Rightarrow> string list \<Rightarrow> bool \<Rightarrow> nat \<Rightarrow> nat \<Rightarrow> pstate \<Rightarrow> bool" where
  "patched X Y rv i j st \<longleftrightarrow>
     i \<le> length X \<and> reverse st = rv \<and> \<not> skip_rest st \<and> failed st = 0 \<and> rejfp st = [] \<and> last_offset st = 0 \<and>
     (\<exists>f\<le>i. last_frozen_line (ps_out st) = int f \<and>
        ofp (ps_out st) @ file_of (take (i - f) (drop f X)) = file_of (take j Y))"

lemma patched_out:
  assumes "patched X Y rv i j st"
  obtains f out where "ps_out st = \<lparr>last_frozen_line = int f, ofp = out\<rparr>" "f \<le> i"
    "out @ file_of (take (i - f) (drop f X)) = file_of (take j Y)"
proof -
  obtain f where f: "f \<le> i" "last_frozen_line (ps_out st) = int f"
    "ofp (ps_out st) @ file_of (take (i - f) (drop f X)) = file_of (take j Y)"
    using assms by (auto simp: patched_def)
  from f(2) have "ps_out st = \<lparr>last_frozen_line = int f, ofp = ofp (ps_out st)\<rparr>" by (cases "ps_out st") simp
  from that [OF this f(1,3)] show thesis .
qed

definition plain_patch :: "pflags \<Rightarrow> bool" where
  "plain_patch fl \<longleftrightarrow> \<not> pf_canonicalize fl \<and> pf_defines fl = None"

lemma do_hunk_for:
  assumes st: "patched X Y rv i j st" and fl: "plain_patch fl" and junk: "junk \<noteq> CHR ''=''" "junk \<noteq> NL"
    and h: "hunk_for h a olds c news" and e: "i < a" "j < c" "c - 1 \<le> length Y"
    and same: "take (a - 1 - i) (drop i X) = take (c - 1 - j) (drop j Y)"
    and olds: "olds = take (length olds) (drop (a - 1) X)" "a - 1 + length olds \<le> length X"
    and news: "news = take (length news) (drop (c - 1) Y)" and ne: "olds \<noteq> [] \<or> news \<noteq> []"
  obtains st' where "do_hunk junk fl (inp_of X) h st = Inr st'"
    "patched X Y rv (a - 1 + length olds) (c - 1 + length news) st'" "hunk_no st' = hunk_no st + 1"
proof -
  have a: "0 < a" using e by simp
  obtain f out where f: "ps_out st = \<lparr>last_frozen_line = int f, ofp = out\<rparr>" "f \<le> i"
    "out @ file_of (take (i - f) (drop f X)) = file_of (take j Y)"
    by (rule patched_out [OF st])
  note l = locate_for [OF h a olds(1)]
  have s: "\<not> skip_rest st" "last_offset st = 0" using st by (simp_all add: patched_def)
  let ?st = "st\<lparr>hunk_no := hunk_no st + 1, hunkmax := p_hunkmax h\<rparr>"
  have loc: "find_place fl (inp_of X) (min (pf_maxfuzz fl) (p_context h)) 0 h ?st = Inr (int a, h, ?st)"
    using l fl s(2) a by (subst find_place.simps) (simp add: plain_patch_def Let_def)
  have "f \<le> a - 1" using f(2) e by simp
  from apply_hunk_for [OF h junk a olds(2) this ne, of out]
  have ap: "apply_hunk junk (pf_defines fl) (inp_of X) h (int a) (ps_out st) =
      Inr \<lparr>last_frozen_line = int (a - 1 + length olds), ofp = out @ file_of (take (a - 1 - f) (drop f X)) @ file_of news\<rparr>"
    using fl by (simp add: plain_patch_def f(1))
  let ?o = "\<lparr>last_frozen_line = int (a - 1 + length olds), ofp = out @ file_of (take (a - 1 - f) (drop f X)) @ file_of news\<rparr>"
  have "do_hunk junk fl (inp_of X) h st = Inr (?st\<lparr>ps_out := ?o\<rparr>)"
    unfolding do_hunk_def Let_def using s(1) loc ap a by simp
  moreover have "out @ file_of (take (a - 1 - f) (drop f X)) @ file_of news = file_of (take (c - 1 + length news) Y)"
  proof -
    have k: "a - 1 - f = (i - f) + (a - 1 - i)" using f(2) e by simp
    have "take (a - 1 - f) (drop f X) = take (i - f) (drop f X) @ take (a - 1 - i) (drop i X)"
      unfolding k take_add using f(2) by simp
    then have "out @ file_of (take (a - 1 - f) (drop f X)) @ file_of news =
        file_of (take j Y @ take (c - 1 - j) (drop j Y) @ news)" using f(3) same by simp
    also have "take j Y @ take (c - 1 - j) (drop j Y) @ news = take (c - 1) Y @ take (length news) (drop (c - 1) Y)"
      using take_add [of j "c - 1 - j" Y] e news by simp
    also have "\<dots> = take (c - 1 + length news) Y" by (simp add: take_add)
    finally show ?thesis .
  qed
  then have "patched X Y rv (a - 1 + length olds) (c - 1 + length news) (?st\<lparr>ps_out := ?o\<rparr>)"
    unfolding patched_def using st olds(2)
    by (intro conjI exI [of _ "a - 1 + length olds"]) (simp_all add: patched_def)
  ultimately show thesis using that [of "?st\<lparr>ps_out := ?o\<rparr>"] by simp
qed

definition swap_change :: "dchange \<Rightarrow> dchange" where
  "swap_change x = (case x of (a, b, c, d) \<Rightarrow> (c, d, a, b))"

lemma edits_swap: "edits A B i j cs \<Longrightarrow> edits B A j i (map swap_change cs)"
  by (induction A B i j cs rule: edits.induct) (auto simp: swap_change_def)

lemma text_ok_part: "text_ok X \<Longrightarrow> text_ok (drop i (take k X))"
  by (auto simp: text_ok_def dest: in_set_dropD in_set_takeD)

lemma patched_skip:
  assumes st: "patched X Y rv i j st" and i: "i \<le> i'" "i' \<le> length X" "j \<le> j'"
    and same: "take (i' - i) (drop i X) = take (j' - j) (drop j Y)"
  shows "patched X Y rv i' j' st"
proof -
  obtain f where f: "f \<le> i" "last_frozen_line (ps_out st) = int f"
    "ofp (ps_out st) @ file_of (take (i - f) (drop f X)) = file_of (take j Y)"
    using st by (auto simp: patched_def)
  have "take (i' - f) (drop f X) = take (i - f) (drop f X) @ take (i' - i) (drop i X)"
    using take_add [of "i - f" "i' - i" "drop f X"] f(1) i(1) by simp
  moreover have "take j' Y = take j Y @ take (j' - j) (drop j Y)" using take_add [of j "j' - j" Y] i(3) by simp
  ultimately have "ofp (ps_out st) @ file_of (take (i' - f) (drop f X)) = file_of (take j' Y)"
    using f(3) same by (metis append_assoc file_of_simps(3))
  with st f i show ?thesis by (auto simp: patched_def)
qed

lemma do_hunks_normal:
  fixes rv :: bool
  assumes fl: "plain_patch fl" and junk: "junk \<noteq> CHR ''=''" "junk \<noteq> NL"
    and A: "text_ok A" and B: "text_ok B" and small: "length A + length B < 100000"
  defines "X \<equiv> if rv then B else A" and "Y \<equiv> if rv then A else B"
  shows "edits A B i j cs \<Longrightarrow> patched X Y rv (if rv then j else i) (if rv then i else j) st \<Longrightarrow>
    \<exists>st' i' j'. do_hunks 0 junk fl (inp_of X) st (normal_text A B cs) = Inr st' \<and>
      patched X Y rv i' j' st' \<and> drop i' X = drop j' Y \<and> hunk_no st \<le> hunk_no st' \<and>
      (normal_text A B cs \<noteq> [] \<longrightarrow> hunk_no st < hunk_no st')"
proof (induction cs arbitrary: i j st)
  case Nil
  have "another_hunk 0 r m [] = Inr None" for r m by (simp add: another_hunk_def pgetline_def getline_def)
  then have "do_hunks 0 junk fl (inp_of X) st (normal_text A B []) = Inr st"
    by (subst do_hunks.simps) simp
  moreover have "drop (if rv then j else i) X = drop (if rv then i else j) Y"
    using Nil(1) by (simp add: X_def Y_def)
  ultimately show ?case using Nil(2) by auto
next
  case (Cons x cs)
  obtain a b c d where x: "x = (a, b, c, d)" by (metis prod_cases4)
  from Cons.prems(1) have e: "i < a" "a \<le> b + 1" "b \<le> length A" "j < c" "c \<le> d + 1" "d \<le> length B"
    "take (a - 1 - i) (drop i A) = take (c - 1 - j) (drop j B)" "edits A B b d cs" by (auto simp: x)
  let ?olds = "drop (a - 1) (take b A)" and ?news = "drop (c - 1) (take d B)"
  show ?case
  proof (cases "a > b \<and> c > d")
    case True
    have bd: "b = a - 1" "d = c - 1" using conjunct1 [OF True] conjunct2 [OF True] e(2,5) by arith+
    have "patched X Y rv (if rv then d else b) (if rv then b else d) st"
      by (rule patched_skip [OF Cons.prems(2)]) (use e bd in \<open>auto simp: X_def Y_def\<close>)
    from Cons.IH [OF e(8) this] show ?thesis
      using True by (simp add: x normal_change_def)
  next
    case False
    have len: "length ?olds = b + 1 - a" "length ?news = d + 1 - c" using e by simp_all
    obtain h where h: "another_hunk 0 rv (hunkmax st) (normal_text A B (x # cs)) = Inr (Some (h, normal_text A B cs))"
      "hunk_for h (if rv then c else a) (if rv then ?news else ?olds) (if rv then a else c) (if rv then ?olds else ?news)"
      using another_hunk_normal [OF _ e(2) _ e(5) False len _ text_ok_part [OF A] text_ok_part [OF B] normal_text_hd,
          of rv "hunkmax st" A B cs] e small by (auto simp: x)
    have t: "take (length (drop p (take q L))) (drop p L) = drop p (take q L)" for p q and L :: "string list"
      unfolding drop_take by (cases "q - p \<le> length (drop p L)") simp_all
    have ne: "?olds \<noteq> [] \<or> ?news \<noteq> []" using False e by auto
    obtain st1 where st1: "do_hunk junk fl (inp_of X) h st = Inr st1"
      "patched X Y rv ((if rv then c else a) - 1 + length (if rv then ?news else ?olds))
         ((if rv then a else c) - 1 + length (if rv then ?olds else ?news)) st1" "hunk_no st1 = hunk_no st + 1"
      by (rule do_hunk_for [OF Cons.prems(2) fl junk h(2)])
        (use e ne t [of "c - 1" d B] t [of "a - 1" b A] in \<open>auto simp: X_def Y_def split: if_splits\<close>)
    have "patched X Y rv (if rv then d else b) (if rv then b else d) st1"
      using st1(2) e by (cases rv) (auto simp: X_def Y_def)
    from Cons.IH [OF e(8) this] obtain st' i' j' where st':
      "do_hunks 0 junk fl (inp_of X) st1 (normal_text A B cs) = Inr st'" "patched X Y rv i' j' st'"
      "drop i' X = drop j' Y" "hunk_no st1 \<le> hunk_no st'" by blast
    have "reverse st = rv" using Cons.prems(2) by (simp add: patched_def)
    then have "do_hunks 0 junk fl (inp_of X) st (normal_text A B (x # cs)) = Inr st'"
      using h(1) st1(1) st'(1) by (subst do_hunks.simps) simp
    with st' st1(3) show ?thesis by (intro exI conjI) auto
  qed
qed

section \<open>diff and patch\<close>

lemma spew_for:
  assumes "patched X Y rv i j st" "drop i X = drop j Y"
  shows "spew_output (inp_of X) (ps_out st) = Inr (file_of Y)"
proof -
  obtain f out where f: "ps_out st = \<lparr>last_frozen_line = int f, ofp = out\<rparr>" "f \<le> i"
    "out @ file_of (take (i - f) (drop f X)) = file_of (take j Y)"
    by (rule patched_out [OF assms(1)])
  have i: "i \<le> length X" using assms(1) by (simp add: patched_def)
  have "out @ file_of (take (length X - f) (drop f X)) = file_of Y"
  proof -
    have t: "take (length X - f) (drop f X) = take (i - f) (drop f X) @ drop i X"
      using f(2) i append_take_drop_id [of "i - f" "drop f X"] by simp
    have "out @ file_of (take (length X - f) (drop f X)) =
        (out @ file_of (take (i - f) (drop f X))) @ file_of (drop i X)" unfolding t by simp
    also have "\<dots> = file_of (take j Y @ drop j Y)"
      unfolding f(3) assms(2) file_of_simps(3) [of "take j Y" "drop j Y"] ..
    finally show ?thesis by (simp only: append_take_drop_id)
  qed
  then show ?thesis
    using f i copy_till_of [of f "length X" X True out] by (auto simp: spew_output_def)
qed

lemma normal_text_empty:
  "edits A B i j cs \<Longrightarrow> normal_text A B cs = [] \<Longrightarrow> drop i A = drop j B"
proof (induction cs arbitrary: i j)
  case (Cons x cs)
  obtain a b c d where x: "x = (a, b, c, d)" by (metis prod_cases4)
  have ch: "normal_change a b (drop (a - 1) (take b A)) c d (drop (c - 1) (take d B)) = []"
    and rest: "normal_text A B cs = []" using Cons.prems(2) by (simp_all add: x)
  have ab: "b < a" "d < c" using ch [unfolded normal_change_empty] by simp_all
  from Cons.prems(1) have e: "i < a" "a \<le> b + 1" "j < c" "c \<le> d + 1"
    "take (a - 1 - i) (drop i A) = take (c - 1 - j) (drop j B)" "edits A B b d cs" by (auto simp: x)
  have k: "a - 1 - i = b - i" "c - 1 - j = d - j" "i \<le> b" "j \<le> d" using ab e(1-4) by arith+
  have "drop (b - i) (drop i A) = drop (d - j) (drop j B)" using Cons.IH [OF e(6) rest] k(3,4) by simp
  with e(5) [unfolded k(1,2)] have "take (b - i) (drop i A) @ drop (b - i) (drop i A) =
      take (d - j) (drop j B) @ drop (d - j) (drop j B)" by simp
  then show ?case by (simp only: append_take_drop_id)
qed simp

lemma diff_patch:
  fixes rv :: bool
  assumes fl: "plain fl" "\<not> d_Tflag fl" and A: "text_ok A" and B: "text_ok B" "hash_ok B" and neq: "A \<noteq> B"
    and small: "length A + length B < 100000"
    and pf: "plain_patch pf" "pf_reverse pf = rv" and junk: "junk \<noteq> CHR ''=''" "junk \<noteq> NL"
  shows "\<exists>r out. diffreg fl D_NORMAL (file_of A) (file_of B) = Some (r, out) \<and>
    patch_normal 0 junk pf (file_of (if rv then B else A)) out =
      Inr \<lparr>pr_output = Some (file_of (if rv then A else B)), pr_rejects = [], pr_failed = 0\<rparr>"
proof -
  have ok: "lines_ok fl A" "lines_ok fl B" using A B(1) by (auto simp: lines_ok_def text_ok_def)
  have ex: "exact fl" using fl(1) by (simp add: plain_def)
  note nl = lines_ok_newline [OF ok(1)] lines_ok_newline [OF ok(2)]
  obtain ck where ck: "match_vec (same_line A B) (length A) (length B) (ck_J ck)"
    "file_ends (length A) A (ixold ck)" "file_ends (length B) B (ixnew ck)"
    "diffreg fl D_NORMAL (file_of A) (file_of B) =
       (case print_changes fl D_NORMAL ck (file_of A) (file_of B) (changes D_NORMAL (length A) (length B) (ck_J ck)) of
          (out, any) \<Rightarrow> Some (if any then D_DIFFER else D_SAME, out))"
    using diffreg_lines [OF ex ok B(2) neq] by metis
  let ?cs = "changes D_NORMAL (length A) (length B) (ck_J ck)"
  let ?X = "if rv then B else A" and ?Y = "if rv then A else B"
  have e: "edits A B 0 0 ?cs" by (rule changes_edits [OF ck(1)]) simp
  have out: "diffreg fl D_NORMAL (file_of A) (file_of B) =
      Some (if normal_text A B ?cs \<noteq> [] then D_DIFFER else D_SAME, normal_text A B ?cs)"
    unfolding ck(4) print_changes_normal [OF fl ck(2) nl(1) ck(3) nl(2) e] by simp
  have ne: "normal_text A B ?cs \<noteq> []" using normal_text_empty [OF e] neq by auto
  let ?st = "\<lparr>ps_out = \<lparr>last_frozen_line = 0, ofp = []\<rparr>, last_offset = 0, rejfp = [], hunk_no = 0, failed = 0,
      reverse = rv, skip_rest = False, hunkmax = 125\<rparr>"
  have st: "patched ?X ?Y rv (if rv then 0 else 0) (if rv then 0 else 0) ?st" by (simp add: patched_def)
  obtain st' i' j' where st': "do_hunks 0 junk pf (inp_of ?X) ?st (normal_text A B ?cs) = Inr st'"
    "patched ?X ?Y rv i' j' st'" "drop i' ?X = drop j' ?Y" "0 < hunk_no st'"
    using do_hunks_normal [OF pf(1) junk A B(1) small e st] ne by auto
  have pl: "plan_a (file_of ?X) = inp_of ?X" using plan_a_file A B(1) by simp
  have "patch_normal 0 junk pf (file_of ?X) (normal_text A B ?cs) =
      Inr \<lparr>pr_output = Some (file_of ?Y), pr_rejects = [], pr_failed = 0\<rparr>"
    unfolding patch_normal_def pl Let_def pf(2) st'(1) rbind_Inr
    using st'(2,4) spew_for [OF st'(2,3)] by (simp add: patched_def)
  with out show ?thesis by blast
qed

text \<open>
  C5: \<open>patch\<close> applied to the old file with the plain output of \<open>diff\<close> makes the new file; every
  hunk is found at its place and none is rejected. The byte \<open>junk\<close> behind a full array of control
  characters must not be one that is taken for a header.
\<close>

theorem diff_patch_forward:
  assumes "plain fl" "\<not> d_Tflag fl" and "text_ok A" and "text_ok B" "hash_ok B" and "A \<noteq> B"
    and "length A + length B < 100000"
    and "plain_patch pf" "\<not> pf_reverse pf" and "junk \<noteq> CHR ''=''" "junk \<noteq> NL"
  shows "\<exists>r out. diffreg fl D_NORMAL (file_of A) (file_of B) = Some (r, out) \<and>
    patch_normal 0 junk pf (file_of A) out = Inr \<lparr>pr_output = Some (file_of B), pr_rejects = [], pr_failed = 0\<rparr>"
  using diff_patch [of fl A B pf False junk] assms by simp

definition no_switches :: pflags where
  "no_switches = \<lparr>pf_force = False, pf_batch = False, pf_noreverse = False, pf_reverse = False, pf_canonicalize = False,
     pf_maxfuzz = 2, pf_answer1 = NL, pf_answer2 = NL, pf_defines = None\<rparr>"

theorem diff_patch_forward_witness:
  "\<exists>r out. diffreg no_flags D_NORMAL (file_of [''a'', ''b'', ''c'']) (file_of [''a'', ''x'', ''c'', ''d'']) = Some (r, out) \<and>
    patch_normal 0 NUL no_switches (file_of [''a'', ''b'', ''c'']) out =
      Inr \<lparr>pr_output = Some (file_of [''a'', ''x'', ''c'', ''d'']), pr_rejects = [], pr_failed = 0\<rparr>"
proof (rule diff_patch_forward)
  show "plain no_flags" "\<not> d_Tflag no_flags" by code_simp+
  show "text_ok [''a'', ''b'', ''c'']" "text_ok [''a'', ''x'', ''c'', ''d'']" by code_simp+
  show "hash_ok [''a'', ''x'', ''c'', ''d'']" by code_simp
  show "plain_patch no_switches" "\<not> pf_reverse no_switches" by code_simp+
qed simp_all

text \<open>
  C6: \<open>patch -R\<close> applied to the new file with the same output of \<open>diff\<close> restores the old file,
  without rejected hunks.
\<close>

theorem diff_patch_reverse:
  assumes "plain fl" "\<not> d_Tflag fl" and "text_ok A" and "text_ok B" "hash_ok B" and "A \<noteq> B"
    and "length A + length B < 100000"
    and "plain_patch pf" "pf_reverse pf" and "junk \<noteq> CHR ''=''" "junk \<noteq> NL"
  shows "\<exists>r out. diffreg fl D_NORMAL (file_of A) (file_of B) = Some (r, out) \<and>
    patch_normal 0 junk pf (file_of B) out = Inr \<lparr>pr_output = Some (file_of A), pr_rejects = [], pr_failed = 0\<rparr>"
  using diff_patch [of fl A B pf True junk] assms by simp

theorem diff_patch_reverse_witness:
  "\<exists>r out. diffreg no_flags D_NORMAL (file_of [''a'', ''b'']) (file_of [''b'', ''c'', []]) = Some (r, out) \<and>
    patch_normal 0 NUL (no_switches\<lparr>pf_reverse := True\<rparr>) (file_of [''b'', ''c'', []]) out =
      Inr \<lparr>pr_output = Some (file_of [''a'', ''b'']), pr_rejects = [], pr_failed = 0\<rparr>"
proof (rule diff_patch_reverse)
  show "plain no_flags" "\<not> d_Tflag no_flags" by code_simp+
  show "text_ok [''a'', ''b'']" "text_ok [''b'', ''c'', []]" by code_simp+
  show "hash_ok [''b'', ''c'', []]" by code_simp
  show "plain_patch (no_switches\<lparr>pf_reverse := True\<rparr>)" "pf_reverse (no_switches\<lparr>pf_reverse := True\<rparr>)" by code_simp+
qed simp_all

section \<open>A history of files\<close>

text \<open>
  Differences between files that can be applied in both directions, as those who keep the versions
  of a file rely on: the changes from each version to the next one lead from the first version to
  the last, and taken back in reverse order from the last to the first.
\<close>

fun apply_all :: "('d \<Rightarrow> 'f \<Rightarrow> 'f option) \<Rightarrow> 'd list \<Rightarrow> 'f \<Rightarrow> 'f option" where
  "apply_all ap [] f = Some f"
| "apply_all ap (d # ds) f = (case ap d f of None \<Rightarrow> None | Some g \<Rightarrow> apply_all ap ds g)"

fun deltas :: "('f \<Rightarrow> 'f \<Rightarrow> 'd) \<Rightarrow> 'f list \<Rightarrow> 'd list" where
  "deltas delta (a # b # vs) = delta a b # deltas delta (b # vs)"
| "deltas delta vs = []"

lemma apply_all_append:
  "apply_all ap (ds @ es) f = (case apply_all ap ds f of None \<Rightarrow> None | Some g \<Rightarrow> apply_all ap es g)"
  by (induction ds arbitrary: f) (auto split: option.splits)

locale reversible_delta =
  fixes ok :: "'f \<Rightarrow> 'f \<Rightarrow> bool"
    and delta :: "'f \<Rightarrow> 'f \<Rightarrow> 'd"
    and redo :: "'d \<Rightarrow> 'f \<Rightarrow> 'f option"
    and undo :: "'d \<Rightarrow> 'f \<Rightarrow> 'f option"
  assumes redo: "ok a b \<Longrightarrow> redo (delta a b) a = Some b"
    and undo: "ok a b \<Longrightarrow> undo (delta a b) b = Some a"
begin

lemma replay: "successively ok (v # vs) \<Longrightarrow> apply_all redo (deltas delta (v # vs)) v = Some (last (v # vs))"
  by (induction vs arbitrary: v) (auto simp: redo)

lemma unwind: "successively ok (v # vs) \<Longrightarrow> apply_all undo (rev (deltas delta (v # vs))) (last (v # vs)) = Some v"
  by (induction vs arbitrary: v) (auto simp: undo apply_all_append)

end

definition diff_text :: "string \<Rightarrow> string \<Rightarrow> string" where
  "diff_text f g = (case diffreg no_flags D_NORMAL f g of Some (r, out) \<Rightarrow> out | None \<Rightarrow> [])"

definition patched_file :: "pflags \<Rightarrow> string \<Rightarrow> string \<Rightarrow> string option" where
  "patched_file pf d f =
     (case patch_normal 0 NUL pf f d of
        Inr r \<Rightarrow> if pr_failed r = 0 then pr_output r else None
      | Inl e \<Rightarrow> None)"

definition comparable :: "string \<Rightarrow> string \<Rightarrow> bool" where
  "comparable f g \<longleftrightarrow>
     (\<exists>A B. f = file_of A \<and> g = file_of B \<and> text_ok A \<and> text_ok B \<and> hash_ok B \<and> A \<noteq> B \<and>
        length A + length B < 100000)"

interpretation patches: reversible_delta comparable diff_text
  "patched_file no_switches" "patched_file (no_switches\<lparr>pf_reverse := True\<rparr>)"
proof
  fix f g
  assume "comparable f g"
  then obtain A B where ab: "f = file_of A" "g = file_of B" "text_ok A" "text_ok B" "hash_ok B" "A \<noteq> B"
    "length A + length B < 100000" by (auto simp: comparable_def)
  have fl: "plain no_flags" "\<not> d_Tflag no_flags" by code_simp+
  have pf: "plain_patch no_switches" "pf_reverse no_switches = False"
    "plain_patch (no_switches\<lparr>pf_reverse := True\<rparr>)" "pf_reverse (no_switches\<lparr>pf_reverse := True\<rparr>) = True" by code_simp+
  have NUL: "NUL \<noteq> CHR ''=''" "NUL \<noteq> NL" by simp_all
  note dp = diff_patch [OF fl ab(3-7)]
  show "patched_file no_switches (diff_text f g) f = Some g"
    using dp [OF pf(1,2) NUL] by (auto simp: patched_file_def diff_text_def ab)
  show "patched_file (no_switches\<lparr>pf_reverse := True\<rparr>) (diff_text f g) g = Some f"
    using dp [OF pf(3,4) NUL] by (auto simp: patched_file_def diff_text_def ab)
qed

text \<open>
  C16: a history of files can be replayed and taken back: applying with \<open>patch\<close> the outputs of \<open>diff\<close>
  between each file and the next leads from the first file to the last, and applying them with
  \<open>-R\<close> in reverse order leads back to the first.
\<close>

theorem patch_history:
  assumes "successively comparable (v # vs)"
  shows "apply_all (patched_file no_switches) (deltas diff_text (v # vs)) v = Some (last (v # vs)) \<and>
    apply_all (patched_file (no_switches\<lparr>pf_reverse := True\<rparr>)) (rev (deltas diff_text (v # vs))) (last (v # vs)) = Some v"
  using patches.replay [OF assms] patches.unwind [OF assms] ..

theorem patch_history_witness:
  "apply_all (patched_file no_switches) (deltas diff_text (map file_of [[''a''], [''a'', ''b''], []])) (file_of [''a'']) =
     Some (file_of []) \<and>
   apply_all (patched_file (no_switches\<lparr>pf_reverse := True\<rparr>)) (rev (deltas diff_text (map file_of [[''a''], [''a'', ''b''], []])))
     (file_of []) = Some (file_of [''a''])"
proof -
  have c: "text_ok A \<Longrightarrow> text_ok B \<Longrightarrow> hash_ok B \<Longrightarrow> A \<noteq> B \<Longrightarrow> length A + length B < 100000 \<Longrightarrow>
      comparable (file_of A) (file_of B)" for A B by (auto simp: comparable_def)
  have t: "text_ok [''a'']" "text_ok [''a'', ''b'']" "text_ok []" "hash_ok [''a'', ''b'']" "hash_ok []" by code_simp+
  have s: "comparable (file_of [''a'']) (file_of [''a'', ''b''])" "comparable (file_of [''a'', ''b'']) (file_of [])"
    by (rule c; simp add: t)+
  have "successively comparable (file_of [''a''] # [file_of [''a'', ''b''], file_of []])" using s by simp
  from patch_history [OF this] show ?thesis by simp
qed

section \<open>A range that is turned around\<close>



end
