(* ===== verification/Spec2Isabelle.thy ===== *)
theory Spec2Isabelle
  imports FindPlan SetMode VisRoundTrip Base64 Cksum TrMeaning TsortOrder LzwSafe Gunzip DiffLimits DiffPatch
begin

text \<open>
  The core of a few of the BSD tools of this repository: how \<open>find\<close> arranges its expression, how
  \<open>chmod\<close> reads a mode, the encodings of \<open>vis\<close> and \<open>base64\<close>, the checksums of \<open>cksum\<close>, the character
  translation of \<open>tr\<close>, the ordering of \<open>tsort\<close>, the compression of \<open>compress\<close> and its decoder in
  \<open>gzip\<close>, the comparison of \<open>diff\<close> and the application of its output by \<open>patch\<close>. The program is a
  set of commands and a library under \<open>src/Library\<close> that they call. Chosen are the parts whose
  own computation carries the command; what reads options, names files or calls the system is
  left out, as said below.

  \<^bold>\<open>Conventions.\<close> A theory holds first the model, in the order of the C file, and then what is
  proved of it; for the larger components the proofs are in theories of their own. A C string or
  a file of text is a \<open>string\<close>, a file of bytes a list of numbers or of 8-bit words. A struct is
  a record with the names of its fields, an enum a datatype. A function that can fail returns
  \<open>Inl\<close> an error of the component's datatype or \<open>Inr\<close> a result (\<open>rbind\<close> and \<open>rmap\<close> of \<open>Prelude\<close>
  pass errors on). Reads and writes outside an array are such errors, so that a theorem with a
  result says that there are none. A loop that may not end is a \<open>partial_function (option)\<close>, and
  \<open>None\<close> is that it does not. Integers have their width where the code relies on it (modes,
  CRC, \<open>LINENUM_MAX\<close>), and are unbounded otherwise, with the bound on the size of the files named
  in the theory or the theorem. Memory is never exhausted.

  \<^bold>\<open>Prelude.\<close> The result type, C strings, \<open>isspace\<close> and \<open>isdigit\<close> of the C locale, numbers in
  digits, and the locale \<open>codec\<close>: an encoder and a decoder that inverts it. It is
  interpreted by \<open>base64\<close> (\<open>Base64\<close>) and by \<open>vis\<close> with \<open>unvis\<close> (\<open>VisRoundTrip\<close>).

  \<^bold>\<open>FindPlan\<close>: \<open>findutils/find/operator.c\<close>, \<open>find_formplan\<close> and \<open>find_execute\<close> of \<open>find.c\<close>, and
  \<open>f_expr\<close>, \<open>f_not\<close>, \<open>f_or\<close> of \<open>function.c\<close>. The plan is a list of nodes, the primaries and what
  they do to the state are parameters. The plan is proved to evaluate as the expression it
  was parsed from, and to hold no parenthesis.

  \<^bold>\<open>SetMode\<close>: \<open>Library/setmode.c\<close>. The array of bit commands with the length allocated for it,
  \<open>addcmd\<close>, \<open>compress_mode\<close>, the parser and \<open>getmode\<close>. Symbolic specifications are refined by the
  meaning of their clauses; the compression keeps the meaning of every array; no command is
  written past the end.

  \<^bold>\<open>Vis, Unvis, VisRoundTrip\<close>: \<open>Library/vis.c\<close> in the C locale and \<open>Library/unvis.c\<close>. Decoding
  inverts encoding for the flags the two support together; the sizes of both results are
  bounded; with the white space flags the encoding is visible ASCII.

  \<^bold>\<open>Base64\<close>: \<open>coreutils/base64/base64.c\<close>. \<^bold>\<open>Cksum\<close>: \<open>coreutils/cksum/crc.c\<close>, \<open>sum1.c\<close>, \<open>sum2.c\<close>, over the
  results of \<open>read\<close>. The loop over sixteen bytes with its sliced tables is the bitwise CRC of
  POSIX; the locale \<open>xor_linear\<close> holds what follows from linearity and is interpreted for the
  steps over a bit and over a byte.

  \<^bold>\<open>Tr, TrMeaning\<close>: \<open>coreutils/tr/str.c\<close> and \<open>tr.c\<close>. The scanner of the two strings with its states,
  and the modes of \<open>main\<close>. A scanner yields the characters that a list of items (characters,
  ranges, classes, equivalences, escapes) denotes; the output of each mode is given in terms
  of them. The tables have 256 entries, so scanning ends unless an endless sequence is scanned
  to its end.

  \<^bold>\<open>Tsort, TsortGraph, TsortSearch, TsortOrder\<close>: \<open>coreutils/tsort/tsort.c\<close>. A node is an index into a list that
  only grows. The table of names is an interpretation of the locale \<open>numbering\<close>, a dictionary
  that numbers its keys. \<open>find_cycle\<close> has fuel for the depth of its recursion, the number of the
  nodes of the graph, and is proved never to run out of it. The output is a topological order
  apart from nodes on cycles, and what is warned of are cycles.

  \<^bold>\<open>Lzw, LzwTable, LzwBits, LzwRead, LzwRoundTrip, LzwSafe\<close>: \<open>archive/compress/zopen.c\<close> and the loops
  of \<open>compress.c\<close> over its streams. The hash table of the encoder is an interpretation of the
  locale \<open>dictionary\<close>. The bits of the codes, the table of strings of the decoder, one entry
  behind the encoder, and the changes of the width are related to the list of the codes of a file;
  from this what is compressed is decompressed to itself for all sizes of the reads and
  writes. Any other file is read without leaving the tables and the stack.

  \<^bold>\<open>Gunzip\<close>: \<open>archive/gzip/zuncompress.c\<close>, the same decoder in \<open>gzip -d\<close>, with the bytes that were
  read before. It is simulated by the reader of \<open>zopen.c\<close>, so \<open>gzip -d\<close> reads what \<open>compress\<close> writes.

  \<^bold>\<open>Diff\<close> to \<open>DiffLimits\<close>: \<open>diffutils/diff/diffreg.c\<close>. \<open>Diff\<close> is the model: the hashes of the lines with
  the flags that change them, the common prefix and suffix, the sort, the classes of equal lines,
  the algorithm of Stone with its \<open>numtries\<close>, the check of the pairs against the files, and the
  output (plain, \<open>-e\<close>, \<open>-f\<close>, \<open>-n\<close>). \<open>DiffSort\<close>, \<open>DiffStone\<close> and \<open>DiffMatch\<close> show that the match vector is
  an increasing matching of lines with the same hash, and a longest one with \<open>-d\<close>; \<open>DiffCheck\<close>
  that of these pairs just the equal lines stay; \<open>DiffChanges\<close> that the changes lead from one file
  to the other; \<open>DiffScript\<close> and \<open>DiffEd\<close> that \<open>ed\<close> makes the new file with the script of \<open>-e\<close>,
  where \<open>ed_run\<close> is the documented meaning of the commands of POSIX \<open>ed\<close> that \<open>diff\<close> writes.

  \<^bold>\<open>Patch, PatchApply, DiffPatch\<close>: \<open>patch/pch.c\<close>, \<open>inp.c\<close> and \<open>patch.c\<close> for a plain diff. The lines of the
  input, the parsing of hunks, \<open>pch_swap\<close>, \<open>locate_hunk\<close>, \<open>apply_hunk\<close> with \<open>-D\<close>, the rejected hunks and
  the loop over the hunks with the guess of a reversed patch. \<open>PatchApply\<close> relates a hunk to the
  replacement it stands for and shows that the search gives the nearest place; \<open>DiffPatch\<close>
  composes the two programs: the output of \<open>diff\<close> makes the new file out of the old one and,
  with \<open>-R\<close>, the old one out of the new one. The locale \<open>reversible_delta\<close> carries this to a
  history of files and is interpreted by \<open>diff\<close> and \<open>patch\<close>. \<open>junk\<close> is the byte behind a full array of
  control characters, which the code reads.

  \<^bold>\<open>Properties and findings.\<close> The theorems labelled by a number are the properties of the program. Some of
  them state what the code does wrong: the letter \<open>t\<close> that drops permissions in \<open>setmode\<close>, a class at
  the end of the second string of \<open>tr\<close> and an endless sequence there, a numeric entity in \<open>unvis\<close>, fewer than 12 bits
  in \<open>compress\<close>, a line with the hash 0 and a last line without a newline in \<open>diff\<close>, a range that
  is turned around in \<open>patch\<close>.

  \<^bold>\<open>Not modelled.\<close> Of the components above: option parsing, messages, names of files, the
  failure of writes and of allocation; the multibyte locales of \<open>vis\<close>; the message digests of
  \<open>cksum\<close>; of \<open>diff\<close> the context, unified, side by side and \<open>#ifdef\<close> formats, ignored patterns and
  directories; of \<open>patch\<close> the other forms of diffs, the guess of the form and of the file names,
  backups, and plan B for files that do not fit in memory; of \<open>gzip\<close> the deflate, bzip2, xz,
  lzip, zstd and pack decoders. The other commands are not modelled: \<open>awk\<close>, \<open>bc\<close>, \<open>sh\<close>,
  \<open>m4\<close>, \<open>sed\<close> and \<open>grep\<close> are interpreters with generated grammars or rest on the regex library of the C
  library, \<open>pax\<close> and most of \<open>coreutils\<close>, \<open>bsdutils\<close> and \<open>miscutils\<close> consist of system calls and
  loops around input and output.
\<close>

end
